(* ===== verification/Prelude.thy ===== *)
theory Prelude
  imports Main "HOL-Library.Word"
begin

text \<open>
  The prelude of the development: the machine types of the Go program, errors as values, the
  sequencing combinator every fallible operation is written with, little- and big-endian byte
  encodings of machine words, and fixed-size byte buffers with their read-over-write laws.

  Go types are modelled at their width: \<open>uint16\<close>, \<open>uint32\<close> and \<open>uint64\<close> are words; \<open>int64\<close> is
  a \<open>64 word\<close> compared through \<^const>\<open>sint\<close>, so that the source's conversions between \<open>int64\<close> and
  \<open>uint64\<close> are the identity on bits; a slice length is a natural number. A \<open>[]byte\<close> is a list of
  bytes, and where the source distinguishes a nil slice from an empty one it is an option of such
  a list. A Go string is its list of bytes. The arrays \<open>[16]byte\<close> and \<open>[32]byte\<close> are the words of
  128 and 256 bits, read big-endian, so that the lexicographic order of the bytes is the order of
  the words (lemma \<open>bytes_less_be_bytes\<close> of the theory \<open>Stdlib\<close>).
\<close>

unbundle bit_operations_syntax

section \<open>Types and collections of facts\<close>

type_synonym byte = "8 word"
type_synonym bytes = "byte list"
type_synonym uint16 = "16 word"
type_synonym uint32 = "32 word"
type_synonym uint64 = "64 word"
type_synonym id16 = "128 word"
type_synonym hash32 = "256 word"

named_theorems buffer_simps \<open>reading a field of a byte buffer after writing others\<close>
named_theorems codec_simps \<open>definitions of encoders and decoders that proofs unfold together\<close>

section \<open>Errors as values\<close>

text \<open>
  The sentinel errors of \<open>src/api/errors.go\<close>, the format kinds of \<open>src/storage/format.go\<close> and the
  standard library's sentinels that the source tests for. \<open>ErrNew\<close> stands for an error made by
  \<open>errors.New\<close> or \<open>fmt.Errorf\<close>; its text is not modelled. A joined error is the list of what was
  joined, which is all that \<open>errors.Is\<close> observes.
\<close>

datatype errorKind =
    ErrUnknownTopic | ErrOffsetOutOfRange | ErrPartitionUnavailable | ErrAppendOutcomeUnknown
  | ErrDataDirLocked | ErrLockUnsupported | ErrTopicExists | ErrMetadataUnavailable
  | ErrMetadataOutcomeUnknown | ErrAssignmentLost | ErrGroupUnavailable | ErrCommitOutcomeUnknown
  | ErrCommitRegression | ErrInvalidCommit | ErrBackpressure | ErrRecordTooLarge
  | ErrFetchLimitTooSmall | ErrResourceLimit | ErrSystemLogCapacity | ErrDiskPressure
  | ErrClosing | ErrClosed | ErrCloseIncomplete | ErrConcurrentOperation | ErrCorruptLog
  | ErrUnsupportedFormat | ErrInvalidArgument
  | ErrInvalidBatch | ErrInvalidRecord | ErrInvalidSegment
  | ErrContextCanceled | ErrDeadlineExceeded | ErrShortWrite | ErrEOF | ErrUnexpectedEOF
  | ErrNotExist
  | ErrIO | ErrNew

type_synonym error = "errorKind list"
type_synonym 'a result = "error + 'a"

definition errors_Is :: "error \<Rightarrow> errorKind \<Rightarrow> bool" where
  "errors_Is e k \<longleftrightarrow> k \<in> set e"

definition corrupt :: "errorKind \<Rightarrow> error" where
  "corrupt kind = [ErrCorruptLog, kind, ErrNew]"

definition invalidArgument :: "errorKind \<Rightarrow> error" where
  "invalidArgument kind = [ErrInvalidArgument, kind, ErrNew]"

definition unsupported :: error where
  "unsupported = [ErrUnsupportedFormat, ErrNew]"

text \<open>
  \<open>andThen m f\<close> is the source's \<open>x, err := m; if err != nil { return err }; f(x)\<close>.
\<close>

definition andThen :: "'e + 'a \<Rightarrow> ('a \<Rightarrow> 'e + 'b) \<Rightarrow> 'e + 'b" where
  "andThen m f = (case m of Inl e \<Rightarrow> Inl e | Inr x \<Rightarrow> f x)"

lemma andThen_simps [simp]:
  "andThen (Inl e) f = Inl e"
  "andThen (Inr x) f = f x"
  by (simp_all add: andThen_def)

lemma andThen_cong [fundef_cong]:
  "m = m' \<Longrightarrow> (\<And>x. m' = Inr x \<Longrightarrow> f x = f' x) \<Longrightarrow> andThen m f = andThen m' f'"
  by (cases m') auto

lemma andThen_Inr_iff: "andThen m f = Inr y \<longleftrightarrow> (\<exists>x. m = Inr x \<and> f x = Inr y)"
  by (cases m) auto

lemma andThen_InrE:
  assumes "andThen m f = Inr y"
  obtains x where "m = Inr x" and "f x = Inr y"
  using assms by (auto simp: andThen_Inr_iff)

lemma Inr_sym: "Inr x = Inr y \<Longrightarrow> y = x"
  by simp

lemma branch_InrE:
  "(if b then Inl e else x) = Inr q \<Longrightarrow> (\<not> b \<Longrightarrow> x = Inr q \<Longrightarrow> P) \<Longrightarrow> P"
  "(case z of (u, v) \<Rightarrow> f u v) = Inr q \<Longrightarrow> (\<And>u v. z = (u, v) \<Longrightarrow> f u v = Inr q \<Longrightarrow> P) \<Longrightarrow> P"
  "(case w of None \<Rightarrow> Inl e | Some u \<Rightarrow> k u) = Inr q \<Longrightarrow> (\<And>u. w = Some u \<Longrightarrow> k u = Inr q \<Longrightarrow> P) \<Longrightarrow> P"
  by (auto split: if_splits option.splits prod.splits)

text \<open>Congruence rules for an outcome that is reached again when one check succeeds again.\<close>

lemma andThen_later: "andThen m f = Inr q \<Longrightarrow> (\<And>x. f x = Inr q \<Longrightarrow> g x = Inr q) \<Longrightarrow> andThen m g = Inr q"
  by (cases m) auto

lemma branch_later:
  "(if b then Inl e else x) = Inr q \<Longrightarrow> (x = Inr q \<Longrightarrow> y = Inr q) \<Longrightarrow> (if b then Inl e else y) = Inr q"
  "(case z of (u, v) \<Rightarrow> f u v) = Inr q \<Longrightarrow> (\<And>u v. f u v = Inr q \<Longrightarrow> g u v = Inr q) \<Longrightarrow> (case z of (u, v) \<Rightarrow> g u v) = Inr q"
  "(case o' of None \<Rightarrow> Inl e | Some u \<Rightarrow> k u) = Inr q \<Longrightarrow> (\<And>u. k u = Inr q \<Longrightarrow> l u = Inr q)
     \<Longrightarrow> (case o' of None \<Rightarrow> Inl e | Some u \<Rightarrow> l u) = Inr q"
  by (auto split: if_splits option.splits prod.splits)

lemma check_later:
  "(\<And>x. m = Inr x \<Longrightarrow> m' = Inr x) \<Longrightarrow> andThen m f = Inr q \<Longrightarrow> andThen m' f = Inr q"
  by (cases m) auto

lemma andThen_if [simp]:
  "andThen (if b then m else m') f = (if b then andThen m f else andThen m' f)"
  by simp

lemma andThen_assoc: "andThen (andThen m f) g = andThen m (\<lambda>x. andThen (f x) g)"
  by (cases m) simp_all

lemma andThen_case_prod:
  "andThen (case p of (x, y) \<Rightarrow> f x y) g = (case p of (x, y) \<Rightarrow> andThen (f x y) g)"
  by (cases p) simp

text \<open>\<open>guard b e\<close> is the source's \<open>if b { return err }\<close>.\<close>

definition guard :: "bool \<Rightarrow> 'e \<Rightarrow> 'e + unit" where
  "guard b e = (if b then Inl e else Inr ())"

lemma guard_simps [simp]:
  "guard True e = Inl e"
  "guard False e = Inr ()"
  by (simp_all add: guard_def)

lemma guard_Inr_iff [simp]: "guard b e = Inr u \<longleftrightarrow> \<not> b"
  by (simp add: guard_def)

lemma guard_Inl_iff [simp]: "guard b e = Inl e' \<longleftrightarrow> b \<and> e' = e"
  by (auto simp: guard_def)

section \<open>Little-endian and big-endian byte encodings\<close>

primrec le_bytes :: "nat \<Rightarrow> 'a::len word \<Rightarrow> bytes" where
  "le_bytes 0 w = []"
| "le_bytes (Suc n) w = ucast w # le_bytes n (drop_bit 8 w)"

primrec le_word :: "bytes \<Rightarrow> 'a::len word" where
  "le_word [] = 0"
| "le_word (b # bs) = ucast b OR push_bit 8 (le_word bs)"

definition be_bytes :: "nat \<Rightarrow> 'a::len word \<Rightarrow> bytes" where
  "be_bytes n w = rev (le_bytes n w)"

definition be_word :: "bytes \<Rightarrow> 'a::len word" where
  "be_word bs = le_word (rev bs)"

lemma length_le_bytes [simp]: "length (le_bytes n w) = n"
  by (induction n arbitrary: w) auto

lemma length_be_bytes [simp]: "length (be_bytes n w) = n"
  by (simp add: be_bytes_def)

lemma bit_byte_high [simp]: "8 \<le> k \<Longrightarrow> \<not> bit (b :: byte) k"
  by (auto dest: bit_imp_le_length)

lemma le_word_le_bytes_take:
  "le_word (le_bytes n w) = (take_bit (8 * n) w :: 'a::len word)"
proof (induction n arbitrary: w)
  case 0
  then show ?case by simp
next
  case (Suc n)
  show ?case
    by (simp add: Suc.IH) (auto intro!: bit_word_eqI simp: bit_simps)
qed

lemma le_word_le_bytes: "LENGTH('a::len) \<le> 8 * n \<Longrightarrow> le_word (le_bytes n w) = (w :: 'a word)"
  by (simp add: le_word_le_bytes_take)
    (auto intro!: bit_word_eqI simp: bit_simps dest: bit_imp_le_length)

lemma drop_bit_le_word_Cons:
  "8 * Suc (length bs) \<le> LENGTH('a::len) \<Longrightarrow>
     drop_bit 8 (le_word (b # bs) :: 'a word) = le_word bs"
proof (induction bs arbitrary: b)
  case Nil
  then show ?case by (auto intro!: bit_word_eqI simp: bit_simps dest: bit_imp_le_length)
next
  case (Cons c cs)
  have small: "\<not> bit (le_word (c # cs) :: 'a word) k" if "8 * Suc (length cs) \<le> k" for k
    using that
  proof (induction cs arbitrary: c k)
    case Nil
    then show ?case by (auto simp: bit_simps dest: bit_imp_le_length)
  next
    case (Cons d ds)
    have "\<not> bit (le_word (d # ds) :: 'a word) (k - 8)"
      using Cons.prems by (intro Cons.IH) simp
    with Cons.prems show ?case
      by (auto simp: bit_simps dest: bit_imp_le_length)
  qed
  show ?case
  proof (rule bit_word_eqI)
    fix n
    assume n: "n < LENGTH('a)"
    show "bit (drop_bit 8 (le_word (b # c # cs)) :: 'a word) n = bit (le_word (c # cs) :: 'a word) n"
    proof (cases "8 + n < LENGTH('a)")
      case True
      then show ?thesis
        by (subst le_word.simps(2)) (auto simp: bit_simps simp del: le_word.simps dest: bit_imp_le_length)
    next
      case False
      then have "8 * Suc (length cs) \<le> n"
        using Cons.prems by simp
      with False show ?thesis
        using small [of n] by (auto simp: bit_simps simp del: le_word.simps dest: bit_imp_le_length)
    qed
  qed
qed

lemma ucast_le_word_Cons:
  "8 \<le> LENGTH('a::len) \<Longrightarrow> (ucast (le_word (b # bs) :: 'a word) :: byte) = b"
  by (auto intro!: bit_word_eqI simp: bit_simps dest: bit_imp_le_length)

lemma le_bytes_le_word:
  "length bs = n \<Longrightarrow> 8 * n \<le> LENGTH('a::len) \<Longrightarrow> le_bytes n (le_word bs :: 'a word) = bs"
proof (induction bs arbitrary: n)
  case Nil
  then show ?case by simp
next
  case (Cons b bs)
  then obtain m where n: "n = Suc m" by (cases n) auto
  have "le_bytes m (le_word bs :: 'a word) = bs"
    using Cons n by simp
  moreover have "drop_bit 8 (le_word (b # bs) :: 'a word) = le_word bs"
    using Cons.prems n by (intro drop_bit_le_word_Cons) simp
  moreover have "(ucast (le_word (b # bs) :: 'a word) :: byte) = b"
    using Cons.prems n by (intro ucast_le_word_Cons) simp
  ultimately show ?case
    by (simp add: n del: le_word.simps)
qed

lemma be_word_be_bytes: "LENGTH('a::len) \<le> 8 * n \<Longrightarrow> be_word (be_bytes n w) = (w :: 'a word)"
  by (simp add: be_word_def be_bytes_def le_word_le_bytes)

lemma be_bytes_be_word:
  "length bs = n \<Longrightarrow> 8 * n \<le> LENGTH('a::len) \<Longrightarrow> be_bytes n (be_word bs :: 'a word) = bs"
  by (simp add: be_word_def be_bytes_def le_bytes_le_word)

abbreviation PutUint16 :: "uint16 \<Rightarrow> bytes" where "PutUint16 \<equiv> le_bytes 2"
abbreviation PutUint32 :: "uint32 \<Rightarrow> bytes" where "PutUint32 \<equiv> le_bytes 4"
abbreviation PutUint64 :: "uint64 \<Rightarrow> bytes" where "PutUint64 \<equiv> le_bytes 8"
abbreviation Uint16 :: "bytes \<Rightarrow> uint16" where "Uint16 \<equiv> le_word"
abbreviation Uint32 :: "bytes \<Rightarrow> uint32" where "Uint32 \<equiv> le_word"
abbreviation Uint64 :: "bytes \<Rightarrow> uint64" where "Uint64 \<equiv> le_word"
abbreviation id_bytes :: "id16 \<Rightarrow> bytes" where "id_bytes \<equiv> be_bytes 16"
abbreviation bytes_id :: "bytes \<Rightarrow> id16" where "bytes_id \<equiv> be_word"
abbreviation hash_bytes :: "hash32 \<Rightarrow> bytes" where "hash_bytes \<equiv> be_bytes 32"
abbreviation bytes_hash :: "bytes \<Rightarrow> hash32" where "bytes_hash \<equiv> be_word"

lemma word_of_bytes_simps [simp]:
  "Uint16 (PutUint16 a) = a"
  "Uint32 (PutUint32 b) = b"
  "Uint64 (PutUint64 c) = c"
  "bytes_id (id_bytes d) = d"
  "bytes_hash (hash_bytes e) = e"
  by (simp_all add: le_word_le_bytes be_word_be_bytes)

lemma bytes_of_word_simps [simp]:
  "length bs = 2 \<Longrightarrow> PutUint16 (Uint16 bs) = bs"
  "length bs = 4 \<Longrightarrow> PutUint32 (Uint32 bs) = bs"
  "length bs = 8 \<Longrightarrow> PutUint64 (Uint64 bs) = bs"
  "length bs = 16 \<Longrightarrow> id_bytes (bytes_id bs) = bs"
  "length bs = 32 \<Longrightarrow> hash_bytes (bytes_hash bs) = bs"
  by (simp_all add: le_bytes_le_word be_bytes_be_word)

lemma PutUint32_inject [simp]: "PutUint32 a = PutUint32 b \<longleftrightarrow> a = b"
  by (metis word_of_bytes_simps(2))

lemma word_of_bytes_eq_iff:
  "length bs = 2 \<Longrightarrow> Uint16 bs = a \<longleftrightarrow> bs = PutUint16 a"
  "length bs = 4 \<Longrightarrow> Uint32 bs = b \<longleftrightarrow> bs = PutUint32 b"
  "length bs = 8 \<Longrightarrow> Uint64 bs = c \<longleftrightarrow> bs = PutUint64 c"
  by auto

lemma le_bytes_zero: "le_bytes n 0 = replicate n 0"
  by (induction n) auto

text \<open>A length written into a \<open>uint32\<close> and read back is that length when it fits.\<close>

lemma unat_of_nat_32 [simp]: "n < 4294967296 \<Longrightarrow> unat (of_nat n :: uint32) = n"
  by (simp add: unat_of_nat)

lemma unat_of_nat_64 [simp]: "n < 18446744073709551616 \<Longrightarrow> unat (of_nat n :: uint64) = n"
  by (simp add: unat_of_nat)

lemma unat_uint32_less: "unat (w :: uint32) < 4294967296"
  using unsigned_less [of w] by simp

lemma unat_uint64_less: "unat (w :: uint64) < 18446744073709551616"
  using unsigned_less [of w] by simp

lemma unat_ucast_32_64 [simp]: "unat (ucast (w :: uint32) :: uint64) = unat w"
  using unat_uint32_less [of w] by (simp add: unsigned_ucast_eq take_bit_nat_eq_self)

lemma ucast_32_64_32 [simp]: "ucast (ucast (w :: uint32) :: uint64) = w"
  by (rule bit_word_eqI) (simp add: bit_simps)

lemma ucast_64_32_64: "unat (w :: uint64) < 4294967296 \<Longrightarrow> ucast (ucast w :: uint32) = w"
  by (simp add: word_unat_eq_iff unsigned_take_bit_eq unsigned_ucast_eq take_bit_nat_eq_self)

text \<open>A \<open>64 word\<close> read as a signed integer.\<close>

lemma sint_unat:
  "sint (w :: uint64) =
     (if unat w < 9223372036854775808 then int (unat w) else int (unat w) - 18446744073709551616)"
proof -
  have s: "sint w = (uint w + 9223372036854775808) mod 18446744073709551616 - 9223372036854775808"
    by (simp add: sint_uint signed_take_bit_eq_take_bit_shift take_bit_eq_mod)
  have u: "uint w = int (unat w)" by simp
  show ?thesis
  proof (cases "unat w < 9223372036854775808")
    case True
    then show ?thesis unfolding s u by (simp del: of_nat_unat)
  next
    case False
    have "int (unat w) + 9223372036854775808
        = (int (unat w) - 9223372036854775808) + 18446744073709551616" by simp
    moreover have "(int (unat w) - 9223372036854775808) mod 18446744073709551616
        = int (unat w) - 9223372036854775808"
      using False unat_uint64_less [of w] by (intro mod_pos_pos_trivial) linarith+
    ultimately have "(int (unat w) + 9223372036854775808) mod 18446744073709551616
        = int (unat w) - 9223372036854775808" by (metis mod_add_self2)
    with False show ?thesis unfolding s u by (simp del: of_nat_unat)
  qed
qed

lemma sint_neg_iff: "sint (w :: uint64) < 0 \<longleftrightarrow> 9223372036854775808 \<le> unat w"
  using unat_uint64_less [of w] by (simp add: sint_unat del: of_nat_unat)

section \<open>Byte buffers\<close>

text \<open>
  \<open>slice lo hi data\<close> is Go's \<open>data[lo:hi]\<close>; \<open>put_at i bs data\<close> is the buffer after writing \<open>bs\<close> at
  index \<open>i\<close>, which the source does with \<open>copy(data[i:...], bs)\<close> or \<open>binary.LittleEndian.PutUintN\<close>.
\<close>

definition slice :: "nat \<Rightarrow> nat \<Rightarrow> 'a list \<Rightarrow> 'a list" where
  "slice lo hi xs = take (hi - lo) (drop lo xs)"

definition put_at :: "nat \<Rightarrow> 'a list \<Rightarrow> 'a list \<Rightarrow> 'a list" where
  "put_at i bs xs = take i xs @ bs @ drop (i + length bs) xs"

lemma length_slice [simp]: "length (slice lo hi xs) = min (hi - lo) (length xs - lo)"
  by (simp add: slice_def)

lemma slice_full [simp]: "slice 0 (length xs) xs = xs"
  by (simp add: slice_def)

lemma slice_append_left: "hi \<le> length xs \<Longrightarrow> slice lo hi (xs @ ys) = slice lo hi xs"
  by (cases "lo \<le> hi") (simp_all add: slice_def)

lemma slice_append_right:
  "length xs \<le> lo \<Longrightarrow> slice lo hi (xs @ ys) = slice (lo - length xs) (hi - length xs) ys"
  by (simp add: slice_def)

lemma slice_append_all: "slice 0 (length xs) (xs @ ys) = xs"
  by (simp add: slice_def)

lemma slice_slice: "a + j \<le> b \<Longrightarrow> slice i j (slice a b xs) = slice (a + i) (a + j) xs"
  by (simp add: slice_def drop_take min_def add.commute)

lemma slice_replicate: "hi \<le> n \<Longrightarrow> slice lo hi (replicate n x) = replicate (hi - lo) x"
  by (cases "lo \<le> hi") (simp_all add: slice_def min_def)

lemma slice_list_update:
  "i < length xs \<Longrightarrow> slice lo hi (xs[i := b]) =
     (if lo \<le> i \<and> i < hi then (slice lo hi xs)[i - lo := b] else slice lo hi xs)"
  by (rule nth_equalityI) (auto simp: slice_def nth_list_update)

lemma nth_slice: "lo + i < hi \<Longrightarrow> hi \<le> length xs \<Longrightarrow> slice lo hi xs ! i = xs ! (lo + i)"
  by (simp add: slice_def)

lemma length_put_at: "i + length bs \<le> length xs \<Longrightarrow> length (put_at i bs xs) = length xs"
  by (simp add: put_at_def)

lemma slice_put_at_same:
  "i + length bs \<le> length xs \<Longrightarrow> j = i + length bs \<Longrightarrow> slice i j (put_at i bs xs) = bs"
  by (simp add: slice_def put_at_def)

lemma slice_put_at_before:
  "j \<le> i \<Longrightarrow> i \<le> length xs \<Longrightarrow> slice k j (put_at i bs xs) = slice k j xs"
  by (cases "k \<le> j") (simp_all add: slice_def put_at_def drop_take min_def)

lemma slice_put_at_after:
  "i + length bs \<le> k \<Longrightarrow> i + length bs \<le> length xs \<Longrightarrow> slice k j (put_at i bs xs) = slice k j xs"
proof -
  assume a: "i + length bs \<le> k" and b: "i + length bs \<le> length xs"
  have "drop k (put_at i bs xs) = drop k xs"
    using a b by (simp add: put_at_def min_def)
  then show ?thesis by (simp add: slice_def)
qed

lemmas [buffer_simps] =
  length_put_at slice_put_at_same slice_put_at_before slice_put_at_after slice_replicate

text \<open>A zeroed buffer that is filled from the front is what was written, then the zeros left.\<close>

definition buf :: "bytes \<Rightarrow> nat \<Rightarrow> bytes" where
  "buf xs n = xs @ replicate n 0"

lemma put_at_buf:
  "length xs \<le> i \<Longrightarrow> i - length xs + length bs \<le> n \<Longrightarrow>
     put_at i bs (buf xs n) =
       buf (xs @ replicate (i - length xs) 0 @ bs) (n - (i - length xs + length bs))"
  by (simp add: put_at_def buf_def)

lemma put_at_replicate:
  "i + length bs \<le> n \<Longrightarrow>
     put_at i bs (replicate n 0) = buf (replicate i 0 @ bs) (n - (i + length bs))"
  using put_at_buf [of "[]" i bs n] by (simp add: buf_def)

lemma slice_buf:
  "length xs \<le> k \<Longrightarrow> k \<le> length xs + n \<Longrightarrow>
     slice 0 k (buf xs n) = xs @ replicate (k - length xs) 0"
  by (simp add: slice_def buf_def)

lemma buf_0 [simp]: "buf xs 0 = xs"
  by (simp add: buf_def)

lemmas [buffer_simps] = put_at_replicate put_at_buf slice_buf

text \<open>Adjacent slices join, and a slice of a concatenation of fields is one of the fields.\<close>

lemma append_slices:
  assumes "lo \<le> mid" and "mid \<le> hi"
  shows "slice lo mid xs @ slice mid hi xs = slice lo hi xs"
proof -
  have "take (hi - lo) (drop lo xs)
      = take (mid - lo) (drop lo xs) @ take (hi - mid) (drop (mid - lo) (drop lo xs))"
    using assms take_add [of "mid - lo" "hi - mid" "drop lo xs"] by simp
  then show ?thesis
    using assms by (simp add: slice_def)
qed

lemma append_slices_append:
  "lo \<le> mid \<Longrightarrow> mid \<le> hi \<Longrightarrow> slice lo mid xs @ slice mid hi xs @ ys = slice lo hi xs @ ys"
  by (simp add: append_slices flip: append_assoc)

lemma slice_all: "length xs = n \<Longrightarrow> slice 0 n xs = xs"
  by (simp add: slice_def)

lemma slice_append_first: "length xs = n \<Longrightarrow> slice 0 n (xs @ ys) = xs"
  by (simp add: slice_def)

lemmas join_slices = append_slices append_slices_append slice_all
lemmas field_slices = slice_append_right slice_append_first slice_all

lemma list_split_at: "n \<le> length xs \<Longrightarrow> xs = slice 0 n xs @ drop n xs"
  by (simp add: slice_def)

lemma drop_eq_slice_append: "i \<le> j \<Longrightarrow> drop i xs = slice i j xs @ drop j xs"
  by (simp add: slice_def) (metis append_take_drop_id drop_drop le_add_diff_inverse2)

lemma list_all2_ex: "list_all2 P xs ys \<Longrightarrow> x \<in> set xs \<Longrightarrow> \<exists>y \<in> set ys. P x y"
  by (induction rule: list_all2_induct) auto

lemma sorted_key_unique:
  assumes "sorted (map f xs)" "distinct (map f xs)" "sorted (map f ys)" "distinct (map f ys)" "set xs = set ys"
  shows "xs = ys"
proof -
  have "map f xs = map f ys"
    using assms by (intro sorted_distinct_set_unique) auto
  then show ?thesis using assms(2,5) by (intro map_inj_on [of f xs ys]) (auto simp: distinct_map)
qed

end
