(* ===== verification/Stdlib.thy ===== *)
theory Stdlib
  imports Prelude
begin

text \<open>
  The parts of Go's standard library that the source computes with: \<open>bytes.Compare\<close>,
  \<open>hash/crc32\<close> with the Castagnoli polynomial, \<open>unicode/utf8\<close> validity and
  \<open>crypto/sha256.Sum256\<close>. All of them are executable. The lemmas give the order of big-endian
  identifiers and the error-detection property of the checksum that the format theorems rest on.
\<close>

section \<open>\<open>bytes.Compare\<close>\<close>

fun bytes_Compare :: "bytes \<Rightarrow> bytes \<Rightarrow> int" where
  "bytes_Compare [] [] = 0"
| "bytes_Compare [] (y # ys) = -1"
| "bytes_Compare (x # xs) [] = 1"
| "bytes_Compare (x # xs) (y # ys) =
     (if x < y then -1 else if y < x then 1 else bytes_Compare xs ys)"

primrec le_value :: "bytes \<Rightarrow> nat" where
  "le_value [] = 0"
| "le_value (b # bs) = unat b + 256 * le_value bs"

lemma unat_byte_less: "unat (b :: byte) < 256"
  using unsigned_less [of b] by simp

lemma le_value_bound: "le_value bs < 256 ^ length bs"
proof (induction bs)
  case Nil
  then show ?case by simp
next
  case (Cons b bs)
  have "unat b < 256" using unat_byte_less [of b] by simp
  with Cons show ?case by simp
qed

lemma unat_le_value: "unat w < 256 ^ n \<Longrightarrow> le_value (le_bytes n w) = unat w"
proof (induction n arbitrary: w)
  case 0
  then show ?case by simp
next
  case (Suc n)
  have d: "unat (drop_bit 8 w) = unat w div 256"
    unfolding unat_drop_bit_eq by (simp add: drop_bit_eq_div)
  have "unat (ucast w :: byte) = unat w mod 256"
    by (simp add: unsigned_ucast_eq take_bit_eq_mod)
  moreover have "unat (drop_bit 8 w) < 256 ^ n"
    using Suc.prems by (simp add: d less_mult_imp_div_less mult.commute)
  ultimately show ?case
    using Suc.IH [of "drop_bit 8 w"] d by simp
qed

lemma bytes_Compare_snoc:
  "length xs = length ys \<Longrightarrow>
     bytes_Compare (xs @ [a]) (ys @ [b]) =
       (if bytes_Compare xs ys = 0 then bytes_Compare [a] [b] else bytes_Compare xs ys)"
  by (induction xs ys rule: list_induct2) auto

lemma bytes_Compare_rev:
  "length xs = length ys \<Longrightarrow>
     bytes_Compare (rev xs) (rev ys) =
       (if le_value xs < le_value ys then -1 else if le_value ys < le_value xs then 1 else 0)"
proof (induction xs ys rule: list_induct2)
  case Nil
  then show ?case by simp
next
  case (Cons x xs y ys)
  have "unat x < 256" "unat y < 256"
    using unat_byte_less [of x] unat_byte_less [of y] by simp_all
  moreover have "x < y \<longleftrightarrow> unat x < unat y" "y < x \<longleftrightarrow> unat y < unat x"
    by (simp_all add: word_less_nat_alt)
  ultimately show ?case
    using Cons by (simp add: bytes_Compare_snoc)
qed

lemma bytes_Compare_be_bytes:
  fixes a b :: "'a::len word"
  assumes "LENGTH('a) \<le> 8 * n"
  shows "bytes_Compare (be_bytes n a) (be_bytes n b) = (if a < b then -1 else if b < a then 1 else 0)"
proof -
  have "unat w < 256 ^ n" for w :: "'a word"
  proof -
    have "unat w < 2 ^ LENGTH('a)" by (rule unsigned_less)
    also have "\<dots> \<le> 2 ^ (8 * n)" using assms by (rule power_increasing) simp
    also have "\<dots> = (256 :: nat) ^ n" by (simp add: power_mult)
    finally show ?thesis .
  qed
  then show ?thesis
    by (simp add: be_bytes_def bytes_Compare_rev unat_le_value word_less_nat_alt)
qed

lemma bytes_less_be_bytes:
  "bytes_Compare (id_bytes a) (id_bytes b) < 0 \<longleftrightarrow> a < b"
  by (simp add: bytes_Compare_be_bytes)

section \<open>\<open>crc32.Checksum\<close> with the Castagnoli polynomial\<close>

definition crc_bit :: "uint32 \<Rightarrow> uint32" where
  "crc_bit c = (if bit c 0 then drop_bit 1 c XOR 0x82F63B78 else drop_bit 1 c)"

definition crc_byte :: "uint32 \<Rightarrow> byte \<Rightarrow> uint32" where
  "crc_byte c b = (crc_bit ^^ 8) (c XOR ucast b)"

definition crc32_Checksum :: "bytes \<Rightarrow> uint32" where
  "crc32_Checksum data = NOT (foldl crc_byte (NOT 0) data)"

lemma word_xor_right_inject: "a XOR c = b XOR c \<longleftrightarrow> a = b" for a b c :: "'a::len word"
proof
  assume "a XOR c = b XOR c"
  then have "(a XOR c) XOR c = (b XOR c) XOR c" by simp
  then show "a = b" by (simp add: xor.assoc)
qed simp

lemma word_xor_left_inject: "c XOR a = c XOR b \<longleftrightarrow> a = b" for a b c :: "'a::len word"
  by (metis xor.commute word_xor_right_inject)

lemma bit_crc_bit_31: "bit (crc_bit c) 31 = bit c 0"
  by (auto simp: crc_bit_def bit_simps dest: bit_imp_le_length)

lemma inj_crc_bit: "inj crc_bit"
proof (rule injI)
  fix c d
  assume eq: "crc_bit c = crc_bit d"
  then have b0: "bit c 0 = bit d 0"
    by (metis bit_crc_bit_31)
  with eq have "drop_bit 1 c = drop_bit 1 d"
    by (auto simp: crc_bit_def word_xor_right_inject split: if_splits)
  then have "bit (drop_bit 1 c) n = bit (drop_bit 1 d) n" for n
    by simp
  then have "bit c (Suc n) = bit d (Suc n)" for n
    by (simp add: bit_simps)
  with b0 show "c = d"
    by (intro bit_word_eqI) (metis not0_implies_Suc)
qed

lemma inj_crc_bit_pow: "inj (crc_bit ^^ n)"
  using inj_crc_bit by (rule inj_fn)

lemma crc_byte_state_inject: "crc_byte c b = crc_byte d b \<longleftrightarrow> c = d"
  by (simp only: crc_byte_def inj_eq [OF inj_crc_bit_pow] word_xor_right_inject)

lemma ucast_byte_inject: "(ucast a :: uint32) = ucast b \<longleftrightarrow> a = b" for a b :: byte
proof
  assume "(ucast a :: uint32) = ucast b"
  then have "unat (ucast a :: uint32) = unat (ucast b :: uint32)" by simp
  moreover have "take_bit 32 (unat x) = unat x" for x :: byte
    using unat_byte_less [of x] by (simp add: take_bit_nat_eq_self)
  ultimately show "a = b" by (simp add: unsigned_ucast_eq word_unat_eq_iff)
qed simp

lemma crc_byte_byte_inject: "crc_byte c a = crc_byte c b \<longleftrightarrow> a = b"
  by (simp only: crc_byte_def inj_eq [OF inj_crc_bit_pow] word_xor_left_inject ucast_byte_inject)

lemma crc_foldl_inject: "foldl crc_byte c bs = foldl crc_byte d bs \<longleftrightarrow> c = d"
  by (induction bs arbitrary: c d) (auto simp: crc_byte_state_inject)

text \<open>Two messages that differ in exactly one byte have different checksums.\<close>

lemma crc32_Checksum_byte_inject:
  "crc32_Checksum (xs @ a # ys) = crc32_Checksum (xs @ b # ys) \<longleftrightarrow> a = b"
  by (auto simp: crc32_Checksum_def crc_foldl_inject crc_byte_byte_inject)

lemma crc32_Checksum_update_inject:
  assumes "i < length xs"
  shows "crc32_Checksum (xs[i := b]) = crc32_Checksum xs \<longleftrightarrow> b = xs ! i"
  using crc32_Checksum_byte_inject [of "take i xs" b "drop (Suc i) xs" "xs ! i"] assms
  by (simp add: id_take_nth_drop [symmetric] upd_conv_take_nth_drop)

section \<open>\<open>utf8.Valid\<close>\<close>

definition utf8_cont :: "byte \<Rightarrow> byte \<Rightarrow> byte \<Rightarrow> bool" where
  "utf8_cont lo hi b \<longleftrightarrow> lo \<le> b \<and> b \<le> hi"

fun utf8_Valid :: "bytes \<Rightarrow> bool" where
  "utf8_Valid [] = True"
| "utf8_Valid (b # bs) =
     (if b < 0x80 then utf8_Valid bs
      else if 0xC2 \<le> b \<and> b \<le> 0xDF then
        (case bs of b1 # r \<Rightarrow> utf8_cont 0x80 0xBF b1 \<and> utf8_Valid r | _ \<Rightarrow> False)
      else if 0xE0 \<le> b \<and> b \<le> 0xEF then
        (case bs of b1 # b2 # r \<Rightarrow>
           utf8_cont (if b = 0xE0 then 0xA0 else 0x80) (if b = 0xED then 0x9F else 0xBF) b1 \<and>
           utf8_cont 0x80 0xBF b2 \<and> utf8_Valid r
         | _ \<Rightarrow> False)
      else if 0xF0 \<le> b \<and> b \<le> 0xF4 then
        (case bs of b1 # b2 # b3 # r \<Rightarrow>
           utf8_cont (if b = 0xF0 then 0x90 else 0x80) (if b = 0xF4 then 0x8F else 0xBF) b1 \<and>
           utf8_cont 0x80 0xBF b2 \<and> utf8_cont 0x80 0xBF b3 \<and> utf8_Valid r
         | _ \<Rightarrow> False)
      else False)"

lemma utf8_Valid_ascii: "list_all (\<lambda>b. b < 0x80) bs \<Longrightarrow> utf8_Valid bs"
  by (induction bs) auto

section \<open>\<open>sha256.Sum256\<close>\<close>

text \<open>
  The constants of SHA-256 are computed as the standard defines them: the first 32 bits of the
  fractional parts of the cube roots of the first 64 primes (the round constants) and of the square
  roots of the first 8 primes (the initial state). \<open>iroot k b n\<close> is the integer \<open>k\<close>-th root of
  \<open>n\<close>, found bit by bit from bit \<open>b - 1\<close> down; a root of a prime below 512 times \<open>2 ^ 32\<close> is
  below \<open>2 ^ 37\<close>.
\<close>

primrec iroot_from :: "nat \<Rightarrow> nat \<Rightarrow> int \<Rightarrow> int \<Rightarrow> int" where
  "iroot_from k 0 n acc = acc"
| "iroot_from k (Suc b) n acc =
     iroot_from k b n (if (acc + 2 ^ b) ^ k \<le> n then acc + 2 ^ b else acc)"

definition iroot :: "nat \<Rightarrow> nat \<Rightarrow> int \<Rightarrow> int" where
  "iroot k b n = iroot_from k b n 0"

definition is_prime :: "nat \<Rightarrow> bool" where
  "is_prime n \<longleftrightarrow> 1 < n \<and> list_all (\<lambda>d. n mod d \<noteq> 0) [2..<n]"

definition root_fraction :: "nat \<Rightarrow> nat \<Rightarrow> uint32" where
  "root_fraction k p = of_int (iroot k 37 (int p * 2 ^ (32 * k)))"

definition sha256_primes :: "nat list" where
  "sha256_primes = filter is_prime [2..<312]"

definition sha256_K :: "uint32 list" where
  "sha256_K = map (root_fraction 3) sha256_primes"

definition sha256_init :: "uint32 list" where
  "sha256_init = map (root_fraction 2) (take 8 sha256_primes)"

lemma iroot_from_bounds:
  assumes "acc ^ k \<le> n" and "n < (acc + 2 ^ b) ^ k"
  shows "iroot_from k b n acc ^ k \<le> n \<and> n < (iroot_from k b n acc + 1) ^ k"
  using assms
proof (induction b arbitrary: acc)
  case 0
  then show ?case by simp
next
  case (Suc b)
  have split: "acc + 2 ^ Suc b = (acc + 2 ^ b) + 2 ^ b" by simp
  show ?case
  proof (cases "(acc + 2 ^ b) ^ k \<le> n")
    case True
    with Suc.IH [of "acc + 2 ^ b"] Suc.prems(2) show ?thesis unfolding split by simp
  next
    case False
    with Suc.IH [of acc] Suc.prems(1) show ?thesis by simp
  qed
qed

text \<open>\<open>iroot\<close> is the floor of the root: the constants are what the standard says.\<close>

lemma iroot_floor:
  "0 < k \<Longrightarrow> 0 \<le> n \<Longrightarrow> n < (2 ^ b) ^ k \<Longrightarrow> iroot k b n ^ k \<le> n \<and> n < (iroot k b n + 1) ^ k"
  unfolding iroot_def by (rule iroot_from_bounds) (simp_all add: power_0_left)

definition sha256_pad :: "bytes \<Rightarrow> bytes" where
  "sha256_pad msg =
     msg @ 0x80 # replicate ((119 - length msg mod 64) mod 64) 0
       @ be_bytes 8 (of_nat (8 * length msg) :: uint64)"

fun sha256_words :: "bytes \<Rightarrow> uint32 list" where
  "sha256_words (a # b # c # d # r) = be_word [a, b, c, d] # sha256_words r"
| "sha256_words _ = []"

definition sha256_next :: "uint32 list \<Rightarrow> uint32" where
  "sha256_next w =
     (let n = length w; x = w ! (n - 15); y = w ! (n - 2)
      in w ! (n - 16) + (word_rotr 7 x XOR word_rotr 18 x XOR drop_bit 3 x)
         + w ! (n - 7) + (word_rotr 17 y XOR word_rotr 19 y XOR drop_bit 10 y))"

primrec sha256_extend :: "nat \<Rightarrow> uint32 list \<Rightarrow> uint32 list" where
  "sha256_extend 0 w = w"
| "sha256_extend (Suc n) w = sha256_extend n (w @ [sha256_next w])"

fun sha256_round :: "uint32 list \<Rightarrow> uint32 \<times> uint32 \<Rightarrow> uint32 list" where
  "sha256_round [a, b, c, d, e, f, g, h] (k, w) =
     (let s1 = word_rotr 6 e XOR word_rotr 11 e XOR word_rotr 25 e;
          ch = (e AND f) XOR (NOT e AND g);
          t1 = h + s1 + ch + k + w;
          s0 = word_rotr 2 a XOR word_rotr 13 a XOR word_rotr 22 a;
          mj = (a AND b) XOR (a AND c) XOR (b AND c)
      in [t1 + (s0 + mj), a, b, c, d + t1, e, f, g])"
| "sha256_round hs _ = hs"

definition sha256_block :: "uint32 list \<Rightarrow> bytes \<Rightarrow> uint32 list" where
  "sha256_block hs blk =
     map2 (+) hs (foldl sha256_round hs (zip sha256_K (sha256_extend 48 (sha256_words blk))))"

function sha256_blocks :: "uint32 list \<Rightarrow> bytes \<Rightarrow> uint32 list" where
  "sha256_blocks hs data =
     (if length data < 64 then hs else sha256_blocks (sha256_block hs (take 64 data)) (drop 64 data))"
  by pat_completeness auto
termination
  by (relation "measure (\<lambda>(hs, data). length data)") auto

declare sha256_blocks.simps [simp del]

definition sha256_Sum256 :: "bytes \<Rightarrow> hash32" where
  "sha256_Sum256 msg = be_word (concat (map (be_bytes 4) (sha256_blocks sha256_init (sha256_pad msg))))"

end
