(* ===== verification/Api_Types.thy ===== *)
theory Api_Types
  imports Stdlib
begin

text \<open>
  The public data types of \<open>src/api/types.go\<close>. Fields carry a prefix per struct. The nil and empty
  values of \<open>Key\<close>, \<open>Value\<close> and a header's \<open>Value\<close> differ on disk, so those fields are options; a
  nil and an empty \<open>Headers\<close> slice encode and decode alike and are one list. The options types are
  in the theories that use them.
\<close>

type_synonym TopicID = id16
type_synonym SegmentID = id16

definition ClusterMetadataTopicID :: TopicID where
  "ClusterMetadataTopicID = bytes_id [0, 0, 0, 0, 0, 0, 0, 0, 0, 0, 0, 0, 0, 0, 0, 1]"

definition ConsumerOffsetsTopicID :: TopicID where
  "ConsumerOffsetsTopicID = bytes_id [0, 0, 0, 0, 0, 0, 0, 0, 0, 0, 0, 0, 0, 0, 0, 2]"

definition IsZero :: "id16 \<Rightarrow> bool" where [simp]:
  "IsZero i \<longleftrightarrow> i = 0"

text \<open>\<open>hex.EncodeToString\<close>, which names topic directories and segment files.\<close>

definition hex_digit :: "byte \<Rightarrow> byte" where
  "hex_digit d = (if d < 10 then 0x30 + d else 0x61 + (d - 10))"

definition String_id :: "id16 \<Rightarrow> bytes" where
  "String_id i = concat (map (\<lambda>b. [hex_digit (drop_bit 4 b), hex_digit (b AND 0xF)]) (id_bytes i))"

record Header =
  hName :: bytes
  hValue :: "bytes option"

record AppendRequest =
  aTopic :: TopicID
  aPartition :: uint32
  aKey :: "bytes option"
  aValue :: "bytes option"
  aHeaders :: "Header list"

record Record =
  rTopic :: TopicID
  rPartition :: uint32
  rOffset :: uint64
  rTimestamp :: uint64
  rKey :: "bytes option"
  rValue :: "bytes option"
  rHeaders :: "Header list"

record RecordBatch =
  bTopic :: TopicID
  bPartition :: uint32
  bBaseOffset :: uint64
  bRecords :: "Record list"

lemma reserved_topic_ids [simp]:
  "ClusterMetadataTopicID = 1"
  "ConsumerOffsetsTopicID = 2"
  by (simp_all add: ClusterMetadataTopicID_def ConsumerOffsetsTopicID_def be_word_def)

end
