(* ===== verification/Format.thy ===== *)
theory Format
  imports Api_Types
begin

text \<open>
  \<open>src/storage/format.go\<close>: the constants of the v1 format, the checksum, and the 72-byte segment
  header with its decoder, whose checks stand in the source's order.
\<close>

section \<open>Constants\<close>

definition SegmentMagic :: bytes where
  "SegmentMagic = [0x49, 0x45, 0x4C, 0x53, 0x45, 0x47, 0x30, 0x30]"

definition BatchMagic :: bytes where
  "BatchMagic = [0x49, 0x45, 0x4C, 0x42]"

definition FormatVersion :: uint16 where [simp]: "FormatVersion = 1"
definition SegmentHeaderBytes :: uint16 where [simp]: "SegmentHeaderBytes = 72"
definition BatchHeaderBytes :: uint16 where [simp]: "BatchHeaderBytes = 48"
definition BatchTrailerBytes :: nat where [simp]: "BatchTrailerBytes = 4"
definition RecordPrefixBytes :: nat where [simp]: "RecordPrefixBytes = 28"
definition MaxBatchBytes :: uint32 where [simp]: "MaxBatchBytes = 67108864"
definition MaxRecordBytes :: uint32 where [simp]: "MaxRecordBytes = 16777216"
definition MaxBatchRecords :: uint32 where [simp]: "MaxBatchRecords = 65536"
definition MaxRecordHeaders :: uint32 where [simp]: "MaxRecordHeaders = 1024"
definition MaxHeaderNameBytes :: uint32 where [simp]: "MaxHeaderNameBytes = 65535"
definition NullBytesLength :: uint32 where [simp]: "NullBytesLength = 0xFFFFFFFF"
definition maxOffset :: uint64 where [simp]: "maxOffset = 0x7FFFFFFFFFFFFFFF"
definition MaxInt32 :: uint32 where [simp]: "MaxInt32 = 0x7FFFFFFF"
definition MinInt64 :: uint64 where [simp]: "MinInt64 = 0x8000000000000000"

datatype EventType =
    EventTopicCreated | EventPartitionLogStartAdvanced | EventGroupCreated
  | EventLocalAssignmentChanged | EventOffsetCommitted | EventStoreInitialized

primrec event_code :: "EventType \<Rightarrow> uint16" where
  "event_code EventTopicCreated = 1"
| "event_code EventPartitionLogStartAdvanced = 2"
| "event_code EventGroupCreated = 3"
| "event_code EventLocalAssignmentChanged = 4"
| "event_code EventOffsetCommitted = 5"
| "event_code EventStoreInitialized = 6"

definition CRC32C :: "bytes \<Rightarrow> uint32" where
  "CRC32C data = crc32_Checksum data"

definition validHeaderName :: "bytes \<Rightarrow> bool" where
  "validHeaderName name \<longleftrightarrow> utf8_Valid name \<and> length name \<le> unat MaxHeaderNameBytes"

definition validOffsetRange :: "uint64 \<Rightarrow> uint32 \<Rightarrow> bool" where
  "validOffsetRange base count \<longleftrightarrow>
     base \<le> maxOffset \<and> (ucast count :: uint64) > 0 \<and> base + ucast count \<le> maxOffset"

section \<open>Segment headers\<close>

record SegmentHeader =
  sTopic :: TopicID
  sPartition :: uint32
  sBaseOffset :: uint64
  sID :: SegmentID

definition EncodeSegmentHeader :: "SegmentHeader \<Rightarrow> bytes result" where
  "EncodeSegmentHeader header =
     (if IsZero (sTopic header) \<or> IsZero (sID header) then Inl (invalidArgument ErrInvalidSegment)
      else if sPartition header > MaxInt32 \<or> sBaseOffset header > maxOffset
      then Inl (invalidArgument ErrInvalidSegment)
      else
        let data = replicate (unat SegmentHeaderBytes) 0;
            data = put_at 0 SegmentMagic data;
            data = put_at 8 (PutUint16 FormatVersion) data;
            data = put_at 10 (PutUint16 SegmentHeaderBytes) data;
            data = put_at 16 (id_bytes (sTopic header)) data;
            data = put_at 32 (PutUint32 (sPartition header)) data;
            data = put_at 36 (PutUint16 FormatVersion) data;
            data = put_at 40 (PutUint64 (sBaseOffset header)) data;
            data = put_at 48 (id_bytes (sID header)) data
        in Inr (put_at 68 (PutUint32 (CRC32C (slice 0 68 data))) data))"

definition DecodeSegmentHeader :: "bytes \<Rightarrow> TopicID \<Rightarrow> uint32 \<Rightarrow> SegmentHeader result" where
  "DecodeSegmentHeader data expectedTopic expectedPartition =
     (if length data < unat SegmentHeaderBytes then Inl (corrupt ErrInvalidSegment)
      else if slice 0 8 data \<noteq> SegmentMagic then Inl (corrupt ErrInvalidSegment)
      else if Uint16 (slice 10 12 data) \<noteq> SegmentHeaderBytes then Inl (corrupt ErrInvalidSegment)
      else if Uint32 (slice 68 72 data) \<noteq> CRC32C (slice 0 68 data)
      then Inl (corrupt ErrInvalidSegment)
      else if Uint16 (slice 8 10 data) \<noteq> FormatVersion \<or> Uint16 (slice 36 38 data) \<noteq> FormatVersion
      then Inl unsupported
      else if Uint32 (slice 12 16 data) \<noteq> 0 \<or> Uint16 (slice 38 40 data) \<noteq> 0
           \<or> Uint32 (slice 64 68 data) \<noteq> 0
      then Inl (corrupt ErrInvalidSegment)
      else
        let header = \<lparr>sTopic = bytes_id (slice 16 32 data), sPartition = Uint32 (slice 32 36 data),
                      sBaseOffset = Uint64 (slice 40 48 data), sID = bytes_id (slice 48 64 data)\<rparr>
        in if IsZero (sTopic header) \<or> IsZero (sID header) \<or> sPartition header > MaxInt32
              \<or> sBaseOffset header > maxOffset
           then Inl (corrupt ErrInvalidSegment)
           else if \<not> IsZero expectedTopic \<and> sTopic header \<noteq> expectedTopic
           then Inl (corrupt ErrInvalidSegment)
           else if sPartition header \<noteq> expectedPartition then Inl (corrupt ErrInvalidSegment)
           else Inr header)"

section \<open>Lemmas\<close>

lemma length_SegmentMagic [simp]: "length SegmentMagic = 8"
  by (simp add: SegmentMagic_def)

lemma length_BatchMagic [simp]: "length BatchMagic = 4"
  by (simp add: BatchMagic_def)

lemma event_code_inject [simp]: "event_code a = event_code b \<longleftrightarrow> a = b"
  by (cases a; cases b) simp_all

lemma validOffsetRange_unat:
  "validOffsetRange base count \<longleftrightarrow>
     0 < unat count \<and> unat base + unat count \<le> 0x7FFFFFFFFFFFFFFF"
  using unat_uint32_less [of count] unat_uint64_less [of base]
  by (auto simp: validOffsetRange_def word_le_nat_alt word_less_nat_alt unat_word_ariths)

definition valid_header :: "SegmentHeader \<Rightarrow> bool" where
  "valid_header h \<longleftrightarrow> sTopic h \<noteq> 0 \<and> sID h \<noteq> 0 \<and> sPartition h \<le> MaxInt32 \<and> sBaseOffset h \<le> maxOffset"

lemma EncodeSegmentHeader_Inr_iff:
  "(\<exists>data. EncodeSegmentHeader h = Inr data) \<longleftrightarrow> valid_header h"
  by (auto simp: EncodeSegmentHeader_def valid_header_def Let_def)

lemma length_EncodeSegmentHeader:
  "EncodeSegmentHeader h = Inr data \<Longrightarrow> length data = 72"
  by (auto simp: EncodeSegmentHeader_def Let_def buffer_simps split: if_splits)

lemma DecodeSegmentHeader_valid:
  "DecodeSegmentHeader data t p = Inr h \<Longrightarrow>
     valid_header h \<and> sPartition h = p \<and> (t \<noteq> 0 \<longrightarrow> sTopic h = t)"
  by (auto simp: DecodeSegmentHeader_def valid_header_def Let_def split: if_splits)

text \<open>The encoded header as the concatenation of its fields.\<close>

definition header_fields :: "SegmentHeader \<Rightarrow> bytes" where
  "header_fields h =
     SegmentMagic @ PutUint16 FormatVersion @ PutUint16 SegmentHeaderBytes @ replicate 4 0
     @ id_bytes (sTopic h) @ PutUint32 (sPartition h) @ PutUint16 FormatVersion @ replicate 2 0
     @ PutUint64 (sBaseOffset h) @ id_bytes (sID h) @ replicate 4 0"

lemma length_header_fields [simp]: "length (header_fields h) = 68"
  by (simp add: header_fields_def)

lemma EncodeSegmentHeader_fields:
  "EncodeSegmentHeader h =
     (if valid_header h then Inr (header_fields h @ PutUint32 (CRC32C (header_fields h)))
      else Inl (invalidArgument ErrInvalidSegment))"
proof (cases "valid_header h")
  case True
  then show ?thesis
    by (simp add: valid_header_def EncodeSegmentHeader_def Let_def put_at_replicate put_at_buf
        slice_buf header_fields_def not_less)
next
  case False
  then show ?thesis
    by (auto simp: valid_header_def EncodeSegmentHeader_def not_le)
qed

lemma slices_of_header:
  assumes "length data = 72"
  shows "slice 0 8 data @ slice 8 10 data @ slice 10 12 data @ slice 12 16 data
    @ slice 16 32 data @ slice 32 36 data @ slice 36 38 data @ slice 38 40 data
    @ slice 40 48 data @ slice 48 64 data @ slice 64 68 data = slice 0 68 data"
  using assms by (simp add: join_slices)

lemma DecodeSegmentHeader_Encode:
  assumes "length data = 72" and "DecodeSegmentHeader data t p = Inr h"
  shows "EncodeSegmentHeader h = Inr data"
proof -
  have v: "valid_header h" using assms DecodeSegmentHeader_valid by blast
  have f: "slice 0 8 data = SegmentMagic" "slice 8 10 data = PutUint16 1"
    "slice 10 12 data = PutUint16 72" "slice 12 16 data = replicate 4 0"
    "slice 16 32 data = id_bytes (sTopic h)" "slice 32 36 data = PutUint32 (sPartition h)"
    "slice 36 38 data = PutUint16 1" "slice 38 40 data = replicate 2 0"
    "slice 40 48 data = PutUint64 (sBaseOffset h)" "slice 48 64 data = id_bytes (sID h)"
    "slice 64 68 data = replicate 4 0"
    and c: "slice 68 72 data = PutUint32 (CRC32C (slice 0 68 data))"
    using assms by (auto simp: DecodeSegmentHeader_def Let_def word_of_bytes_eq_iff le_bytes_zero
        split: if_splits)
  have h: "header_fields h = slice 0 68 data"
    unfolding slices_of_header [OF assms(1), symmetric] f header_fields_def by simp
  have "data = slice 0 68 data @ slice 68 72 data" using assms by (simp add: join_slices)
  then show ?thesis using v c h by (simp add: EncodeSegmentHeader_fields)
qed

lemma DecodeSegmentHeader_fields:
  assumes "valid_header h" and "t = 0 \<or> t = sTopic h"
  shows "DecodeSegmentHeader (header_fields h @ PutUint32 (CRC32C (header_fields h)) @ r) t
    (sPartition h) = Inr h"
proof -
  let ?d = "header_fields h @ PutUint32 (CRC32C (header_fields h)) @ r"
  have "slice 0 8 ?d = SegmentMagic" "slice 8 10 ?d = PutUint16 1"
    "slice 10 12 ?d = PutUint16 72" "slice 12 16 ?d = replicate 4 0"
    "slice 16 32 ?d = id_bytes (sTopic h)" "slice 32 36 ?d = PutUint32 (sPartition h)"
    "slice 36 38 ?d = PutUint16 1" "slice 38 40 ?d = replicate 2 0"
    "slice 40 48 ?d = PutUint64 (sBaseOffset h)" "slice 48 64 ?d = id_bytes (sID h)"
    "slice 64 68 ?d = replicate 4 0"
    by (simp_all add: header_fields_def field_slices)
  moreover have "slice 0 68 ?d = header_fields h" 
     "slice 68 72 ?d = PutUint32 (CRC32C (header_fields h))"
    by (simp_all add: field_slices)
  ultimately show ?thesis using assms
    by (auto simp: DecodeSegmentHeader_def Let_def valid_header_def word_of_bytes_eq_iff
        le_bytes_zero simp flip: not_less)
qed

text \<open>
  A checksum field of four bytes right after the bytes it covers does not survive the change of one
  byte, whether that byte is covered or is part of the field.
\<close>

lemma checksum_update_mismatch:
  assumes "Uint32 (slice n (n + 4) data) = CRC32C (slice 0 n data)"
    and "n + 4 \<le> length data" and "i < n + 4" and "b \<noteq> data ! i"
  shows "Uint32 (slice n (n + 4) (data[i := b])) \<noteq> CRC32C (slice 0 n (data[i := b]))"
proof (cases "i < n")
  case True
  then have "slice n (n + 4) (data[i := b]) = slice n (n + 4) data"
    and "slice 0 n (data[i := b]) = (slice 0 n data)[i := b]"
    using assms by (simp_all add: slice_list_update)
  moreover have "CRC32C ((slice 0 n data)[i := b]) \<noteq> CRC32C (slice 0 n data)"
    using True assms nth_slice [of 0 i n data]
    by (simp add: CRC32C_def crc32_Checksum_update_inject)
  ultimately show ?thesis using assms by simp
next
  case False
  then have eq: "slice 0 n (data[i := b]) = slice 0 n data"
    and upd: "slice n (n + 4) (data[i := b]) = (slice n (n + 4) data)[i - n := b]"
    using assms by (simp_all add: slice_list_update)
  have "slice n (n + 4) data ! (i - n) = data ! i"
    using False assms nth_slice [of n "i - n" "n + 4" data] by simp
  then have "(slice n (n + 4) data)[i - n := b] \<noteq> slice n (n + 4) data"
    using False assms by (metis (no_types, lifting) add_diff_cancel_left' diff_less_mono length_slice
        min.absorb1 add_le_imp_le_diff add.commute not_less nth_list_update_eq)
  then show ?thesis
    using assms by (simp add: eq upd word_of_bytes_eq_iff)
qed

section \<open>Properties\<close>

text \<open>C22. On 72 bytes the segment-header decoder accepts exactly what the encoder produces: it
  returns a header iff the encoder turns that header into those bytes and the header has the
  expected partition and, when a topic is expected, the expected topic. So the two are inverse to
  each other in both directions and the encoding is canonical.\<close>

theorem DecodeSegmentHeader_exact:
  assumes "length data = 72"
  shows "DecodeSegmentHeader data t p = Inr h \<longleftrightarrow>
    EncodeSegmentHeader h = Inr data \<and> sPartition h = p \<and> (t = 0 \<or> sTopic h = t)"
proof
  assume "DecodeSegmentHeader data t p = Inr h"
  then show "EncodeSegmentHeader h = Inr data \<and> sPartition h = p \<and> (t = 0 \<or> sTopic h = t)"
    using assms DecodeSegmentHeader_Encode DecodeSegmentHeader_valid by blast
next
  assume "EncodeSegmentHeader h = Inr data \<and> sPartition h = p \<and> (t = 0 \<or> sTopic h = t)"
  then show "DecodeSegmentHeader data t p = Inr h"
    using DecodeSegmentHeader_fields [of h t "[]"]
    by (auto simp: EncodeSegmentHeader_fields split: if_splits)
qed

theorem DecodeSegmentHeader_exact_witness:
  "\<exists>data. length data = 72
     \<and> EncodeSegmentHeader \<lparr>sTopic = 7, sPartition = 3, sBaseOffset = 100, sID = 9\<rparr> = Inr data
     \<and> DecodeSegmentHeader data 7 3 = Inr \<lparr>sTopic = 7, sPartition = 3, sBaseOffset = 100, sID = 9\<rparr>"
proof -
  let ?h = "\<lparr>sTopic = 7, sPartition = 3, sBaseOffset = 100, sID = 9\<rparr>"
  have "valid_header ?h" by (simp add: valid_header_def)
  then obtain data where e: "EncodeSegmentHeader ?h = Inr data"
    using EncodeSegmentHeader_Inr_iff by blast
  with DecodeSegmentHeader_exact [OF length_EncodeSegmentHeader [OF e], of 7 3 ?h]
  show ?thesis using length_EncodeSegmentHeader by auto
qed

text \<open>C23. Changing any one byte of an accepted segment header makes the decoder report
  corruption, whatever identity it expects.\<close>

theorem DecodeSegmentHeader_detects_byte:
  assumes "DecodeSegmentHeader data t p = Inr h" and "i < 72" and "b \<noteq> data ! i"
  shows "DecodeSegmentHeader (data[i := b]) t' p' = Inl (corrupt ErrInvalidSegment)"
proof -
  have "72 \<le> length data" and "Uint32 (slice 68 72 data) = CRC32C (slice 0 68 data)"
    using assms(1) by (auto simp: DecodeSegmentHeader_def split: if_splits)
  then have "Uint32 (slice 68 72 (data[i := b])) \<noteq> CRC32C (slice 0 68 (data[i := b]))"
    using checksum_update_mismatch [of 68 data i b] assms by simp
  then show ?thesis by (simp add: DecodeSegmentHeader_def)
qed

theorem DecodeSegmentHeader_detects_byte_witness:
  "\<exists>data. DecodeSegmentHeader data 7 3 = Inr \<lparr>sTopic = 7, sPartition = 3, sBaseOffset = 0, sID = 9\<rparr>
     \<and> DecodeSegmentHeader (data[20 := data ! 20 + 1]) 7 3 = Inl (corrupt ErrInvalidSegment)"
proof -
  let ?h = "\<lparr>sTopic = 7, sPartition = 3, sBaseOffset = 0, sID = 9\<rparr>"
  have "valid_header ?h" by (simp add: valid_header_def)
  then have "DecodeSegmentHeader (header_fields ?h @ PutUint32 (CRC32C (header_fields ?h)) @ []) 7 3
      = Inr ?h"
    using DecodeSegmentHeader_fields [of ?h 7 "[]"] by simp
  then show ?thesis
    using DecodeSegmentHeader_detects_byte [where i = 20] by force
qed

end
