(* ===== verification/Cursors.thy ===== *)
theory Cursors
  imports Prelude
begin

text \<open>
  Sequential decoding. The source reads fields through two cursor types, \<open>cursor\<close> of
  \<open>src/storage/codec.go\<close> and \<open>eventCursor\<close> of \<open>src/storage/events.go\<close>; each is a slice and a
  position. The locale \<open>byte_cursor\<close> is what decoders rely on: the bytes still to be read and the
  cursor moved forward. Inside it, \<open>decodes f enc ok\<close> says that the reader \<open>f\<close> succeeds exactly on
  the encodings of valid values and consumes exactly the encoding; the lemmas compose such readers.
\<close>

text \<open>The source's loop \<open>for index := ...; index < count; index++\<close> around a reader.\<close>

primrec readN ::
  "(nat \<Rightarrow> 'c \<Rightarrow> ('v \<times> 'c) result) \<Rightarrow> nat \<Rightarrow> nat \<Rightarrow> 'c \<Rightarrow> ('v list \<times> 'c) result" where
  "readN f index 0 c = Inr ([], c)"
| "readN f index (Suc n) c =
     andThen (f index c) (\<lambda>(v, c).
     andThen (readN f (Suc index) n c) (\<lambda>(vs, c). Inr (v # vs, c)))"

text \<open>The encodings of a list whose elements may depend on their index.\<close>

primrec encodings :: "(nat \<Rightarrow> 'v \<Rightarrow> bytes) \<Rightarrow> nat \<Rightarrow> 'v list \<Rightarrow> bytes" where
  "encodings enc index [] = []"
| "encodings enc index (v # vs) = enc index v @ encodings enc (Suc index) vs"

primrec all_index :: "(nat \<Rightarrow> 'v \<Rightarrow> bool) \<Rightarrow> nat \<Rightarrow> 'v list \<Rightarrow> bool" where
  "all_index ok index [] \<longleftrightarrow> True"
| "all_index ok index (v # vs) \<longleftrightarrow> ok index v \<and> all_index ok (Suc index) vs"

lemma all_index_const [simp]: "all_index (\<lambda>_. ok) index vs \<longleftrightarrow> list_all ok vs"
  by (induction vs arbitrary: index) auto

lemma encodings_const: "encodings (\<lambda>_. enc) index vs = concat (map enc vs)"
  by (induction vs arbitrary: index) auto

lemma all_index_nth: "all_index ok index vs \<longleftrightarrow> (\<forall>i < length vs. ok (index + i) (vs ! i))"
proof (induction vs arbitrary: index)
  case Nil
  then show ?case by simp
next
  case (Cons v vs)
  then show ?case by (simp add: All_less_Suc2)
qed

locale byte_cursor =
  fixes rest :: "'c \<Rightarrow> bytes"
    and advance :: "nat \<Rightarrow> 'c \<Rightarrow> 'c"
  assumes rest_advance: "rest (advance n c) = drop n (rest c)"
    and advance_add: "advance n (advance m c) = advance (m + n) c"
    and advance_0: "advance 0 c = c"
begin

definition decodes :: "('c \<Rightarrow> ('v \<times> 'c) result) \<Rightarrow> ('v \<Rightarrow> bytes) \<Rightarrow> ('v \<Rightarrow> bool) \<Rightarrow> bool" where
  "decodes f enc ok \<longleftrightarrow>
     (\<forall>c v c'. f c = Inr (v, c') \<longleftrightarrow>
        ok v \<and> (\<exists>r. rest c = enc v @ r) \<and> c' = advance (length (enc v)) c)"

lemma decodesI:
  assumes "\<And>c v c'. f c = Inr (v, c') \<Longrightarrow>
      ok v \<and> (\<exists>r. rest c = enc v @ r) \<and> c' = advance (length (enc v)) c"
    and "\<And>c v r. ok v \<Longrightarrow> rest c = enc v @ r \<Longrightarrow> f c = Inr (v, advance (length (enc v)) c)"
  shows "decodes f enc ok"
  using assms unfolding decodes_def by blast

lemma decodesD:
  assumes "decodes f enc ok"
  shows "f c = Inr (v, c') \<longleftrightarrow>
    ok v \<and> (\<exists>r. rest c = enc v @ r) \<and> c' = advance (length (enc v)) c"
  using assms unfolding decodes_def by blast

lemma decodes_forward:
  assumes "decodes f enc ok" and "ok v" and "rest c = enc v @ r"
  shows "f c = Inr (v, advance (length (enc v)) c)" and "rest (advance (length (enc v)) c) = r"
  using assms by (auto simp: decodesD rest_advance)

lemma decodes_backward:
  assumes "decodes f enc ok" and "f c = Inr (v, c')"
  shows "ok v" and "rest c = enc v @ rest c'" and "c' = advance (length (enc v)) c"
  using assms by (auto simp: decodesD rest_advance)

lemma decodes_cong:
  assumes "decodes f enc ok" and "\<And>v. ok v \<longleftrightarrow> ok' v" and "\<And>v. ok' v \<Longrightarrow> enc v = enc' v"
  shows "decodes f enc' ok'"
proof -
  have "ok = ok'" using assms(2) by blast
  with assms(1,3) show ?thesis unfolding decodes_def by (metis (full_types))
qed

lemma decodes_return: "decodes (\<lambda>c. Inr (v, c)) (\<lambda>_. []) (\<lambda>w. w = v)"
  by (rule decodesI) (simp_all add: advance_0)

lemma decodes_guard:
  assumes "\<not> b \<Longrightarrow> decodes f enc ok"
  shows "decodes (\<lambda>c. if b then Inl e else f c) enc (\<lambda>w. \<not> b \<and> ok w)"
  using assms by (cases b) (simp_all add: decodes_def)

text \<open>
  Reading a field \<open>x\<close> and then the rest: \<open>proj\<close> finds the field in the final value \<open>w\<close>.
\<close>

lemma decodes_bind:
  assumes f: "decodes f ef okf" and g: "\<And>x. decodes (g x) (eg x) (okg x)"
    and proj: "\<And>x w. okf x \<Longrightarrow> okg x w \<Longrightarrow> proj w = x"
  shows "decodes (\<lambda>c. andThen (f c) (\<lambda>(x, c). g x c))
    (\<lambda>w. ef (proj w) @ eg (proj w) w) (\<lambda>w. okf (proj w) \<and> okg (proj w) w)"
proof (rule decodesI)
  fix c w c'
  assume "andThen (f c) (\<lambda>(x, c). g x c) = Inr (w, c')"
  then obtain x c1 where 1: "f c = Inr (x, c1)" and 2: "g x c1 = Inr (w, c')"
    by (auto simp: andThen_Inr_iff)
  have "proj w = x" using decodes_backward(1) [OF f 1] decodes_backward(1) [OF g 2] by (rule proj)
  then show "(okf (proj w) \<and> okg (proj w) w) \<and> (\<exists>r. rest c = (ef (proj w) @ eg (proj w) w) @ r)
      \<and> c' = advance (length (ef (proj w) @ eg (proj w) w)) c"
    using decodes_backward [OF f 1] decodes_backward [OF g 2] by (auto simp: advance_add)
next
  fix c w r
  assume ok: "okf (proj w) \<and> okg (proj w) w" and "rest c = (ef (proj w) @ eg (proj w) w) @ r"
  then have r: "rest c = ef (proj w) @ (eg (proj w) w @ r)" by simp
  note 1 = decodes_forward [OF f conjunct1 [OF ok] r]
  note 2 = decodes_forward [OF g conjunct2 [OF ok] 1(2)]
  show "andThen (f c) (\<lambda>(x, c). g x c)
      = Inr (w, advance (length (ef (proj w) @ eg (proj w) w)) c)"
    by (simp add: 1(1) 2(1) advance_add)
qed

text \<open>A field with a fixed encoding, such as reserved zero bytes, is not part of the value.\<close>

lemma decodes_skip:
  fixes f :: "'c \<Rightarrow> (unit \<times> 'c) result"
  assumes "decodes f (\<lambda>_. bs) (\<lambda>_. True)" and "decodes g eg okg"
  shows "decodes (\<lambda>c. andThen (f c) (\<lambda>(_, c). g c)) (\<lambda>w. bs @ eg w) okg"
  using decodes_bind [where proj = "\<lambda>_. ()" and g = "\<lambda>_. g", OF assms] by simp

text \<open>A decoder of a whole payload rejects what is left over.\<close>

lemma decodes_whole:
  assumes "decodes f enc ok"
  shows "andThen (f c) (\<lambda>(v, c). if rest c \<noteq> [] then Inl e else Inr v) = Inr v
    \<longleftrightarrow> ok v \<and> rest c = enc v" (is "?lhs \<longleftrightarrow> ?rhs")
proof
  assume ?lhs
  then obtain c' where f: "f c = Inr (v, c')" and "rest c' = []"
    by (auto simp: andThen_Inr_iff split: if_splits)
  with decodes_backward [OF assms f] show ?rhs by simp
next
  assume ?rhs
  then have "ok v" and "rest c = enc v @ []" by simp_all
  from decodes_forward [OF assms this] show ?lhs by simp
qed

lemma decodes_readN:
  assumes "\<And>i. decodes (f i) (enc i) (ok i)"
  shows "decodes (readN f index n) (encodings enc index)
    (\<lambda>vs. length vs = n \<and> all_index ok index vs)"
proof (induction n arbitrary: index)
  case 0
  show ?case by (rule decodesI) (auto simp: advance_0)
next
  case (Suc n)
  show ?case
  proof (rule decodesI)
    fix c vs c'
    assume "readN f index (Suc n) c = Inr (vs, c')"
    then obtain v us c1 where f: "f index c = Inr (v, c1)"
      and g: "readN f (Suc index) n c1 = Inr (us, c')" and vs: "vs = v # us"
      by (auto simp: andThen_Inr_iff)
    show "(length vs = Suc n \<and> all_index ok index vs) \<and> (\<exists>r. rest c = encodings enc index vs @ r)
        \<and> c' = advance (length (encodings enc index vs)) c"
      using decodes_backward [OF assms f] decodes_backward [OF Suc.IH g]
      by (auto simp: vs advance_add)
  next
    fix c vs r
    assume ok: "length vs = Suc n \<and> all_index ok index vs" and r: "rest c = encodings enc index vs @ r"
    then obtain v us where vs: "vs = v # us" by (cases vs) auto
    have f: "f index c = Inr (v, advance (length (enc index v)) c)"
      and r1: "rest (advance (length (enc index v)) c) = encodings enc (Suc index) us @ r"
      using decodes_forward [OF assms [of index], where v = v and c = c] ok r by (simp_all add: vs)
    have "readN f (Suc index) n (advance (length (enc index v)) c)
        = Inr (us, advance (length (encodings enc (Suc index) us)) (advance (length (enc index v)) c))"
      using decodes_forward [OF Suc.IH _ r1] ok by (simp add: vs)
    with f show "readN f index (Suc n) c = Inr (vs, advance (length (encodings enc index vs)) c)"
      by (simp add: vs advance_add)
  qed
qed

end

end
