(* ===== verification/Codec.thy ===== *)
theory Codec
  imports Format Cursors
begin

text \<open>
  \<open>src/storage/codec.go\<close>: record and batch encoding. The encoders build the same buffers field by
  field, and the decoders perform the source's checks in its order. The lemmas give closed forms:
  \<open>record_bytes\<close> and \<open>batch_bytes\<close> are the encodings as concatenations of fields, with the eight
  bytes of the record prefix that decoding ignores as an argument.
\<close>

section \<open>Encoding records\<close>

definition appendU32 :: "bytes \<Rightarrow> uint32 \<Rightarrow> bytes" where
  "appendU32 dst v = dst @ PutUint32 v"

definition appendNullable :: "bytes \<Rightarrow> bytes option \<Rightarrow> bytes result" where
  "appendNullable dst value =
     (case value of
        None \<Rightarrow> Inr (appendU32 dst NullBytesLength)
      | Some v \<Rightarrow>
          if length v > 0xFFFFFFFF then Inl [ErrRecordTooLarge, ErrInvalidRecord]
          else Inr (appendU32 dst (of_nat (length v)) @ v))"

fun appendHeaders :: "bytes \<Rightarrow> Header list \<Rightarrow> bytes result" where
  "appendHeaders body [] = Inr body"
| "appendHeaders body (header # headers) =
     (if \<not> validHeaderName (hName header) then Inl (invalidArgument ErrInvalidRecord)
      else
        let body = appendU32 body (of_nat (length (hName header)))
        in andThen
             (case hValue header of
                None \<Rightarrow> Inr (appendU32 body NullBytesLength)
              | Some v \<Rightarrow>
                  if length v > 0xFFFFFFFF then Inl [ErrRecordTooLarge, ErrInvalidRecord]
                  else Inr (appendU32 body (of_nat (length v))))
             (\<lambda>body.
                let body = body @ hName header;
                    body = (case hValue header of None \<Rightarrow> body | Some v \<Rightarrow> body @ v)
                in appendHeaders body headers))"

definition EncodeRecord :: "Record \<Rightarrow> uint64 \<Rightarrow> bytes result" where
  "EncodeRecord record baseOffset =
     (if rOffset record < baseOffset \<or> rOffset record - baseOffset > 0xFFFFFFFF
      then Inl (invalidArgument ErrInvalidRecord)
      else if baseOffset > maxOffset \<or> rOffset record > maxOffset
      then Inl (invalidArgument ErrInvalidRecord)
      else if length (rHeaders record) > unat MaxRecordHeaders
      then Inl (invalidArgument ErrInvalidRecord)
      else
        let body = replicate RecordPrefixBytes 0;
            body = put_at 4 (PutUint32 (ucast (rOffset record - baseOffset))) body;
            body = put_at 8 (PutUint64 (rTimestamp record)) body;
            body = put_at 24 (PutUint32 (of_nat (length (rHeaders record)))) body
        in
          andThen (appendNullable body (rKey record)) (\<lambda>body.
          andThen (appendNullable body (rValue record)) (\<lambda>body.
          andThen (appendHeaders body (rHeaders record)) (\<lambda>body.
            if length body > unat MaxRecordBytes then Inl [ErrRecordTooLarge, ErrInvalidRecord]
            else Inr (put_at 0 (PutUint32 (of_nat (length body))) body)))))"

section \<open>The decoding cursor\<close>

record cursor =
  cData :: bytes
  cPos :: nat

definition cursor_remaining :: "cursor \<Rightarrow> nat" where
  "cursor_remaining c = length (cData c) - cPos c"

definition cursor_u32 :: "cursor \<Rightarrow> (uint32 \<times> cursor) result" where
  "cursor_u32 c =
     (if cursor_remaining c < 4 then Inl (corrupt ErrInvalidRecord)
      else Inr (Uint32 (slice (cPos c) (cPos c + 4) (cData c)), c\<lparr>cPos := cPos c + 4\<rparr>))"

definition cursor_bytes :: "uint32 \<Rightarrow> cursor \<Rightarrow> (bytes \<times> cursor) result" where
  "cursor_bytes len c =
     (if unat len > cursor_remaining c then Inl (corrupt ErrInvalidRecord)
      else
        let pos_end = cPos c + unat len
        in Inr (slice (cPos c) pos_end (cData c), c\<lparr>cPos := pos_end\<rparr>))"

definition cursor_nullableBytes :: "cursor \<Rightarrow> (bytes option \<times> cursor) result" where
  "cursor_nullableBytes c =
     andThen (cursor_u32 c) (\<lambda>(len, c).
       if len = NullBytesLength then Inr (None, c)
       else andThen (cursor_bytes len c) (\<lambda>(v, c). Inr (Some v, c)))"

section \<open>Decoding records\<close>

definition decodeHeader :: "cursor \<Rightarrow> (Header \<times> cursor) result" where
  "decodeHeader c =
     andThen (cursor_u32 c) (\<lambda>(nameLength, c).
       if nameLength > MaxHeaderNameBytes then Inl (corrupt ErrInvalidRecord)
       else
         andThen (cursor_u32 c) (\<lambda>(valueLength, c).
         andThen (cursor_bytes nameLength c) (\<lambda>(nameBytes, c).
           if \<not> validHeaderName nameBytes then Inl (corrupt ErrInvalidRecord)
           else
             andThen
               (if valueLength \<noteq> NullBytesLength
                then andThen (cursor_bytes valueLength c) (\<lambda>(v, c). Inr (Some v, c))
                else Inr (None, c))
               (\<lambda>(headerValue, c). Inr (\<lparr>hName = nameBytes, hValue = headerValue\<rparr>, c)))))"

definition decodeRecord ::
  "bytes \<Rightarrow> uint64 \<Rightarrow> TopicID \<Rightarrow> uint32 \<Rightarrow> uint32 option \<Rightarrow> (Record \<times> nat) result" where
  "decodeRecord data baseOffset topic part expectedDelta =
     (if length data < RecordPrefixBytes then Inl (corrupt ErrInvalidRecord)
      else
        let recordBytes = Uint32 (slice 0 4 data)
        in if recordBytes < of_nat RecordPrefixBytes \<or> recordBytes > MaxRecordBytes
           then Inl (corrupt ErrInvalidRecord)
           else if unat recordBytes > length data then Inl (corrupt ErrInvalidRecord)
           else
             let body = slice 0 (unat recordBytes) data;
                 delta = Uint32 (slice 4 8 body)
             in if expectedDelta \<noteq> None \<and> delta \<noteq> the expectedDelta
                then Inl (corrupt ErrInvalidRecord)
                else if baseOffset > maxOffset \<or> ucast delta > maxOffset - baseOffset
                then Inl (corrupt ErrInvalidRecord)
                else
                  let headerCount = Uint32 (slice 24 28 body)
                  in if headerCount > MaxRecordHeaders then Inl (corrupt ErrInvalidRecord)
                     else
                       andThen (cursor_nullableBytes \<lparr>cData = drop RecordPrefixBytes body, cPos = 0\<rparr>)
                         (\<lambda>(key, c).
                       andThen (cursor_nullableBytes c) (\<lambda>(value, c).
                       andThen (readN (\<lambda>_. decodeHeader) 0 (unat headerCount) c) (\<lambda>(headers, c).
                         if cPos c \<noteq> length (cData c) then Inl (corrupt ErrInvalidRecord)
                         else Inr (\<lparr>rTopic = topic, rPartition = part,
                                    rOffset = baseOffset + ucast delta,
                                    rTimestamp = Uint64 (slice 8 16 body),
                                    rKey = key, rValue = value, rHeaders = headers\<rparr>,
                                   unat recordBytes)))))"

definition DecodeRecord :: "bytes \<Rightarrow> uint64 \<Rightarrow> TopicID \<Rightarrow> uint32 \<Rightarrow> Record result" where
  "DecodeRecord data baseOffset topic part =
     andThen (decodeRecord data baseOffset topic part None) (\<lambda>(record, consumed).
       if consumed \<noteq> length data then Inl (corrupt ErrInvalidRecord) else Inr record)"

section \<open>Batches\<close>

text \<open>The loop of \<open>EncodeBatch\<close> over the records, with its accumulated bytes and timestamp.\<close>

fun encodeBatchRecords ::
  "RecordBatch \<Rightarrow> nat \<Rightarrow> Record list \<Rightarrow> bytes \<Rightarrow> uint64 \<Rightarrow> (bytes \<times> uint64) result" where
  "encodeBatchRecords batch index [] recordBytes maxTimestamp = Inr (recordBytes, maxTimestamp)"
| "encodeBatchRecords batch index (record # records) recordBytes maxTimestamp =
     (let expectedOffset = bBaseOffset batch + of_nat index
      in if rTopic record \<noteq> bTopic batch \<or> rPartition record \<noteq> bPartition batch
            \<or> rOffset record \<noteq> expectedOffset
         then Inl (invalidArgument ErrInvalidBatch)
         else
           let maxTimestamp =
                 (if sint (rTimestamp record) > sint maxTimestamp then rTimestamp record
                  else maxTimestamp)
           in andThen (EncodeRecord record (bBaseOffset batch)) (\<lambda>encoded.
                encodeBatchRecords batch (Suc index) records (recordBytes @ encoded) maxTimestamp))"

definition EncodeBatch :: "RecordBatch \<Rightarrow> bytes result" where
  "EncodeBatch batch =
     (if IsZero (bTopic batch) \<or> length (bRecords batch) = 0
         \<or> length (bRecords batch) > unat MaxBatchRecords
      then Inl (invalidArgument ErrInvalidBatch)
      else if \<not> validOffsetRange (bBaseOffset batch) (of_nat (length (bRecords batch)))
      then Inl (invalidArgument ErrInvalidBatch)
      else
        andThen (encodeBatchRecords batch 0 (bRecords batch) [] MinInt64)
          (\<lambda>(recordBytes, maxTimestamp).
           let total = unat BatchHeaderBytes + length recordBytes + BatchTrailerBytes
           in if total > unat MaxBatchBytes \<or> total > 0xFFFFFFFF
              then Inl [ErrRecordTooLarge, ErrInvalidBatch]
              else
                let data = replicate total 0;
                    data = put_at 0 BatchMagic data;
                    data = put_at 4 (PutUint16 FormatVersion) data;
                    data = put_at 6 (PutUint16 BatchHeaderBytes) data;
                    data = put_at 8 (PutUint32 (of_nat total)) data;
                    data = put_at 12 (PutUint32 (of_nat (length (bRecords batch)))) data;
                    data = put_at 16 (PutUint64 (bBaseOffset batch)) data;
                    data = put_at 24 (PutUint64 maxTimestamp) data;
                    data = put_at 36 (PutUint16 FormatVersion) data;
                    data = put_at 44 (PutUint32 (CRC32C (slice 0 44 data))) data;
                    data = put_at 48 recordBytes data
                in Inr (put_at (total - BatchTrailerBytes)
                          (PutUint32 (CRC32C (slice 0 (total - BatchTrailerBytes) data))) data)))"

text \<open>The loop of \<open>DecodeBatch\<close>; its result is the records, the final position and timestamp.\<close>

primrec decodeBatchRecords ::
  "bytes \<Rightarrow> uint64 \<Rightarrow> TopicID \<Rightarrow> uint32 \<Rightarrow> nat \<Rightarrow> uint32 \<Rightarrow> nat \<Rightarrow> uint64
     \<Rightarrow> (Record list \<times> nat \<times> uint64) result" where
  "decodeBatchRecords data baseOffset topic part 0 index position maxTimestamp =
     Inr ([], position, maxTimestamp)"
| "decodeBatchRecords data baseOffset topic part (Suc n) index position maxTimestamp =
     (if length data - BatchTrailerBytes - position < RecordPrefixBytes
      then Inl (corrupt ErrInvalidBatch)
      else
        let recordLength = Uint32 (slice position (position + 4) data)
        in if recordLength < of_nat RecordPrefixBytes
              \<or> unat recordLength > length data - BatchTrailerBytes - position
           then Inl (corrupt ErrInvalidBatch)
           else
             andThen (decodeRecord (slice position (position + unat recordLength) data) baseOffset
                        topic part (Some index)) (\<lambda>(record, consumed).
               if consumed \<noteq> unat recordLength then Inl (corrupt ErrInvalidBatch)
               else
                 let maxTimestamp =
                       (if sint (rTimestamp record) > sint maxTimestamp then rTimestamp record
                        else maxTimestamp)
                 in andThen (decodeBatchRecords data baseOffset topic part n (index + 1)
                               (position + unat recordLength) maxTimestamp)
                      (\<lambda>(records, result). Inr (record # records, result))))"

definition DecodeBatch :: "bytes \<Rightarrow> TopicID \<Rightarrow> uint32 \<Rightarrow> RecordBatch result" where
  "DecodeBatch data topic part =
     (if length data < unat BatchHeaderBytes then Inl (corrupt ErrInvalidBatch)
      else if slice 0 4 data \<noteq> BatchMagic then Inl (corrupt ErrInvalidBatch)
      else if Uint16 (slice 6 8 data) \<noteq> BatchHeaderBytes then Inl (corrupt ErrInvalidBatch)
      else if Uint32 (slice 44 48 data) \<noteq> CRC32C (slice 0 44 data) then Inl (corrupt ErrInvalidBatch)
      else if Uint16 (slice 4 6 data) \<noteq> FormatVersion \<or> Uint16 (slice 36 38 data) \<noteq> FormatVersion
      then Inl unsupported
      else if Uint32 (slice 32 36 data) \<noteq> 0 \<or> Uint16 (slice 38 40 data) \<noteq> 0
           \<or> Uint32 (slice 40 44 data) \<noteq> 0
      then Inl (corrupt ErrInvalidBatch)
      else if IsZero topic then Inl (corrupt ErrInvalidBatch)
      else
        let total = Uint32 (slice 8 12 data);
            count = Uint32 (slice 12 16 data);
            baseOffset = Uint64 (slice 16 24 data)
        in if count = 0 \<or> count > MaxBatchRecords
              \<or> total < ucast BatchHeaderBytes + of_nat BatchTrailerBytes + of_nat RecordPrefixBytes
              \<or> total > MaxBatchBytes
           then Inl (corrupt ErrInvalidBatch)
           else if \<not> validOffsetRange baseOffset count then Inl (corrupt ErrInvalidBatch)
           else if (ucast count :: uint64) * of_nat RecordPrefixBytes
                   > ucast total - ucast BatchHeaderBytes - of_nat BatchTrailerBytes
           then Inl (corrupt ErrInvalidBatch)
           else if unat total \<noteq> length data then Inl (corrupt ErrInvalidBatch)
           else
             let trailerPosition = length data - BatchTrailerBytes
             in if Uint32 (drop trailerPosition data) \<noteq> CRC32C (slice 0 trailerPosition data)
                then Inl (corrupt ErrInvalidBatch)
                else
                  andThen (decodeBatchRecords data baseOffset topic part (unat count) 0
                             (unat BatchHeaderBytes) MinInt64)
                    (\<lambda>(records, position, maxTimestamp).
                     if position \<noteq> trailerPosition then Inl (corrupt ErrInvalidBatch)
                     else if Uint64 (slice 24 32 data) \<noteq> maxTimestamp
                     then Inl (corrupt ErrInvalidBatch)
                     else Inr \<lparr>bTopic = topic, bPartition = part, bBaseOffset = baseOffset,
                               bRecords = records\<rparr>))"

section \<open>The cursor as a byte cursor\<close>

definition cursor_rest :: "cursor \<Rightarrow> bytes" where
  "cursor_rest c = drop (cPos c) (cData c)"

definition cursor_advance :: "nat \<Rightarrow> cursor \<Rightarrow> cursor" where
  "cursor_advance n c = c\<lparr>cPos := cPos c + n\<rparr>"

interpretation cur: byte_cursor cursor_rest cursor_advance
  by unfold_locales (simp_all add: cursor_rest_def cursor_advance_def add.commute add.left_commute)

definition nullable_bytes :: "bytes option \<Rightarrow> bytes" where
  "nullable_bytes v =
     (case v of None \<Rightarrow> PutUint32 NullBytesLength | Some b \<Rightarrow> PutUint32 (of_nat (length b)) @ b)"

definition nullable_ok :: "bytes option \<Rightarrow> bool" where
  "nullable_ok v \<longleftrightarrow> (case v of None \<Rightarrow> True | Some b \<Rightarrow> length b < 0xFFFFFFFF)"

definition header_bytes :: "Header \<Rightarrow> bytes" where
  "header_bytes h =
     PutUint32 (of_nat (length (hName h)))
     @ PutUint32 (case hValue h of None \<Rightarrow> NullBytesLength | Some b \<Rightarrow> of_nat (length b))
     @ hName h @ (case hValue h of None \<Rightarrow> [] | Some b \<Rightarrow> b)"

definition header_ok :: "Header \<Rightarrow> bool" where
  "header_ok h \<longleftrightarrow> validHeaderName (hName h) \<and> nullable_ok (hValue h)"

lemma ex_take_append: "\<exists>r. xs = take n xs @ r"
  by (metis append_take_drop_id)

lemma cursor_u32_rest:
  "cursor_u32 c =
     (if length (cursor_rest c) < 4 then Inl (corrupt ErrInvalidRecord)
      else Inr (Uint32 (take 4 (cursor_rest c)), cursor_advance 4 c))"
  by (simp add: cursor_u32_def cursor_remaining_def cursor_rest_def cursor_advance_def slice_def)

lemma cursor_bytes_rest:
  "cursor_bytes n c =
     (if length (cursor_rest c) < unat n then Inl (corrupt ErrInvalidRecord)
      else Inr (take (unat n) (cursor_rest c), cursor_advance (unat n) c))"
  by (simp add: cursor_bytes_def cursor_remaining_def cursor_rest_def cursor_advance_def slice_def)

lemma cursor_u32_decodes: "cur.decodes cursor_u32 PutUint32 (\<lambda>_. True)"
  by (rule cur.decodesI) (auto simp: cursor_u32_rest ex_take_append split: if_splits)

lemma cursor_bytes_decodes: "cur.decodes (cursor_bytes n) (\<lambda>v. v) (\<lambda>v. length v = unat n)"
  by (rule cur.decodesI) (auto simp: cursor_bytes_rest ex_take_append split: if_splits)

lemmas cursor_reads = cur.decodesD [OF cursor_u32_decodes] cur.decodesD [OF cursor_bytes_decodes]
  cur.rest_advance cur.advance_add


lemmas cursor_rests = cursor_u32_rest cursor_bytes_rest cur.rest_advance cur.advance_add

lemma of_nat_not_null: "n < 0xFFFFFFFF \<Longrightarrow> (of_nat n :: uint32) \<noteq> 0xFFFFFFFF"
proof
  assume "n < 0xFFFFFFFF" and "(of_nat n :: uint32) = 0xFFFFFFFF"
  then have "unat (of_nat n :: uint32) = 0xFFFFFFFF" by simp
  with \<open>n < 0xFFFFFFFF\<close> show False by simp
qed

lemma unat_not_null: "(n :: uint32) \<noteq> 0xFFFFFFFF \<Longrightarrow> unat n < 0xFFFFFFFF"
  using unat_uint32_less [of n] by (auto simp: word_unat_eq_iff)

lemma cursor_nullableBytes_decodes: "cur.decodes cursor_nullableBytes nullable_bytes nullable_ok"
proof (rule cur.decodesI)
  fix c v c'
  assume "cursor_nullableBytes c = Inr (v, c')"
  then show "nullable_ok v \<and> (\<exists>r. cursor_rest c = nullable_bytes v @ r)
      \<and> c' = cursor_advance (length (nullable_bytes v)) c"
    by (auto simp: cursor_nullableBytes_def andThen_Inr_iff cursor_reads nullable_bytes_def
        nullable_ok_def unat_not_null split: if_splits)
next
  fix c v r
  assume "nullable_ok v" and "cursor_rest c = nullable_bytes v @ r"
  then show "cursor_nullableBytes c = Inr (v, cursor_advance (length (nullable_bytes v)) c)"
    by (auto simp: cursor_nullableBytes_def cursor_rests nullable_bytes_def
        nullable_ok_def of_nat_not_null split: option.splits)
qed

lemma decodeHeader_decodes: "cur.decodes decodeHeader header_bytes header_ok"
proof (rule cur.decodesI)
  fix c h c'
  assume "decodeHeader c = Inr (h, c')"
  then show "header_ok h \<and> (\<exists>r. cursor_rest c = header_bytes h @ r)
      \<and> c' = cursor_advance (length (header_bytes h)) c"
    by (auto simp: decodeHeader_def andThen_Inr_iff cursor_reads header_bytes_def header_ok_def
        nullable_ok_def unat_not_null add.assoc split: if_splits)
next
  fix c h r
  assume "header_ok h" and "cursor_rest c = header_bytes h @ r"
  then show "decodeHeader c = Inr (h, cursor_advance (length (header_bytes h)) c)"
    by (auto simp: decodeHeader_def cursor_rests header_bytes_def header_ok_def validHeaderName_def
        nullable_ok_def of_nat_not_null word_less_nat_alt add.assoc split: option.splits)
qed

lemma appendNullable_Inr_iff:
  "appendNullable dst v = Inr out \<longleftrightarrow>
     (\<forall>b. v = Some b \<longrightarrow> length b \<le> 0xFFFFFFFF) \<and> out = dst @ nullable_bytes v"
  by (auto simp: appendNullable_def appendU32_def nullable_bytes_def split: option.splits)

lemma appendHeaders_Inr_iff:
  "appendHeaders dst hs = Inr out \<longleftrightarrow>
     list_all (\<lambda>h. validHeaderName (hName h) \<and> (\<forall>b. hValue h = Some b \<longrightarrow> length b \<le> 0xFFFFFFFF)) hs
     \<and> out = dst @ concat (map header_bytes hs)"
proof (induction hs arbitrary: dst)
  case Nil
  then show ?case by auto
next
  case (Cons h hs)
  show ?case
    by (simp add: Cons.IH andThen_Inr_iff Let_def appendU32_def header_bytes_def split: option.split)
      (metis append_assoc)?
qed

definition record_tail :: "Record \<Rightarrow> bytes" where
  "record_tail r =
     nullable_bytes (rKey r) @ nullable_bytes (rValue r) @ concat (map header_bytes (rHeaders r))"

definition record_length :: "Record \<Rightarrow> nat" where
  "record_length r = RecordPrefixBytes + length (record_tail r)"

definition record_bytes :: "bytes \<Rightarrow> Record \<Rightarrow> uint64 \<Rightarrow> bytes" where
  "record_bytes pad r base =
     PutUint32 (of_nat (record_length r)) @ PutUint32 (ucast (rOffset r - base))
     @ PutUint64 (rTimestamp r) @ pad @ PutUint32 (of_nat (length (rHeaders r))) @ record_tail r"

definition encodable_record :: "Record \<Rightarrow> uint64 \<Rightarrow> bool" where
  "encodable_record r base \<longleftrightarrow>
     base \<le> rOffset r \<and> rOffset r - base \<le> 0xFFFFFFFF \<and> rOffset r \<le> maxOffset
     \<and> length (rHeaders r) \<le> unat MaxRecordHeaders
     \<and> list_all (\<lambda>h. validHeaderName (hName h)) (rHeaders r)
     \<and> record_length r \<le> unat MaxRecordBytes"

lemma length_record_bytes: "length pad = 8 \<Longrightarrow> length (record_bytes pad r base) = record_length r"
  by (simp add: record_bytes_def record_length_def)

lemma header_in_record_tail: "h \<in> set hs \<Longrightarrow> length (header_bytes h) \<le> length (concat (map header_bytes hs))"
  by (induction hs) auto

lemma record_fields_small:
  assumes "record_length r \<le> unat MaxRecordBytes"
  shows "nullable_ok (rKey r)" and "nullable_ok (rValue r)"
    and "h \<in> set (rHeaders r) \<Longrightarrow> nullable_ok (hValue h)"
  using assms header_in_record_tail [of h "rHeaders r"]
  by (auto simp: record_length_def record_tail_def nullable_ok_def nullable_bytes_def header_bytes_def
      split: option.splits)

lemma nullable_ok_le: "nullable_ok v \<Longrightarrow> v = Some b \<Longrightarrow> length b \<le> 0xFFFFFFFF"
  by (simp add: nullable_ok_def)

lemma EncodeRecord_Inr_iff:
  "EncodeRecord r base = Inr out \<longleftrightarrow>
     encodable_record r base \<and> out = record_bytes (replicate 8 0) r base"
proof (cases "base \<le> rOffset r \<and> rOffset r - base \<le> 0xFFFFFFFF \<and> rOffset r \<le> maxOffset
      \<and> length (rHeaders r) \<le> unat MaxRecordHeaders")
  case True
  let ?p = "PutUint32 (ucast (rOffset r - base)) @ PutUint64 (rTimestamp r)
     @ replicate 8 0 @ PutUint32 (of_nat (length (rHeaders r)))"
  have "EncodeRecord r base =
      andThen (appendNullable (replicate 4 0 @ ?p) (rKey r)) (\<lambda>body.
      andThen (appendNullable body (rValue r)) (\<lambda>body.
      andThen (appendHeaders body (rHeaders r)) (\<lambda>body.
        if length body > unat MaxRecordBytes then Inl [ErrRecordTooLarge, ErrInvalidRecord]
        else Inr (put_at 0 (PutUint32 (of_nat (length body))) body))))"
    using True by (auto simp: EncodeRecord_def put_at_replicate put_at_buf not_less)
  moreover have "put_at 0 (PutUint32 n) (replicate 4 0 @ x) = PutUint32 n @ x" for n x
    by (simp add: put_at_def)
  moreover have "length b \<le> 0xFFFFFFFF"
    if "record_length r \<le> unat MaxRecordBytes" "h \<in> set (rHeaders r)" "hValue h = Some b" for h b
    using record_fields_small(3) [OF that(1,2)] that(3) by (rule nullable_ok_le)
  ultimately show ?thesis
    using True record_fields_small(1,2) [of r]
    by (auto simp: andThen_Inr_iff appendNullable_Inr_iff appendHeaders_Inr_iff encodable_record_def
        record_bytes_def record_tail_def record_length_def list_all_iff
        dest: nullable_ok_le)
next
  case False
  then show ?thesis
    by (auto simp: EncodeRecord_def encodable_record_def)
qed


lemma offset_of_delta:
  fixes base :: uint64 and delta :: uint32
  assumes "base \<le> maxOffset" and "ucast delta \<le> maxOffset - base"
  shows "base \<le> base + ucast delta" and "base + ucast delta \<le> maxOffset"
    and "(base + ucast delta) - base \<le> 0xFFFFFFFF" and "ucast ((base + ucast delta) - base) = delta"
proof -
  have b: "unat base \<le> 0x7FFFFFFFFFFFFFFF"
    using assms(1) by (simp add: word_le_nat_alt)
  have d: "unat delta \<le> 0x7FFFFFFFFFFFFFFF - unat base"
    using assms by (simp add: word_le_nat_alt unat_sub)
  have s: "unat (base + ucast delta) = unat base + unat delta"
    using b d by (simp add: unat_word_ariths)
  show "base \<le> base + ucast delta" "base + ucast delta \<le> maxOffset"
    using b d by (simp_all add: word_le_nat_alt s)
  show "(base + ucast delta) - base \<le> 0xFFFFFFFF"
    using unat_uint32_less [of delta] by (simp add: word_le_nat_alt)
  show "ucast ((base + ucast delta) - base) = delta"
    by simp
qed

lemma delta_of_offset:
  fixes base off :: uint64
  assumes "base \<le> off" and "off - base \<le> 0xFFFFFFFF" and "off \<le> maxOffset"
  shows "ucast (ucast (off - base) :: uint32) = off - base" and "base \<le> maxOffset"
    and "off - base \<le> maxOffset - base"
proof -
  have "unat (off - base) < 4294967296"
    using assms(2) by (simp add: word_le_nat_alt)
  then show "ucast (ucast (off - base) :: uint32) = off - base"
    by (rule ucast_64_32_64)
  show "base \<le> maxOffset"
    using assms by simp
  show "off - base \<le> maxOffset - base"
    using assms by (simp add: word_le_nat_alt unat_sub)
qed

lemmas record_reads =
  cur.decodesD [OF cursor_nullableBytes_decodes]
  cur.decodesD [OF cur.decodes_readN [OF decodeHeader_decodes]]

lemma record_prefix_split:
  assumes "28 \<le> length body"
  shows "body = slice 0 4 body @ slice 4 8 body @ slice 8 16 body @ slice 16 24 body
    @ slice 24 28 body @ drop 28 body"
  using assms by (simp add: join_slices) (simp add: slice_def)

lemma record_bytes_slices:
  assumes "length pad = 8"
  shows "slice 0 4 (record_bytes pad r base @ t) = PutUint32 (of_nat (record_length r))"
    and "slice 4 8 (record_bytes pad r base) = PutUint32 (ucast (rOffset r - base))"
    and "slice 8 16 (record_bytes pad r base) = PutUint64 (rTimestamp r)"
    and "slice 24 28 (record_bytes pad r base) = PutUint32 (of_nat (length (rHeaders r)))"
    and "drop 28 (record_bytes pad r base) = record_tail r"
  using assms by (simp_all add: record_bytes_def field_slices)

lemma decodeRecord_record_bytes:
  assumes "encodable_record r base" and "length pad = 8"
    and "\<And>d. expected = Some d \<Longrightarrow> ucast (rOffset r - base) = d"
  shows "decodeRecord (record_bytes pad r base @ t) base (rTopic r) (rPartition r) expected
    = Inr (r, record_length r)"
proof -
  let ?d = "record_bytes pad r base @ t"
  let ?c = "\<lparr>cData = record_tail r, cPos = 0\<rparr>"
  let ?h = "concat (map header_bytes (rHeaders r))"
  have len: "28 \<le> record_length r" "record_length r \<le> 16777216"
    using assms(1) by (simp_all add: record_length_def encodable_record_def)
  have unat_len: "unat (of_nat (record_length r) :: uint32) = record_length r"
    using len by simp
  have body: "slice 0 (record_length r) ?d = record_bytes pad r base"
    using assms(2) by (simp add: length_record_bytes slice_append_first)
  note small = record_fields_small [of r]
  have ok: "nullable_ok (rKey r)" "nullable_ok (rValue r)" "list_all header_ok (rHeaders r)"
    using assms(1) small by (auto simp: encodable_record_def list_all_iff header_ok_def)
  let ?c1 = "cursor_advance (length (nullable_bytes (rKey r))) ?c"
  let ?c2 = "cursor_advance (length (nullable_bytes (rValue r))) ?c1"
  let ?c3 = "cursor_advance (length ?h) ?c2"
  have "cursor_rest ?c = nullable_bytes (rKey r) @ nullable_bytes (rValue r) @ ?h"
    by (simp add: cursor_rest_def record_tail_def)
  note c1 = cur.decodes_forward [OF cursor_nullableBytes_decodes ok(1) this]
  note c2 = cur.decodes_forward [OF cursor_nullableBytes_decodes ok(2) c1(2)]
  have c3: "readN (\<lambda>_. decodeHeader) 0 (length (rHeaders r)) ?c2 = Inr (rHeaders r, ?c3)"
    using cur.decodes_forward [OF cur.decodes_readN [OF decodeHeader_decodes], of "rHeaders r" _ 0 ?c2]
      ok(3) c2(2) by (simp add: encodings_const)
  have pos: "cPos ?c3 = length (cData ?c3)"
    by (simp add: cursor_advance_def record_tail_def)
  have off: "ucast (ucast (rOffset r - base) :: uint32) = rOffset r - base" "\<not> maxOffset < base"
      "\<not> maxOffset - base < rOffset r - base"
    using assms(1) delta_of_offset [of base "rOffset r"] by (auto simp: encodable_record_def not_less)
  have hc: "unat (of_nat (length (rHeaders r)) :: uint32) = length (rHeaders r)"
    "\<not> MaxRecordHeaders < of_nat (length (rHeaders r))"
    using assms(1) by (simp_all add: encodable_record_def word_less_nat_alt)
  have rl: "\<not> (of_nat (record_length r) :: uint32) < of_nat RecordPrefixBytes"
    "\<not> MaxRecordBytes < of_nat (record_length r)" "\<not> length ?d < RecordPrefixBytes"
    using len assms(2) by (simp_all add: word_less_nat_alt length_record_bytes)
  have tl: "drop RecordPrefixBytes (record_bytes pad r base) = record_tail r"
    using assms(2) by (simp add: record_bytes_slices)
  have ex: "\<not> (expected \<noteq> None \<and> ucast (rOffset r - base) \<noteq> the expected)"
    using assms(3) by (cases expected) auto
  show ?thesis
    unfolding decodeRecord_def Let_def record_bytes_slices(1) [OF assms(2)] word_of_bytes_simps
      unat_len body record_bytes_slices(2-) [OF assms(2)] 
    using rl off(2,3) hc ex pos assms(2)
    by (simp add: c1 c2 c3 tl off(1) length_record_bytes record_bytes_slices
        del: RecordPrefixBytes_def MaxRecordBytes_def maxOffset_def MaxRecordHeaders_def)
qed

lemma decodeRecord_Inr_iff:
  "decodeRecord data base topic part expected = Inr (r, n) \<longleftrightarrow>
     encodable_record r base \<and> rTopic r = topic \<and> rPartition r = part
     \<and> (\<forall>d. expected = Some d \<longrightarrow> ucast (rOffset r - base) = d) \<and> n = record_length r
     \<and> (\<exists>pad t. length pad = 8 \<and> data = record_bytes pad r base @ t)"
  (is "?lhs \<longleftrightarrow> ?rhs")
proof
  assume ?rhs
  then show ?lhs using decodeRecord_record_bytes by blast
next
  assume l: ?lhs
  let ?n = "unat (Uint32 (slice 0 4 data))"
  let ?body = "slice 0 ?n data"
  let ?delta = "Uint32 (slice 4 8 ?body)"
  let ?hc = "Uint32 (slice 24 28 ?body)"
  let ?c = "\<lparr>cData = drop 28 ?body, cPos = 0\<rparr>"
  from l obtain key c1 val c2 headers c3 where
    len: "28 \<le> ?n" "?n \<le> 16777216" "?n \<le> length data" "n = ?n"
    and ex: "\<forall>d. expected = Some d \<longrightarrow> ?delta = d"
    and off: "base \<le> maxOffset" "ucast ?delta \<le> maxOffset - base"
    and hc: "unat ?hc \<le> 1024"
    and c1: "cursor_nullableBytes ?c = Inr (key, c1)"
    and c2: "cursor_nullableBytes c1 = Inr (val, c2)"
    and c3: "readN (\<lambda>_. decodeHeader) 0 (unat ?hc) c2 = Inr (headers, c3)"
    and pos: "cPos c3 = length (cData c3)"
    and r: "r = \<lparr>rTopic = topic, rPartition = part, rOffset = base + ucast ?delta,
       rTimestamp = Uint64 (slice 8 16 ?body), rKey = key, rValue = val, rHeaders = headers\<rparr>"
    by (auto simp: decodeRecord_def Let_def andThen_Inr_iff word_less_nat_alt word_le_nat_alt not_less
        split: if_splits)
  have rf: "rTopic r = topic" "rPartition r = part" "rOffset r = base + ucast ?delta"
    "rTimestamp r = Uint64 (slice 8 16 ?body)" "rKey r = key" "rValue r = val" "rHeaders r = headers"
    by (simp_all add: r)
  note b1 = cur.decodes_backward [OF cursor_nullableBytes_decodes c1]
  note b2 = cur.decodes_backward [OF cursor_nullableBytes_decodes c2]
  note b3 = cur.decodes_backward [OF cur.decodes_readN [OF decodeHeader_decodes] c3]
  have "cursor_rest c3 = []" using pos by (simp add: cursor_rest_def)
  then have tail: "drop 28 ?body = record_tail r"
    using b1(2) b2(2) b3(2) by (simp add: rf record_tail_def cursor_rest_def encodings_const)
  have lb: "length ?body = ?n" using len by simp
  have n: "record_length r = ?n"
    using len arg_cong [OF tail, of length] by (simp add: record_length_def)
  note od = offset_of_delta [OF off]
  have names: "list_all (\<lambda>h. validHeaderName (hName h)) headers" and nh: "length headers = unat ?hc"
    using b3(1) by (auto simp: list_all_iff header_ok_def)
  have enc: "encodable_record r base"
    using len hc od names nh by (simp add: encodable_record_def rf n del: maxOffset_def add_diff_cancel_left')
  have "slice 0 4 ?body = slice 0 4 data"
    using len by (simp add: slice_slice)
  then have "?body = record_bytes (slice 16 24 ?body) r base"
    using record_prefix_split [of ?body] len od
    by (simp add: record_bytes_def n tail rf nh)
  moreover have "data = ?body @ drop ?n data" by (simp add: slice_def)
  moreover have "length (slice 16 24 ?body) = 8" using len by simp
  ultimately have "\<exists>pad t. length pad = 8 \<and> data = record_bytes pad r base @ t" by metis
  then show ?rhs
    using enc len ex n rf by simp
qed


section \<open>Closed forms of batches\<close>

definition max_timestamp :: "uint64 \<Rightarrow> Record list \<Rightarrow> uint64" where
  "max_timestamp m rs =
     foldl (\<lambda>m r. if sint (rTimestamp r) > sint m then rTimestamp r else m) m rs"

primrec records_bytes :: "bytes list \<Rightarrow> uint64 \<Rightarrow> Record list \<Rightarrow> bytes" where
  "records_bytes pads base [] = []"
| "records_bytes pads base (r # rs) = record_bytes (hd pads) r base @ records_bytes (tl pads) base rs"

definition pads_for :: "bytes list \<Rightarrow> 'a list \<Rightarrow> bool" where
  "pads_for pads rs \<longleftrightarrow> length pads = length rs \<and> list_all (\<lambda>p. length p = 8) pads"

definition records_length :: "Record list \<Rightarrow> nat" where
  "records_length rs = sum_list (map record_length rs)"

definition batch_header :: "RecordBatch \<Rightarrow> bytes" where
  "batch_header b =
     BatchMagic @ PutUint16 FormatVersion @ PutUint16 BatchHeaderBytes
     @ PutUint32 (of_nat (52 + records_length (bRecords b)))
     @ PutUint32 (of_nat (length (bRecords b))) @ PutUint64 (bBaseOffset b)
     @ PutUint64 (max_timestamp MinInt64 (bRecords b)) @ replicate 4 0 @ PutUint16 FormatVersion
     @ replicate 6 0"

definition batch_covered :: "bytes list \<Rightarrow> RecordBatch \<Rightarrow> bytes" where
  "batch_covered pads b =
     batch_header b @ PutUint32 (CRC32C (batch_header b))
     @ records_bytes pads (bBaseOffset b) (bRecords b)"

definition batch_bytes :: "bytes list \<Rightarrow> RecordBatch \<Rightarrow> bytes" where
  "batch_bytes pads b = batch_covered pads b @ PutUint32 (CRC32C (batch_covered pads b))"

definition record_in_batch :: "RecordBatch \<Rightarrow> nat \<Rightarrow> Record \<Rightarrow> bool" where
  "record_in_batch b i r \<longleftrightarrow>
     rTopic r = bTopic b \<and> rPartition r = bPartition b \<and> rOffset r = bBaseOffset b + of_nat i
     \<and> encodable_record r (bBaseOffset b)"

definition encodable_batch :: "RecordBatch \<Rightarrow> bool" where
  "encodable_batch b \<longleftrightarrow>
     bTopic b \<noteq> 0 \<and> 0 < length (bRecords b) \<and> length (bRecords b) \<le> unat MaxBatchRecords
     \<and> unat (bBaseOffset b) + length (bRecords b) \<le> unat maxOffset
     \<and> all_index (record_in_batch b) 0 (bRecords b)
     \<and> 52 + records_length (bRecords b) \<le> unat MaxBatchBytes"

definition zero_pads :: "'a list \<Rightarrow> bytes list" where
  "zero_pads rs = replicate (length rs) (replicate 8 0)"

lemma pads_for_zero_pads: "pads_for (zero_pads rs) rs"
  by (simp add: pads_for_def zero_pads_def list_all_iff)

lemma zero_pads_simps [simp]:
  "hd (zero_pads (r # rs)) = replicate 8 0" "tl (zero_pads (r # rs)) = zero_pads rs"
  by (simp_all add: zero_pads_def)

lemma pads_for_Cons [simp]:
  "pads_for (p # pads) (r # rs) \<longleftrightarrow> length p = 8 \<and> pads_for pads rs"
  by (auto simp: pads_for_def)

lemma length_batch_header [simp]: "length (batch_header b) = 44"
  by (simp add: batch_header_def)

lemma length_records_bytes:
  "pads_for pads rs \<Longrightarrow> length (records_bytes pads base rs) = records_length rs"
proof (induction rs arbitrary: pads)
  case Nil
  then show ?case by (simp add: records_length_def)
next
  case (Cons r rs)
  then obtain p ps where "pads = p # ps" by (cases pads) (auto simp: pads_for_def)
  with Cons show ?case by (simp add: records_length_def length_record_bytes)
qed

lemma length_batch_bytes:
  "pads_for pads (bRecords b) \<Longrightarrow> length (batch_bytes pads b) = 52 + records_length (bRecords b)"
  by (simp add: batch_bytes_def batch_covered_def length_records_bytes)

lemma encodeBatchRecords_Inr_iff:
  "encodeBatchRecords b i rs acc m = Inr (out, m') \<longleftrightarrow>
     all_index (record_in_batch b) i rs \<and> out = acc @ records_bytes (zero_pads rs) (bBaseOffset b) rs
     \<and> m' = max_timestamp m rs"
  by (induction b i rs acc m rule: encodeBatchRecords.induct)
    (auto simp: Let_def andThen_Inr_iff EncodeRecord_Inr_iff record_in_batch_def max_timestamp_def)

lemma EncodeBatch_Inr_iff:
  "EncodeBatch b = Inr data \<longleftrightarrow> encodable_batch b \<and> data = batch_bytes (zero_pads (bRecords b)) b"
proof (cases "bTopic b \<noteq> 0 \<and> 0 < length (bRecords b) \<and> length (bRecords b) \<le> unat MaxBatchRecords
     \<and> unat (bBaseOffset b) + length (bRecords b) \<le> unat maxOffset")
  case True
  let ?n = "length (records_bytes (zero_pads (bRecords b)) (bBaseOffset b) (bRecords b))"
  have n: "?n = records_length (bRecords b)"
    by (simp add: length_records_bytes pads_for_zero_pads)
  have v: "validOffsetRange (bBaseOffset b) (of_nat (length (bRecords b)))"
    using True by (simp add: validOffsetRange_unat)
  show ?thesis
    using True v
    by (auto simp: EncodeBatch_def andThen_Inr_iff encodeBatchRecords_Inr_iff encodable_batch_def Let_def
        put_at_replicate put_at_buf slice_buf n batch_bytes_def batch_covered_def batch_header_def)
next
  case False
  then show ?thesis
    by (auto simp: EncodeBatch_def encodable_batch_def validOffsetRange_unat)
qed

definition record_at :: "uint64 \<Rightarrow> TopicID \<Rightarrow> uint32 \<Rightarrow> nat \<Rightarrow> Record \<Rightarrow> bool" where
  "record_at base topic part i r \<longleftrightarrow>
     encodable_record r base \<and> rTopic r = topic \<and> rPartition r = part
     \<and> ucast (rOffset r - base) = (of_nat i :: uint32)"

lemma slice_within: "pos + k \<le> lim \<Longrightarrow> slice pos (pos + k) data = take k (drop pos (take lim data))"
  by (simp add: slice_def drop_take min_def)

lemma max_timestamp_if:
  "(if sint m < sint (rTimestamp r) then rTimestamp r else m) = max_timestamp m [r]"
  by (simp add: max_timestamp_def)

lemma max_timestamp_Cons: "max_timestamp (max_timestamp m [r]) rs = max_timestamp m (r # rs)"
  by (simp add: max_timestamp_def)

lemma decodeBatchRecords_step:
  "decodeBatchRecords data base topic part (Suc n) (of_nat i) pos m = Inr (out, pos', m') \<longleftrightarrow>
     (\<exists>r rs pad. out = r # rs \<and> record_at base topic part i r \<and> length pad = 8
        \<and> (\<exists>t. drop pos (take (length data - 4) data) = record_bytes pad r base @ t)
        \<and> decodeBatchRecords data base topic part n (of_nat (Suc i)) (pos + record_length r)
             (max_timestamp m [r]) = Inr (rs, pos', m'))"
  (is "?lhs \<longleftrightarrow> ?rhs")
proof
  assume ?lhs
  then obtain r rs c where L: "28 \<le> length data - 4 - pos"
      "unat (Uint32 (slice pos (pos + 4) data)) \<le> length data - 4 - pos"
    and dec: "decodeRecord (slice pos (pos + unat (Uint32 (slice pos (pos + 4) data))) data) base
      topic part (Some (of_nat i)) = Inr (r, c)"
    and c: "c = unat (Uint32 (slice pos (pos + 4) data))"
    and rec: "decodeBatchRecords data base topic part n (of_nat i + 1) (pos + c) (max_timestamp m [r])
      = Inr (rs, pos', m')" and out: "out = r # rs"
    unfolding decodeBatchRecords.simps Let_def max_timestamp_if
    by (auto simp: andThen_Inr_iff not_less split: if_splits)
  from dec obtain pad t where at: "record_at base topic part i r" and cl: "c = record_length r"
    and pad: "length pad = 8" and sl: "slice pos (pos + c) data = record_bytes pad r base @ t"
    by (auto simp: decodeRecord_Inr_iff record_at_def c [symmetric])
  have sw: "slice pos (pos + c) data = take c (drop pos (take (length data - 4) data))"
    using L c by (intro slice_within) simp
  have "length (slice pos (pos + c) data) = c" using L c by simp
  then have "t = []" unfolding sl using pad cl by (simp add: length_record_bytes)
  with sl sw have "drop pos (take (length data - 4) data)
      = record_bytes pad r base @ drop c (drop pos (take (length data - 4) data))"
    by (metis append.right_neutral append_take_drop_id)
  with at pad rec out cl show ?rhs by (auto simp: add.commute)
next
  assume ?rhs
  then obtain r rs pad t where out: "out = r # rs" and at: "record_at base topic part i r"
    and pad: "length pad = 8"
    and dr: "drop pos (take (length data - 4) data) = record_bytes pad r base @ t"
    and rec: "decodeBatchRecords data base topic part n (of_nat (Suc i)) (pos + record_length r)
             (max_timestamp m [r]) = Inr (rs, pos', m')" by blast
  have enc: "encodable_record r base" using at by (simp add: record_at_def)
  have len: "28 \<le> record_length r" "record_length r \<le> 16777216"
    using enc by (simp_all add: record_length_def encodable_record_def)
  have "length (drop pos (take (length data - 4) data)) = record_length r + length t"
    using dr pad by (simp add: length_record_bytes)
  then have lim: "record_length r \<le> length data - 4 - pos" by simp
  have four: "slice pos (pos + 4) data = PutUint32 (of_nat (record_length r))"
    using slice_within [of pos 4 "length data - 4" data] lim len pad
    by (simp add: dr record_bytes_def)
  have body: "slice pos (pos + record_length r) data = record_bytes pad r base @ []"
    using slice_within [of pos "record_length r" "length data - 4" data] lim len pad
    by (simp add: dr length_record_bytes)
  have dec: "decodeRecord (slice pos (pos + record_length r) data) base topic part (Some (of_nat i))
      = Inr (r, record_length r)"
    unfolding body using at pad decodeRecord_record_bytes [OF enc pad, of "Some (of_nat i)" "[]"]
    by (auto simp: record_at_def)
  have "\<not> (of_nat (record_length r) :: uint32) < of_nat RecordPrefixBytes"
    "unat (of_nat (record_length r) :: uint32) = record_length r"
    using len by (simp_all add: word_less_nat_alt)
  then show ?lhs
    using len lim rec dec
    by (simp add: four Let_def out max_timestamp_if add.commute)
qed


lemma decodeBatchRecords_Inr_iff:
  "decodeBatchRecords data base topic part n (of_nat i) pos m = Inr (rs, pos', m') \<longleftrightarrow>
     length rs = n \<and> all_index (record_at base topic part) i rs
     \<and> (\<exists>pads t. pads_for pads rs
          \<and> drop pos (take (length data - 4) data) = records_bytes pads base rs @ t)
     \<and> pos' = pos + records_length rs \<and> m' = max_timestamp m rs"
proof (induction n arbitrary: i pos m rs)
  case 0
  have "pads_for [] ([] :: Record list)" by (simp add: pads_for_def)
  then show ?case by (auto simp: records_length_def max_timestamp_def)
next
  case (Suc n)
  let ?R = "\<lambda>pos. drop pos (take (length data - 4) data)"
  have region: "(\<exists>t. ?R pos = record_bytes pad r base @ t)
      \<and> (\<exists>pads t. pads_for pads us \<and> ?R (pos + record_length r) = records_bytes pads base us @ t)
     \<longleftrightarrow> (\<exists>pads t. pads_for pads us \<and> ?R pos = record_bytes pad r base @ records_bytes pads base us @ t)"
    if "length pad = 8" for pad r us
  proof -
    have d: "?R (pos + record_length r) = drop (record_length r) (?R pos)"
      by (simp add: add.commute)
    show ?thesis
      unfolding d using that by (auto simp: length_record_bytes simp del: drop_drop)
  qed
  have pads: "(\<exists>pads. pads_for pads (r # us) \<and> P (hd pads) (tl pads))
     \<longleftrightarrow> (\<exists>pad pads. length pad = 8 \<and> pads_for pads us \<and> P pad pads)" for r :: Record and us P
  proof
    assume "\<exists>pads. pads_for pads (r # us) \<and> P (hd pads) (tl pads)"
    then obtain pads where p: "pads_for pads (r # us)" "P (hd pads) (tl pads)" by blast
    moreover from p have "pads \<noteq> []" by (auto simp: pads_for_def)
    then have "pads_for (hd pads # tl pads) (r # us)" using p by simp
    ultimately show "\<exists>pad pads. length pad = 8 \<and> pads_for pads us \<and> P pad pads" by auto
  next
    assume "\<exists>pad pads. length pad = 8 \<and> pads_for pads us \<and> P pad pads"
    then obtain pad pads where "length pad = 8" "pads_for pads us" "P pad pads" by blast
    then show "\<exists>pads. pads_for pads (r # us) \<and> P (hd pads) (tl pads)"
      by (intro exI [of _ "pad # pads"]) simp
  qed
  show ?case
  proof (cases rs)
    case Nil
    then show ?thesis by (simp only: decodeBatchRecords_step) auto
  next
    case (Cons r us)
    have "decodeBatchRecords data base topic part (Suc n) (of_nat i) pos m = Inr (rs, pos', m') \<longleftrightarrow>
       length us = n \<and> record_at base topic part i r \<and> all_index (record_at base topic part) (Suc i) us
       \<and> (\<exists>pad. length pad = 8 \<and> (\<exists>t. ?R pos = record_bytes pad r base @ t)
         \<and> (\<exists>pads t. pads_for pads us \<and> ?R (pos + record_length r) = records_bytes pads base us @ t))
       \<and> pos' = pos + records_length rs \<and> m' = max_timestamp m rs"
      by (simp only: decodeBatchRecords_step Suc.IH max_timestamp_Cons Cons)
        (auto simp: records_length_def add.assoc)
    also have "(\<exists>pad. length pad = 8 \<and> (\<exists>t. ?R pos = record_bytes pad r base @ t)
         \<and> (\<exists>pads t. pads_for pads us \<and> ?R (pos + record_length r) = records_bytes pads base us @ t))
       \<longleftrightarrow> (\<exists>pads t. pads_for pads rs \<and> ?R pos = records_bytes pads base rs @ t)"
      using region pads [of r us "\<lambda>pad pads. \<exists>t. ?R pos = record_bytes pad r base @ records_bytes pads base us @ t"]
      by (simp add: Cons) blast
    finally show ?thesis by (simp add: Cons)
  qed
qed

lemma delta_eq_iff:
  fixes base off :: uint64
  assumes "base \<le> off" and "off - base \<le> 0xFFFFFFFF" and "i < 4294967296"
  shows "ucast (off - base) = (of_nat i :: uint32) \<longleftrightarrow> off = base + of_nat i"
proof -
  have u: "ucast (ucast (off - base) :: uint32) = off - base"
    using assms(2) by (intro ucast_64_32_64) (simp add: word_le_nat_alt)
  have i: "ucast (of_nat i :: uint32) = (of_nat i :: uint64)"
    using assms(3) by (simp add: word_unat_eq_iff)
  show ?thesis
  proof
    assume "ucast (off - base) = (of_nat i :: uint32)"
    with u i have "off - base = of_nat i" by metis
    then show "off = base + of_nat i" by (simp add: algebra_simps)
  next
    assume "off = base + of_nat i"
    then have "off - base = ucast (of_nat i :: uint32)" using i by simp
    then show "ucast (off - base) = (of_nat i :: uint32)" by simp
  qed
qed

lemma record_at_iff:
  assumes "bTopic b = topic" and "bPartition b = part" and "i < 65536"
  shows "record_at (bBaseOffset b) topic part i r \<longleftrightarrow> record_in_batch b i r"
proof -
  have "ucast (rOffset r - bBaseOffset b) = (of_nat i :: uint32) \<longleftrightarrow> rOffset r = bBaseOffset b + of_nat i"
    if "encodable_record r (bBaseOffset b)"
    using that assms(3) by (intro delta_eq_iff) (simp_all add: encodable_record_def)
  with assms(1,2) show ?thesis
    unfolding record_at_def record_in_batch_def
    by (cases "encodable_record r (bBaseOffset b)") simp_all
qed

lemma all_record_at_iff:
  assumes "bTopic b = topic" and "bPartition b = part" and "i + length rs \<le> 65536"
  shows "all_index (record_at (bBaseOffset b) topic part) i rs \<longleftrightarrow> all_index (record_in_batch b) i rs"
  using assms(3) by (induction rs arbitrary: i) (simp_all add: record_at_iff [OF assms(1,2)])

lemma records_length_ge: "28 * length rs \<le> records_length rs"
  by (induction rs) (auto simp: records_length_def record_length_def)

lemma batch_header_slices:
  fixes b
  defines "d \<equiv> batch_header b"
  shows "slice 0 4 d = BatchMagic" and "slice 4 6 d = PutUint16 1" and "slice 6 8 d = PutUint16 48"
    and "slice 8 12 d = PutUint32 (of_nat (52 + records_length (bRecords b)))"
    and "slice 12 16 d = PutUint32 (of_nat (length (bRecords b)))"
    and "slice 16 24 d = PutUint64 (bBaseOffset b)"
    and "slice 24 32 d = PutUint64 (max_timestamp MinInt64 (bRecords b))"
    and "slice 32 36 d = PutUint32 0" and "slice 36 38 d = PutUint16 1" and "slice 38 40 d = PutUint16 0"
    and "slice 40 44 d = PutUint32 0"
  by (simp_all add: d_def batch_header_def field_slices slice_replicate le_bytes_zero)

lemma slice_batch_bytes: "hi \<le> 44 \<Longrightarrow> slice lo hi (batch_bytes pads b) = slice lo hi (batch_header b)"
  by (simp add: batch_bytes_def batch_covered_def slice_append_left)

lemma DecodeBatch_batch_bytes:
  assumes "encodable_batch b" and "pads_for pads (bRecords b)"
  shows "DecodeBatch (batch_bytes pads b) (bTopic b) (bPartition b) = Inr b"
proof -
  let ?d = "batch_bytes pads b"
  let ?n = "length (bRecords b)"
  let ?l = "records_length (bRecords b)"
  have len: "length ?d = 52 + ?l" using assms(2) by (rule length_batch_bytes)
  have n: "0 < ?n" "?n \<le> 65536" "unat (bBaseOffset b) + ?n \<le> 0x7FFFFFFFFFFFFFFF" "?l + 52 \<le> 67108864"
    "28 * ?n \<le> ?l"
    using assms(1) records_length_ge by (simp_all add: encodable_batch_def)
  have l28: "28 \<le> ?l" using n(1,5) by linarith
  have total: "unat (of_nat (52 + ?l) :: uint32) = 52 + ?l" "unat (of_nat ?n :: uint32) = ?n"
    using n by (simp_all del: of_nat_add)
  have covered: "slice 0 (length ?d - 4) ?d = batch_covered pads b"
    "drop (length ?d - 4) ?d = PutUint32 (CRC32C (batch_covered pads b))"
    by (simp_all add: batch_bytes_def slice_append_first)
  have crc: "slice 0 44 ?d = batch_header b" "slice 44 48 ?d = PutUint32 (CRC32C (batch_header b))"
    by (simp_all add: slice_batch_bytes slice_all) (simp add: batch_bytes_def batch_covered_def field_slices)
  have region: "drop 48 (take (length ?d - 4) ?d) = records_bytes pads (bBaseOffset b) (bRecords b) @ []"
    using covered(1) by (simp add: slice_def batch_covered_def)
  have recs: "decodeBatchRecords ?d (bBaseOffset b) (bTopic b) (bPartition b) ?n (of_nat 0) 48 MinInt64
      = Inr (bRecords b, 48 + ?l, max_timestamp MinInt64 (bRecords b))"
    unfolding decodeBatchRecords_Inr_iff
    using assms region all_record_at_iff [of b "bTopic b" "bPartition b" 0 "bRecords b"] n
    by (auto simp: encodable_batch_def simp del: append_Nil2)
  have range: "validOffsetRange (bBaseOffset b) (of_nat ?n)"
    using n by (simp add: validOffsetRange_unat)
  have bounds: "(of_nat ?n :: uint32) \<noteq> 0" "\<not> MaxBatchRecords < of_nat ?n"
    "\<not> (of_nat (52 + ?l) :: uint32) < 80" "\<not> MaxBatchBytes < of_nat (52 + ?l)"
    using n l28 total by (simp_all add: word_less_nat_alt word_unat_eq_iff del: of_nat_add)
  have fits: "\<not> (ucast (of_nat (52 + ?l) :: uint32) :: uint64) - 52 < ucast (of_nat ?n :: uint32) * 28"
    using n total by (simp add: word_less_nat_alt unat_sub word_le_nat_alt unat_word_ariths del: of_nat_add)
  have hdr: "slice 0 4 ?d = BatchMagic" "slice 4 6 ?d = PutUint16 1" "slice 6 8 ?d = PutUint16 48"
    "slice 8 12 ?d = PutUint32 (of_nat (52 + ?l))"
    "slice 12 16 ?d = PutUint32 (of_nat ?n)"
    "slice 16 24 ?d = PutUint64 (bBaseOffset b)"
    "slice 24 32 ?d = PutUint64 (max_timestamp MinInt64 (bRecords b))"
    "slice 32 36 ?d = PutUint32 0" "slice 36 38 ?d = PutUint16 1" "slice 38 40 ?d = PutUint16 0"
    "slice 40 44 ?d = PutUint32 0"
    by (simp_all add: slice_batch_bytes batch_header_slices)
  show ?thesis
    unfolding DecodeBatch_def hdr crc covered BatchTrailerBytes_def Let_def word_of_bytes_simps total
    using bounds range fits recs len assms(1)
    by (simp add: encodable_batch_def covered del: of_nat_add MinInt64_def MaxBatchBytes_def MaxBatchRecords_def)
qed


lemma batch_prefix_split:
  assumes "48 \<le> length data"
  shows "slice 0 4 data @ slice 4 6 data @ slice 6 8 data @ slice 8 12 data @ slice 12 16 data
    @ slice 16 24 data @ slice 24 32 data @ slice 32 36 data @ slice 36 38 data @ slice 38 40 data
    @ slice 40 44 data = slice 0 44 data"
  using assms by (simp add: join_slices)

lemma DecodeBatch_Inr_backward:
  assumes "DecodeBatch data topic part = Inr b"
  shows "encodable_batch b \<and> bTopic b = topic \<and> bPartition b = part
    \<and> (\<exists>pads. pads_for pads (bRecords b) \<and> data = batch_bytes pads b)"
proof -
  let ?base = "Uint64 (slice 16 24 data)"
  let ?count = "Uint32 (slice 12 16 data)"
  let ?total = "Uint32 (slice 8 12 data)"
  let ?t = "length data - 4"
  from assms obtain records position m where
    len: "48 \<le> length data"
    and hdr: "slice 0 4 data = BatchMagic" "slice 6 8 data = PutUint16 48" "slice 4 6 data = PutUint16 1"
      "slice 36 38 data = PutUint16 1" "slice 32 36 data = replicate 4 0" "slice 38 40 data = replicate 2 0"
      "slice 40 44 data = replicate 4 0"
    and crc: "Uint32 (slice 44 48 data) = CRC32C (slice 0 44 data)"
    and topic: "topic \<noteq> 0"
    and count: "?count \<noteq> 0" "?count \<le> MaxBatchRecords"
    and total: "80 \<le> ?total" "?total \<le> MaxBatchBytes" "unat ?total = length data"
    and range: "validOffsetRange ?base ?count"
    and trailer: "Uint32 (drop ?t data) = CRC32C (slice 0 ?t data)"
    and recs: "decodeBatchRecords data ?base topic part (unat ?count) 0 48 MinInt64
      = Inr (records, position, m)"
    and pos: "position = ?t" and m: "Uint64 (slice 24 32 data) = m"
    and b: "b = \<lparr>bTopic = topic, bPartition = part, bBaseOffset = ?base, bRecords = records\<rparr>"
    by (auto simp: DecodeBatch_def Let_def andThen_Inr_iff word_of_bytes_eq_iff le_bytes_zero not_less
        simp del: MinInt64_def split: if_splits)
  have bf: "bTopic b = topic" "bPartition b = part" "bBaseOffset b = ?base" "bRecords b = records"
    by (simp_all add: b)
  obtain pads t where n: "length records = unat ?count"
    and at: "all_index (record_at ?base topic part) 0 records" and pads: "pads_for pads records"
    and reg: "drop 48 (take ?t data) = records_bytes pads ?base records @ t"
    and p: "position = 48 + records_length records" and mm: "m = max_timestamp MinInt64 records"
    using recs decodeBatchRecords_Inr_iff [of data ?base topic part "unat ?count" 0 48 MinInt64
        records position m]
    by auto
  have tl: "length data = 52 + records_length records"
    using pos p len total by (simp add: word_le_nat_alt)
  have nrec: "length records \<le> 65536"
    using count n by (simp add: word_le_nat_alt)
  have "t = []"
    using arg_cong [OF reg, of length] tl by (simp add: length_records_bytes [OF pads])
  then have body: "slice 48 ?t data = records_bytes pads ?base records"
    using reg by (simp add: slice_def drop_take)
  have enc: "encodable_batch b"
    using topic count total range nrec n tl at all_record_at_iff [OF bf(1,2), of 0 records]
    by (simp add: encodable_batch_def bf validOffsetRange_unat word_le_nat_alt word_unat_eq_iff)
  have tot: "?total = of_nat (52 + records_length records)"
    by (simp flip: tl total(3) del: of_nat_add)
  have hb: "batch_header b = slice 0 44 data"
    unfolding batch_prefix_split [OF len, symmetric] batch_header_def hdr bf
    using len m mm n tot by (simp add: word_of_bytes_eq_iff flip: replicate_add)
  have "slice 0 44 data @ slice 44 48 data @ slice 48 ?t data = slice 0 ?t data"
    using tl by (simp add: join_slices)
  moreover have "slice 44 48 data = PutUint32 (CRC32C (batch_header b))"
    using len crc hb by (simp add: word_of_bytes_eq_iff)
  ultimately have cov: "batch_covered pads b = slice 0 ?t data"
    by (simp only: batch_covered_def bf hb body)
  have "data = slice 0 ?t data @ drop ?t data" by (simp add: slice_def)
  then have "data = batch_bytes pads b"
    using trailer cov len by (simp add: batch_bytes_def word_of_bytes_eq_iff)
  with enc pads bf show ?thesis by auto
qed

lemma DecodeBatch_Inr_iff:
  "DecodeBatch data topic part = Inr b \<longleftrightarrow>
     encodable_batch b \<and> bTopic b = topic \<and> bPartition b = part
     \<and> (\<exists>pads. pads_for pads (bRecords b) \<and> data = batch_bytes pads b)"
  using DecodeBatch_Inr_backward DecodeBatch_batch_bytes by blast

section \<open>Properties\<close>

text \<open>C17. A batch that \<open>EncodeBatch\<close> accepts is returned unchanged by \<open>DecodeBatch\<close>: topic,
  partition, base offset and every record with its offset, timestamp, key, value and headers, nil
  and empty payloads included.\<close>

theorem DecodeBatch_EncodeBatch:
  assumes "EncodeBatch batch = Inr data"
  shows "DecodeBatch data (bTopic batch) (bPartition batch) = Inr batch"
  using assms pads_for_zero_pads
  by (auto simp: EncodeBatch_Inr_iff intro: DecodeBatch_batch_bytes)

definition example_record :: Record where
  "example_record = \<lparr>rTopic = 7, rPartition = 3, rOffset = 41, rTimestamp = 1000, rKey = None,
     rValue = Some [1, 2, 3], rHeaders = [\<lparr>hName = [0x61], hValue = Some []\<rparr>]\<rparr>"

definition example_batch :: RecordBatch where
  "example_batch = \<lparr>bTopic = 7, bPartition = 3, bBaseOffset = 41, bRecords = [example_record]\<rparr>"

lemma encodable_example_record: "encodable_record example_record 41"
  by (simp add: encodable_record_def example_record_def validHeaderName_def record_length_def
      record_tail_def nullable_bytes_def header_bytes_def)

lemma encodable_example_batch: "encodable_batch example_batch"
  using encodable_example_record
  by (simp add: encodable_batch_def record_in_batch_def example_batch_def records_length_def)
    (simp add: example_record_def record_length_def record_tail_def nullable_bytes_def header_bytes_def)

theorem DecodeBatch_EncodeBatch_witness:
  "\<exists>data. EncodeBatch example_batch = Inr data \<and> DecodeBatch data 7 3 = Inr example_batch"
proof -
  obtain data where "EncodeBatch example_batch = Inr data"
    using encodable_example_batch by (simp add: EncodeBatch_Inr_iff)
  with DecodeBatch_EncodeBatch [OF this] show ?thesis
    by (auto simp: example_batch_def)
qed

text \<open>C19. Whatever bytes \<open>DecodeBatch\<close> accepts, the batch it returns is one that the writer
  could have produced: it encodes again, to bytes of the same length that decode to the same batch.
  In particular its records carry the batch's identity, their offsets are contiguous from the base
  offset, and the offset range and every size are within the v1 limits.\<close>

theorem DecodeBatch_encodable:
  assumes "DecodeBatch data topic part = Inr batch"
  shows "\<exists>data'. EncodeBatch batch = Inr data' \<and> length data' = length data
    \<and> DecodeBatch data' topic part = Inr batch
    \<and> bTopic batch = topic \<and> bPartition batch = part
    \<and> (\<forall>i < length (bRecords batch). rOffset (bRecords batch ! i) = bBaseOffset batch + of_nat i)"
proof -
  from assms obtain pads where enc: "encodable_batch batch" and "pads_for pads (bRecords batch)"
    and "data = batch_bytes pads batch" and "bTopic batch = topic" "bPartition batch = part"
    by (auto simp: DecodeBatch_Inr_iff)
  moreover from enc have "all_index (record_in_batch batch) 0 (bRecords batch)"
    by (simp add: encodable_batch_def)
  ultimately show ?thesis
    using pads_for_zero_pads [of "bRecords batch"]
    by (auto simp: EncodeBatch_Inr_iff length_batch_bytes DecodeBatch_batch_bytes all_index_nth
        record_in_batch_def)
qed

theorem DecodeBatch_encodable_witness:
  "\<exists>data data'. DecodeBatch data 7 3 = Inr example_batch \<and> EncodeBatch example_batch = Inr data'
     \<and> length data' = length data"
proof -
  have "DecodeBatch (batch_bytes (zero_pads (bRecords example_batch)) example_batch) 7 3
      = Inr example_batch"
    using DecodeBatch_batch_bytes [OF encodable_example_batch pads_for_zero_pads]
    by (simp add: example_batch_def)
  with DecodeBatch_encodable [OF this] show ?thesis by blast
qed

text \<open>C18. Changing any one byte of a batch that decodes makes \<open>DecodeBatch\<close> report a corrupt
  log, whatever topic and partition it is asked for.\<close>

theorem DecodeBatch_detects_byte:
  assumes "DecodeBatch data topic part = Inr batch" and "i < length data" and "b \<noteq> data ! i"
  shows "DecodeBatch (data[i := b]) topic' part' = Inl (corrupt ErrInvalidBatch)"
proof -
  let ?d = "data[i := b]"
  let ?n = "length data - 4"
  from assms(1) have len: "80 \<le> length data"
    and crc: "Uint32 (slice 44 48 data) = CRC32C (slice 0 44 data)"
    and trailer: "Uint32 (drop ?n data) = CRC32C (slice 0 ?n data)"
    by (auto simp: DecodeBatch_def Let_def word_le_nat_alt not_less split: if_splits)
  have "drop ?n xs = slice ?n (?n + 4) xs" if "length xs = length data" for xs :: bytes
    using that len by (simp add: slice_def)
  then have t: "Uint32 (drop ?n ?d) \<noteq> CRC32C (slice 0 ?n ?d)"
    using checksum_update_mismatch [of ?n data i b] trailer assms len by simp
  show ?thesis
  proof (cases "i < 48")
    case True
    then have "Uint32 (slice 44 48 ?d) \<noteq> CRC32C (slice 0 44 ?d)"
      using checksum_update_mismatch [of 44 data i b] crc assms len by simp
    then show ?thesis by (simp add: DecodeBatch_def)
  next
    case False
    then have "slice lo hi ?d = slice lo hi data" if "hi \<le> 48" for lo hi
      using that assms(2) by (simp add: slice_list_update)
    then show ?thesis
      using t assms(1) len
      by (auto simp: DecodeBatch_def Let_def split: if_splits)
  qed
qed

theorem DecodeBatch_detects_byte_witness:
  "\<exists>data. DecodeBatch data 7 3 = Inr example_batch
     \<and> DecodeBatch (data[60 := data ! 60 + 1]) 7 3 = Inl (corrupt ErrInvalidBatch)"
proof -
  let ?data = "batch_bytes (zero_pads (bRecords example_batch)) example_batch"
  have ok: "DecodeBatch ?data 7 3 = Inr example_batch"
    using DecodeBatch_batch_bytes [OF encodable_example_batch pads_for_zero_pads]
    by (simp add: example_batch_def)
  have "60 < length ?data"
    using length_batch_bytes [OF pads_for_zero_pads, of example_batch] records_length_ge [of "bRecords example_batch"]
    by (simp add: example_batch_def)
  with ok DecodeBatch_detects_byte [OF ok, of 60 "?data ! 60 + 1"] show ?thesis by auto
qed

text \<open>C21. \<open>EncodeRecord\<close> succeeds exactly on the records of the v1 limits: an offset delta of
  32 bits within the offset range, at most 1024 headers with valid UTF-8 names of at most 65535
  bytes, and a body of at most 16 MiB; the body then has the length the record's fields give.\<close>

theorem EncodeRecord_defined:
  "(\<exists>data. EncodeRecord record base = Inr data) \<longleftrightarrow> encodable_record record base"
  by (simp add: EncodeRecord_Inr_iff)

text \<open>C20. A record that \<open>EncodeRecord\<close> accepts is returned unchanged by \<open>DecodeRecord\<close>, and
  the encoding is \<open>record_length\<close> bytes.\<close>

theorem DecodeRecord_EncodeRecord:
  assumes "EncodeRecord record base = Inr data"
  shows "DecodeRecord data base (rTopic record) (rPartition record) = Inr record
    \<and> length data = record_length record"
  using assms decodeRecord_record_bytes [of "record" base "replicate 8 0" None "[]"]
  by (auto simp: EncodeRecord_Inr_iff DecodeRecord_def length_record_bytes)

theorem DecodeRecord_EncodeRecord_witness:
  "\<exists>data. EncodeRecord example_record 41 = Inr data \<and> length data = 48
     \<and> DecodeRecord data 41 7 3 = Inr example_record"
proof -
  obtain data where "EncodeRecord example_record 41 = Inr data"
    using encodable_example_record by (simp add: EncodeRecord_Inr_iff)
  with DecodeRecord_EncodeRecord [OF this] show ?thesis
    by (auto simp: example_record_def record_length_def record_tail_def nullable_bytes_def
        header_bytes_def)
qed

end
