(* ===== verification/Event_Cursor.thy ===== *)
theory Event_Cursor
  imports Format Cursors "HOL-Library.List_Lexorder"
begin

text \<open>
  The reading and writing of event fields: \<open>eventCursor\<close>, the append helpers and the anchors of
  \<open>src/storage/events.go\<close>, and the topic keys and field checks at the end of
  \<open>src/storage/events_validation.go\<close>. Each reader is shown to decode exactly its encoding.
\<close>

section \<open>The event cursor\<close>

record eventCursor =
  eData :: bytes
  ePos :: nat

definition event_cursor :: "bytes \<Rightarrow> eventCursor" where
  "event_cursor data = \<lparr>eData = data, ePos = 0\<rparr>"

definition event_remaining :: "eventCursor \<Rightarrow> nat" where
  "event_remaining c = length (eData c) - ePos c"

definition event_take :: "nat \<Rightarrow> eventCursor \<Rightarrow> (bytes \<times> eventCursor) result" where
  "event_take n c =
     (if n > event_remaining c then Inl (corrupt ErrInvalidRecord)
      else Inr (slice (ePos c) (ePos c + n) (eData c), c\<lparr>ePos := ePos c + n\<rparr>))"

definition event_u8 :: "eventCursor \<Rightarrow> (byte \<times> eventCursor) result" where
  "event_u8 c = andThen (event_take 1 c) (\<lambda>(v, c). Inr (v ! 0, c))"

definition event_u16 :: "eventCursor \<Rightarrow> (uint16 \<times> eventCursor) result" where
  "event_u16 c = andThen (event_take 2 c) (\<lambda>(v, c). Inr (Uint16 v, c))"

definition event_u32 :: "eventCursor \<Rightarrow> (uint32 \<times> eventCursor) result" where
  "event_u32 c = andThen (event_take 4 c) (\<lambda>(v, c). Inr (Uint32 v, c))"

definition event_u64 :: "eventCursor \<Rightarrow> (uint64 \<times> eventCursor) result" where
  "event_u64 c = andThen (event_take 8 c) (\<lambda>(v, c). Inr (Uint64 v, c))"

definition event_id :: "eventCursor \<Rightarrow> (id16 \<times> eventCursor) result" where
  "event_id c = andThen (event_take 16 c) (\<lambda>(v, c). Inr (bytes_id v, c))"

definition bytesContainZero :: "bytes \<Rightarrow> bool" where
  "bytesContainZero v \<longleftrightarrow> list_ex (\<lambda>character. character = 0) v"

definition event_stringValue :: "nat \<Rightarrow> eventCursor \<Rightarrow> (bytes \<times> eventCursor) result" where
  "event_stringValue limit c =
     andThen (event_u32 c) (\<lambda>(len, c).
       if len = 0 \<or> unat len > limit then Inl (corrupt ErrInvalidRecord)
       else
         andThen (event_take (unat len) c) (\<lambda>(v, c).
           if bytesContainZero v \<or> \<not> utf8_Valid v then Inl (corrupt ErrInvalidRecord)
           else Inr (v, c)))"

section \<open>Append helpers\<close>

definition appendU16 :: "bytes \<Rightarrow> uint16 \<Rightarrow> bytes" where
  "appendU16 data v = data @ PutUint16 v"

definition appendU64 :: "bytes \<Rightarrow> uint64 \<Rightarrow> bytes" where
  "appendU64 data v = data @ PutUint64 v"

definition appendID :: "bytes \<Rightarrow> id16 \<Rightarrow> bytes" where
  "appendID data v = data @ id_bytes v"

definition appendEventU32 :: "bytes \<Rightarrow> uint32 \<Rightarrow> bytes" where
  "appendEventU32 data v = data @ PutUint32 v"

definition appendString :: "bytes \<Rightarrow> bytes \<Rightarrow> nat \<Rightarrow> bytes result" where
  "appendString data v limit =
     (if length v = 0 \<or> length v > limit \<or> bytesContainZero v \<or> \<not> utf8_Valid v
      then Inl [ErrInvalidArgument, ErrNew]
      else Inr (appendEventU32 data (of_nat (length v)) @ v))"

section \<open>Anchors, topic keys and field checks\<close>

record eventAnchor =
  anID :: SegmentID
  anHeaderHash :: hash32

definition encodeAnchor :: "bytes \<Rightarrow> eventAnchor \<Rightarrow> bytes result" where
  "encodeAnchor data anchor =
     (if IsZero (anID anchor) \<or> anHeaderHash anchor = 0 then Inl [ErrInvalidArgument, ErrNew]
      else Inr (appendID data (anID anchor) @ hash_bytes (anHeaderHash anchor)))"

definition decodeAnchor :: "eventCursor \<Rightarrow> (eventAnchor \<times> eventCursor) result" where
  "decodeAnchor c =
     andThen (event_id c) (\<lambda>(i, c).
     andThen (event_take 32 c) (\<lambda>(hash, c).
       let anchor = \<lparr>anID = i, anHeaderHash = bytes_hash hash\<rparr>
       in if IsZero (anID anchor) \<or> anHeaderHash anchor = 0 then Inl (corrupt ErrInvalidRecord)
          else Inr (anchor, c)))"

datatype topicKey = TopicKey (tkTopic: TopicID) (tkPartition: uint32)

definition decodeTopicKey :: "eventCursor \<Rightarrow> (topicKey \<times> eventCursor) result" where
  "decodeTopicKey c =
     andThen (event_id c) (\<lambda>(i, c).
       if IsZero i then Inl (corrupt ErrInvalidRecord)
       else
         andThen (event_u32 c) (\<lambda>(part, c).
           if part > MaxInt32 then Inl (corrupt ErrInvalidRecord)
           else Inr (TopicKey i part, c)))"

definition compareTopicKey :: "topicKey \<Rightarrow> topicKey \<Rightarrow> int" where
  "compareTopicKey left right =
     (let comparison = bytes_Compare (id_bytes (tkTopic left)) (id_bytes (tkTopic right))
      in if comparison \<noteq> 0 then comparison
         else if tkPartition left < tkPartition right then -1
         else if tkPartition left > tkPartition right then 1
         else 0)"

definition requireID :: "eventCursor \<Rightarrow> (id16 \<times> eventCursor) result" where
  "requireID c =
     andThen (event_id c) (\<lambda>(i, c).
       if i = 0 then Inl (corrupt ErrInvalidRecord) else Inr (i, c))"

definition expectReserved :: "eventCursor \<Rightarrow> (unit \<times> eventCursor) result" where
  "expectReserved c =
     andThen (event_take 3 c) (\<lambda>(v, c).
       if v ! 0 \<noteq> 0 \<or> v ! 1 \<noteq> 0 \<or> v ! 2 \<noteq> 0 then Inl (corrupt ErrInvalidRecord)
       else Inr ((), c))"

definition finishEvent :: "eventCursor \<Rightarrow> unit result" where
  "finishEvent c = (if event_remaining c \<noteq> 0 then Inl (corrupt ErrInvalidRecord) else Inr ())"

section \<open>The event cursor as a byte cursor\<close>

definition event_rest :: "eventCursor \<Rightarrow> bytes" where
  "event_rest c = drop (ePos c) (eData c)"

definition event_advance :: "nat \<Rightarrow> eventCursor \<Rightarrow> eventCursor" where
  "event_advance n c = c\<lparr>ePos := ePos c + n\<rparr>"

interpretation ev: byte_cursor event_rest event_advance
  by unfold_locales (simp_all add: event_rest_def event_advance_def add.commute add.left_commute)

lemma event_rest_cursor [simp]: "event_rest (event_cursor data) = data"
  by (simp add: event_rest_def event_cursor_def)

lemma event_remaining_rest: "event_remaining c = length (event_rest c)"
  by (simp add: event_remaining_def event_rest_def)

lemma finishEvent_Inr_iff [simp]: "finishEvent c = Inr u \<longleftrightarrow> event_rest c = []"
  by (simp add: finishEvent_def event_remaining_rest)

lemma event_take_rest:
  "event_take n c =
     (if length (event_rest c) < n then Inl (corrupt ErrInvalidRecord)
      else Inr (take n (event_rest c), event_advance n c))"
  by (simp add: event_take_def event_remaining_def event_rest_def event_advance_def slice_def)

lemma ex_append_take: "\<exists>r. xs = take n xs @ r"
  by (metis append_take_drop_id)

lemma event_take_decodes: "ev.decodes (event_take n) (\<lambda>v. v) (\<lambda>v. length v = n)"
  by (rule ev.decodesI) (auto simp: event_take_rest ex_append_take split: if_splits)

lemmas take_reads = ev.decodesD [OF event_take_decodes]

lemma length_1_iff: "length xs = Suc 0 \<longleftrightarrow> (\<exists>x. xs = [x])"
  by (cases xs) auto

lemma event_u8_decodes: "ev.decodes event_u8 (\<lambda>b. [b]) (\<lambda>_. True)"
  unfolding ev.decodes_def by (force simp: event_u8_def andThen_Inr_iff take_reads length_1_iff)

lemma event_u16_decodes: "ev.decodes event_u16 PutUint16 (\<lambda>_. True)"
  unfolding ev.decodes_def by (force simp: event_u16_def andThen_Inr_iff take_reads)

lemma event_u32_decodes: "ev.decodes event_u32 PutUint32 (\<lambda>_. True)"
  unfolding ev.decodes_def by (force simp: event_u32_def andThen_Inr_iff take_reads)

lemma event_u64_decodes: "ev.decodes event_u64 PutUint64 (\<lambda>_. True)"
  unfolding ev.decodes_def by (force simp: event_u64_def andThen_Inr_iff take_reads)

lemma event_id_decodes: "ev.decodes event_id id_bytes (\<lambda>_. True)"
  unfolding ev.decodes_def by (force simp: event_id_def andThen_Inr_iff take_reads)

text \<open>The composed readers.\<close>

definition string_bytes :: "bytes \<Rightarrow> bytes" where
  "string_bytes s = PutUint32 (of_nat (length s)) @ s"

definition string_ok :: "nat \<Rightarrow> bytes \<Rightarrow> bool" where
  "string_ok limit s \<longleftrightarrow> s \<noteq> [] \<and> length s \<le> limit \<and> \<not> bytesContainZero s \<and> utf8_Valid s"

definition anchor_bytes :: "eventAnchor \<Rightarrow> bytes" where
  "anchor_bytes a = id_bytes (anID a) @ hash_bytes (anHeaderHash a)"

definition anchor_ok :: "eventAnchor \<Rightarrow> bool" where
  "anchor_ok a \<longleftrightarrow> anID a \<noteq> 0 \<and> anHeaderHash a \<noteq> 0"

definition key_bytes :: "topicKey \<Rightarrow> bytes" where
  "key_bytes k = id_bytes (tkTopic k) @ PutUint32 (tkPartition k)"

definition key_ok :: "topicKey \<Rightarrow> bool" where
  "key_ok k \<longleftrightarrow> tkTopic k \<noteq> 0 \<and> tkPartition k \<le> MaxInt32"

lemma event_hash_decodes:
  "ev.decodes (\<lambda>c. andThen (event_take 32 c) (\<lambda>(v, c). Inr (bytes_hash v, c))) hash_bytes (\<lambda>_. True)"
  unfolding ev.decodes_def by (force simp: andThen_Inr_iff take_reads)

lemma event_stringValue_decodes:
  assumes "limit < 4294967296"
  shows "ev.decodes (event_stringValue limit) string_bytes (string_ok limit)"
proof -
  have "ev.decodes (event_stringValue limit)
      (\<lambda>w. PutUint32 (of_nat (length w)) @ (\<lambda>w. w) w @ [])
      (\<lambda>w. True \<and> \<not> ((of_nat (length w) :: uint32) = 0 \<or> unat (of_nat (length w) :: uint32) > limit)
         \<and> length w = unat (of_nat (length w) :: uint32) \<and> \<not> (bytesContainZero w \<or> \<not> utf8_Valid w)
         \<and> w = w)"
    unfolding event_stringValue_def
    by (intro ev.decodes_bind [where proj = "\<lambda>w. of_nat (length w)"]
          ev.decodes_bind [where proj = "\<lambda>w. w"] ev.decodes_guard ev.decodes_return
          event_u32_decodes event_take_decodes) auto
  then show ?thesis
  proof (rule ev.decodes_cong)
    fix v :: bytes
    have "length v = unat (of_nat (length v) :: uint32) \<longleftrightarrow> length v < 4294967296"
      using unat_uint32_less [of "of_nat (length v)"] by auto
    with assms show "True \<and> \<not> ((of_nat (length v) :: uint32) = 0 \<or> unat (of_nat (length v) :: uint32) > limit)
         \<and> length v = unat (of_nat (length v) :: uint32) \<and> \<not> (bytesContainZero v \<or> \<not> utf8_Valid v)
         \<and> v = v \<longleftrightarrow> string_ok limit v"
      by (auto simp: string_ok_def word_unat_eq_iff)
  qed (simp add: string_bytes_def)
qed

lemma decodeAnchor_decodes: "ev.decodes decodeAnchor anchor_bytes anchor_ok"
proof -
  have "ev.decodes decodeAnchor
      (\<lambda>w. id_bytes (anID w) @ (\<lambda>v. v) (hash_bytes (anHeaderHash w)) @ [])
      (\<lambda>w. True \<and> length (hash_bytes (anHeaderHash w)) = 32
         \<and> \<not> (anID w = 0 \<or> bytes_hash (hash_bytes (anHeaderHash w)) = 0)
         \<and> w = \<lparr>anID = anID w, anHeaderHash = bytes_hash (hash_bytes (anHeaderHash w))\<rparr>)"
    unfolding decodeAnchor_def Let_def eventAnchor.simps IsZero_def
    by (intro ev.decodes_bind [where proj = anID]
          ev.decodes_bind [where proj = "\<lambda>w. hash_bytes (anHeaderHash w)"] ev.decodes_guard
          ev.decodes_return event_id_decodes event_take_decodes)
      (metis eventAnchor.select_convs bytes_of_word_simps(5))+
  then show ?thesis
    by (rule ev.decodes_cong) (auto simp: anchor_ok_def anchor_bytes_def)
qed

lemma decodeTopicKey_decodes: "ev.decodes decodeTopicKey key_bytes key_ok"
proof -
  have "ev.decodes decodeTopicKey
      (\<lambda>w. id_bytes (tkTopic w) @ PutUint32 (tkPartition w) @ [])
      (\<lambda>w. True \<and> \<not> IsZero (tkTopic w) \<and> True \<and> \<not> tkPartition w > MaxInt32
         \<and> w = TopicKey (tkTopic w) (tkPartition w))"
    unfolding decodeTopicKey_def
    by (intro ev.decodes_bind [where proj = tkTopic] ev.decodes_bind [where proj = tkPartition]
          ev.decodes_guard ev.decodes_return event_id_decodes event_u32_decodes)
      (metis topicKey.sel)+
  then show ?thesis
    by (rule ev.decodes_cong) (auto simp: key_ok_def key_bytes_def)
qed

lemma requireID_decodes: "ev.decodes requireID id_bytes (\<lambda>i. i \<noteq> 0)"
proof -
  have "ev.decodes requireID (\<lambda>w. id_bytes w @ []) (\<lambda>w. True \<and> \<not> w = 0 \<and> w = w)"
    unfolding requireID_def
    by (intro ev.decodes_bind [where proj = "\<lambda>w. w"] ev.decodes_guard ev.decodes_return
          event_id_decodes) auto
  then show ?thesis by (rule ev.decodes_cong) auto
qed

lemma length_3_zero:
  "length v = 3 \<Longrightarrow> v ! 0 \<noteq> 0 \<or> v ! 1 \<noteq> 0 \<or> v ! 2 \<noteq> (0 :: byte) \<longleftrightarrow> v \<noteq> [0, 0, 0]"
  by (auto simp: numeral_3_eq_3 length_Suc_conv)

lemma expectReserved_rest:
  "expectReserved c =
     (if take 3 (event_rest c) = [0, 0, 0] then Inr ((), event_advance 3 c)
      else Inl (corrupt ErrInvalidRecord))"
proof (cases "length (event_rest c) < 3")
  case True
  then have "length (take 3 (event_rest c)) \<noteq> length [0, 0, 0 :: byte]" by simp
  then have "take 3 (event_rest c) \<noteq> [0, 0, 0]" by metis
  with True show ?thesis by (simp add: expectReserved_def event_take_rest)
next
  case False
  then have "length (take 3 (event_rest c)) = 3" by simp
  from length_3_zero [OF this] False show ?thesis
    by (simp only: expectReserved_def event_take_rest) simp
qed

lemma expectReserved_decodes: "ev.decodes expectReserved (\<lambda>_. [0, 0, 0]) (\<lambda>_. True)"
  by (rule ev.decodesI) (auto simp: expectReserved_rest numeral_3_eq_3 split: if_splits,
      metis append_take_drop_id append_Cons append_Nil)

instantiation topicKey :: linorder
begin

definition less_eq_topicKey :: "topicKey \<Rightarrow> topicKey \<Rightarrow> bool" where
  "a \<le> b \<longleftrightarrow> tkTopic a < tkTopic b \<or> tkTopic a = tkTopic b \<and> tkPartition a \<le> tkPartition b"

definition less_topicKey :: "topicKey \<Rightarrow> topicKey \<Rightarrow> bool" where
  "a < b \<longleftrightarrow> tkTopic a < tkTopic b \<or> tkTopic a = tkTopic b \<and> tkPartition a < tkPartition b"

instance
  by standard (auto simp: less_eq_topicKey_def less_topicKey_def intro: topicKey.expand)

end

lemma compareTopicKey_order:
  "compareTopicKey a b = (if a < b then -1 else if b < a then 1 else 0)"
  by (auto simp: compareTopicKey_def Let_def bytes_Compare_be_bytes less_topicKey_def)

lemma compareTopicKey_iff [simp]:
  "compareTopicKey a b < 0 \<longleftrightarrow> a < b" "0 \<le> compareTopicKey a b \<longleftrightarrow> b \<le> a"
  "compareTopicKey a b = 0 \<longleftrightarrow> a = b"
  by (auto simp: compareTopicKey_order)

lemma appendString_Inr_iff [simp]:
  "appendString data s limit = Inr out \<longleftrightarrow> string_ok limit s \<and> out = data @ string_bytes s"
  by (auto simp: appendString_def appendEventU32_def string_ok_def string_bytes_def)

lemma encodeAnchor_Inr_iff [simp]:
  "encodeAnchor data a = Inr out \<longleftrightarrow> anchor_ok a \<and> out = data @ anchor_bytes a"
  by (auto simp: encodeAnchor_def appendID_def anchor_ok_def anchor_bytes_def)

lemma length_field_bytes [simp]:
  "length (anchor_bytes a) = 48" "length (key_bytes k) = 20" "length (string_bytes s) = 4 + length s"
  by (simp_all add: anchor_bytes_def key_bytes_def string_bytes_def)

lemmas append_defs = appendU16_def appendU64_def appendID_def appendEventU32_def

end
