(* ===== verification/Config.thy ===== *)
theory Config
  imports Event_Cursor
begin

text \<open>
  \<open>src/storage/config.go\<close> with the options of \<open>src/storage/partition.go\<close> and the writer limits of
  \<open>src/storage/writer.go\<close>: validation of the durable partition configuration, its 64-byte encoding,
  and the conversion between options and configuration. A \<open>time.Duration\<close> is a \<open>64 word\<close> of
  nanoseconds read as a signed integer.
\<close>

type_synonym Duration = uint64

definition Millisecond :: Duration where [simp]: "Millisecond = 1000000"
definition defaultSegmentBytes :: uint64 where [simp]: "defaultSegmentBytes = 72 + 67108864"
definition DefaultIndexStride :: uint64 where [simp]: "DefaultIndexStride = 4096"
definition defaultInFlightRecords :: uint32 where [simp]: "defaultInFlightRecords = 1024"
definition defaultAdmissionWaiters :: uint32 where [simp]: "defaultAdmissionWaiters = 64"
definition maxInFlightRecords :: uint32 where [simp]: "maxInFlightRecords = 65536"
definition partitionConfigBytes :: nat where [simp]: "partitionConfigBytes = 64"

text \<open>\<open>uint32(BatchHeaderBytes) + BatchTrailerBytes + RecordPrefixBytes\<close>, the least batch.\<close>

definition minimumBatchBytes :: uint32 where [simp]: "minimumBatchBytes = 80"

section \<open>Partition options\<close>

record PartitionOptions =
  oSegmentBytes :: uint64
  oInitialOffset :: uint64
  oIndexStride :: uint64
  oBatchBytes :: uint32
  oBatchRecords :: uint32
  oRecordBytes :: uint32
  oInFlightBytes :: uint64
  oInFlightRecords :: uint32
  oAdmissionWaiters :: uint32
  oBatchLinger :: Duration
  oRetentionTimeEnabled :: bool
  oRetentionSizeEnabled :: bool
  oRetentionDuration :: Duration
  oRetentionBytes :: uint64
  oMaxSegmentAge :: Duration
  oRetentionCheck :: Duration
  oTailSlots :: uint32
  oTailBytes :: uint64

definition zero_options :: PartitionOptions where
  "zero_options =
     \<lparr>oSegmentBytes = 0, oInitialOffset = 0, oIndexStride = 0, oBatchBytes = 0, oBatchRecords = 0,
      oRecordBytes = 0, oInFlightBytes = 0, oInFlightRecords = 0, oAdmissionWaiters = 0,
      oBatchLinger = 0, oRetentionTimeEnabled = False, oRetentionSizeEnabled = False,
      oRetentionDuration = 0, oRetentionBytes = 0, oMaxSegmentAge = 0, oRetentionCheck = 0,
      oTailSlots = 0, oTailBytes = 0\<rparr>"

definition normalizeWriter :: "PartitionOptions \<Rightarrow> PartitionOptions" where
  "normalizeWriter options =
     (let options = (if oBatchBytes options = 0 then options\<lparr>oBatchBytes := MaxBatchBytes\<rparr> else options);
          options = (if oBatchRecords options = 0 then options\<lparr>oBatchRecords := MaxBatchRecords\<rparr> else options);
          options =
            (if oRecordBytes options = 0 then
               let maximum =
                     (if oBatchBytes options > minimumBatchBytes
                         \<and> oBatchBytes options - minimumBatchBytes < MaxRecordBytes
                      then oBatchBytes options - minimumBatchBytes else MaxRecordBytes)
               in options\<lparr>oRecordBytes := maximum\<rparr>
             else options);
          options =
            (if oInFlightBytes options = 0
             then options\<lparr>oInFlightBytes := ucast (oBatchBytes options) * 2\<rparr> else options);
          options =
            (if oInFlightRecords options = 0
             then options\<lparr>oInFlightRecords := defaultInFlightRecords\<rparr> else options)
      in if oAdmissionWaiters options = 0
         then options\<lparr>oAdmissionWaiters := defaultAdmissionWaiters\<rparr> else options)"

definition normalize :: "PartitionOptions \<Rightarrow> PartitionOptions" where
  "normalize options =
     (let options =
            (if oSegmentBytes options = 0 then options\<lparr>oSegmentBytes := defaultSegmentBytes\<rparr> else options);
          options =
            (if oIndexStride options = 0 then options\<lparr>oIndexStride := DefaultIndexStride\<rparr> else options)
      in normalizeWriter options)"

definition validateWriter :: "PartitionOptions \<Rightarrow> unit result" where
  "validateWriter options =
     (if oBatchBytes options < minimumBatchBytes \<or> oBatchBytes options > MaxBatchBytes
      then Inl [ErrInvalidArgument, ErrNew]
      else if oBatchRecords options = 0 \<or> oBatchRecords options > MaxBatchRecords
      then Inl [ErrInvalidArgument, ErrNew]
      else if oRecordBytes options < of_nat RecordPrefixBytes \<or> oRecordBytes options > MaxRecordBytes
      then Inl [ErrInvalidArgument, ErrNew]
      else if oInFlightBytes options = 0 \<or> oInFlightRecords options = 0
           \<or> oAdmissionWaiters options = 0
      then Inl [ErrInvalidArgument, ErrNew]
      else if oInFlightRecords options > maxInFlightRecords then Inl [ErrResourceLimit, ErrNew]
      else if sint (oBatchLinger options) < 0 then Inl [ErrInvalidArgument, ErrNew]
      else Inr ())"

section \<open>The durable configuration\<close>

record PartitionConfigV1 =
  pcMaxRecordBytes :: uint32
  pcMaxBatchBytes :: uint32
  pcMaxBatchRecords :: uint32
  pcSegmentMaxBytes :: uint64
  pcBatchLinger :: Duration
  pcRetentionMask :: byte
  pcRetentionMillis :: uint64
  pcRetentionBytes :: uint64
  pcMaxSegmentAgeMillis :: uint64
  pcRetentionCheckMillis :: uint64

definition validate :: "PartitionConfigV1 \<Rightarrow> bool \<Rightarrow> unit result" where
  "validate config system =
     (let maxMillis = maxOffset div Millisecond
      in if pcMaxRecordBytes config < of_nat RecordPrefixBytes
            \<or> pcMaxRecordBytes config > MaxRecordBytes
         then Inl [ErrInvalidArgument, ErrNew]
         else if pcMaxBatchBytes config < minimumBatchBytes \<or> pcMaxBatchBytes config > MaxBatchBytes
              \<or> pcMaxRecordBytes config + ucast BatchHeaderBytes + of_nat BatchTrailerBytes
                > pcMaxBatchBytes config
         then Inl [ErrInvalidArgument, ErrNew]
         else if pcMaxBatchRecords config = 0 \<or> pcMaxBatchRecords config > MaxBatchRecords
         then Inl [ErrInvalidArgument, ErrNew]
         else if pcSegmentMaxBytes config < ucast SegmentHeaderBytes + ucast (pcMaxBatchBytes config)
              \<or> pcSegmentMaxBytes config > maxOffset
         then Inl [ErrInvalidArgument, ErrNew]
         else if pcRetentionMask config AND NOT 3 \<noteq> 0 then Inl [ErrUnsupportedFormat, ErrNew]
         else if system \<and> pcRetentionMask config \<noteq> 0 then Inl [ErrInvalidArgument, ErrNew]
         else if pcRetentionMask config \<noteq> 0 \<and> pcRetentionCheckMillis config = 0
         then Inl [ErrInvalidArgument, ErrNew]
         else if pcRetentionMask config AND 1 \<noteq> 0 \<and> pcMaxSegmentAgeMillis config = 0
         then Inl [ErrInvalidArgument, ErrNew]
         else if list_ex (\<lambda>millis. millis > maxMillis)
                   [pcRetentionMillis config, pcMaxSegmentAgeMillis config,
                    pcRetentionCheckMillis config]
         then Inl [ErrInvalidArgument, ErrNew]
         else if pcRetentionBytes config > maxOffset then Inl [ErrInvalidArgument, ErrNew]
         else if pcRetentionMask config AND 1 = 0 \<and> pcRetentionMillis config \<noteq> 0
         then Inl [ErrInvalidArgument, ErrNew]
         else if pcRetentionMask config AND 2 = 0 \<and> pcRetentionBytes config \<noteq> 0
         then Inl [ErrInvalidArgument, ErrNew]
         else if pcRetentionMask config = 0 \<and> pcRetentionCheckMillis config \<noteq> 0
         then Inl [ErrInvalidArgument, ErrNew]
         else Inr ())"

definition durationMillis :: "Duration \<Rightarrow> uint32 result" where
  "durationMillis v =
     (if sint v < 0 \<or> v mod Millisecond \<noteq> 0 then Inl [ErrInvalidArgument, ErrNew]
      else
        let millis = v div Millisecond
        in if millis > 0xFFFFFFFF then Inl [ErrInvalidArgument, ErrNew] else Inr (ucast millis))"

definition durationMillis64 :: "Duration \<Rightarrow> uint64 result" where
  "durationMillis64 v =
     (if sint v < 0 \<or> v mod Millisecond \<noteq> 0 then Inl [ErrInvalidArgument, ErrNew]
      else Inr (v div Millisecond))"

definition encodePartitionConfig :: "PartitionConfigV1 \<Rightarrow> bytes result" where
  "encodePartitionConfig config =
     andThen (validate config False) (\<lambda>_.
       let data = replicate partitionConfigBytes 0;
           data = put_at 0 (PutUint16 1) data;
           data = put_at 2 (PutUint16 (of_nat partitionConfigBytes)) data;
           data = put_at 4 (PutUint32 (pcMaxRecordBytes config)) data;
           data = put_at 8 (PutUint32 (pcMaxBatchBytes config)) data;
           data = put_at 12 (PutUint32 (pcMaxBatchRecords config)) data;
           data = put_at 16 (PutUint64 (pcSegmentMaxBytes config)) data
       in andThen (durationMillis (pcBatchLinger config)) (\<lambda>linger.
            let data = put_at 24 (PutUint32 linger) data;
                data = put_at 28 [pcRetentionMask config] data;
                data = put_at 32 (PutUint64 (pcRetentionMillis config)) data;
                data = put_at 40 (PutUint64 (pcRetentionBytes config)) data;
                data = put_at 48 (PutUint64 (pcMaxSegmentAgeMillis config)) data
            in Inr (put_at 56 (PutUint64 (pcRetentionCheckMillis config)) data)))"

definition decodePartitionConfig ::
  "bool \<Rightarrow> eventCursor \<Rightarrow> (PartitionConfigV1 \<times> eventCursor) result" where
  "decodePartitionConfig system c =
     andThen (event_take partitionConfigBytes c) (\<lambda>(data, c).
       if Uint16 (slice 0 2 data) \<noteq> 1 then Inl unsupported
       else if Uint16 (slice 2 4 data) \<noteq> of_nat partitionConfigBytes \<or> data ! 29 \<noteq> 0
            \<or> Uint16 (slice 30 32 data) \<noteq> 0
       then Inl (corrupt ErrInvalidRecord)
       else
         let config =
               \<lparr>pcMaxRecordBytes = Uint32 (slice 4 8 data),
                pcMaxBatchBytes = Uint32 (slice 8 12 data),
                pcMaxBatchRecords = Uint32 (slice 12 16 data),
                pcSegmentMaxBytes = Uint64 (slice 16 24 data),
                pcBatchLinger = ucast (Uint32 (slice 24 28 data)) * Millisecond,
                pcRetentionMask = data ! 28,
                pcRetentionMillis = Uint64 (slice 32 40 data),
                pcRetentionBytes = Uint64 (slice 40 48 data),
                pcMaxSegmentAgeMillis = Uint64 (slice 48 56 data),
                pcRetentionCheckMillis = Uint64 (slice 56 64 data)\<rparr>
         in case validate config system of
              Inl _ \<Rightarrow> Inl (corrupt ErrInvalidRecord)
            | Inr _ \<Rightarrow> Inr (config, c))"

definition configFromOptions :: "PartitionOptions \<Rightarrow> PartitionConfigV1 result" where
  "configFromOptions options =
     (let options = normalize options
      in andThen (durationMillis (oBatchLinger options)) (\<lambda>linger.
         andThen (durationMillis64 (oRetentionDuration options)) (\<lambda>retentionMillis.
         andThen (durationMillis64 (oMaxSegmentAge options)) (\<lambda>maxSegmentAgeMillis.
         andThen (durationMillis64 (oRetentionCheck options)) (\<lambda>retentionCheckMillis.
           let retentionMask = (0 :: byte);
               retentionMask = (if oRetentionTimeEnabled options then retentionMask OR 1 else retentionMask);
               retentionMask = (if oRetentionSizeEnabled options then retentionMask OR 2 else retentionMask)
           in if retentionMask \<noteq> 0 \<and> retentionCheckMillis = 0 then Inl [ErrInvalidArgument, ErrNew]
              else
                let retentionMillis' = (if retentionMask = 0 then 0 else retentionMillis);
                    retentionCheckMillis' = (if retentionMask = 0 then 0 else retentionCheckMillis);
                    config =
                      \<lparr>pcMaxRecordBytes = oRecordBytes options, pcMaxBatchBytes = oBatchBytes options,
                       pcMaxBatchRecords = oBatchRecords options,
                       pcSegmentMaxBytes = oSegmentBytes options,
                       pcBatchLinger = ucast linger * Millisecond, pcRetentionMask = retentionMask,
                       pcRetentionMillis = (if retentionMask AND 1 = 0 then 0 else retentionMillis'),
                       pcRetentionBytes =
                         (if retentionMask AND 2 = 0 then 0 else oRetentionBytes options),
                       pcMaxSegmentAgeMillis = maxSegmentAgeMillis,
                       pcRetentionCheckMillis = retentionCheckMillis'\<rparr>
                in andThen (validate config False) (\<lambda>_. Inr config))))))"

definition config_options :: "PartitionConfigV1 \<Rightarrow> PartitionOptions" where
  "config_options config =
     normalize (zero_options
       \<lparr>oSegmentBytes := pcSegmentMaxBytes config, oBatchBytes := pcMaxBatchBytes config,
        oBatchRecords := pcMaxBatchRecords config, oRecordBytes := pcMaxRecordBytes config,
        oBatchLinger := pcBatchLinger config,
        oRetentionTimeEnabled := pcRetentionMask config AND 1 \<noteq> 0,
        oRetentionSizeEnabled := pcRetentionMask config AND 2 \<noteq> 0,
        oRetentionDuration := pcRetentionMillis config * Millisecond,
        oRetentionBytes := pcRetentionBytes config,
        oMaxSegmentAge := pcMaxSegmentAgeMillis config * Millisecond,
        oRetentionCheck := pcRetentionCheckMillis config * Millisecond\<rparr>)"

definition systemPartitionConfig :: PartitionConfigV1 where
  "systemPartitionConfig =
     \<lparr>pcMaxRecordBytes = MaxRecordBytes, pcMaxBatchBytes = MaxBatchBytes,
      pcMaxBatchRecords = MaxBatchRecords, pcSegmentMaxBytes = defaultSegmentBytes,
      pcBatchLinger = 0, pcRetentionMask = 0, pcRetentionMillis = 0, pcRetentionBytes = 0,
      pcMaxSegmentAgeMillis = 0, pcRetentionCheckMillis = 0\<rparr>"

lemma linger_bounds:
  fixes k :: uint32
  defines "d \<equiv> ucast k * 1000000 :: uint64"
  shows "unat d = unat k * 1000000" and "\<not> sint d < 0" and "d div 1000000 = ucast k"
    and "d mod 1000000 = 0"
proof -
  have k: "unat k < 4294967296" by (rule unat_uint32_less)
  show u: "unat d = unat k * 1000000"
    using k by (simp add: d_def unat_word_ariths)
  then show "\<not> sint d < 0" using k by (simp add: sint_neg_iff)
  show "d div 1000000 = ucast k"
    using u by (simp add: word_unat_eq_iff unat_div_distrib)
  show "d mod 1000000 = 0"
    using u by (simp add: word_unat_eq_iff unat_mod_distrib)
qed

lemma durationMillis_Inr_iff: "durationMillis d = Inr k \<longleftrightarrow> d = ucast k * 1000000"
proof
  assume "durationMillis d = Inr k"
  then have m: "d mod 1000000 = 0" and b: "d div 1000000 \<le> 0xFFFFFFFF" and k: "k = ucast (d div 1000000)"
    by (auto simp: durationMillis_def Let_def not_less split: if_splits)
  have "ucast k = d div 1000000"
    unfolding k using b by (intro ucast_64_32_64) (simp add: word_le_nat_alt)
  with m show "d = ucast k * 1000000"
    by (metis add.right_neutral div_mult_mod_eq)
next
  assume d: "d = ucast k * 1000000"
  have "\<not> (0xFFFFFFFF :: uint64) < ucast k"
    using unat_uint32_less [of k] by (simp add: word_less_nat_alt)
  with d show "durationMillis d = Inr k"
    using linger_bounds [of k] by (simp add: durationMillis_def)
qed

lemma durationMillis64_mult:
  assumes "m \<le> maxOffset div Millisecond"
  shows "durationMillis64 (m * Millisecond) = Inr m"
proof -
  have m: "unat m \<le> 9223372036854"
    using assms by (simp add: word_le_nat_alt unat_div_distrib)
  then have u: "unat (m * 1000000) = unat m * 1000000"
    by (simp add: unat_word_ariths)
  then have "\<not> sint (m * 1000000) < 0" using m by (simp add: sint_neg_iff)
  moreover have "m * 1000000 mod 1000000 = 0" "m * 1000000 div 1000000 = m"
    using u by (simp_all add: word_unat_eq_iff unat_mod_distrib unat_div_distrib)
  ultimately show ?thesis by (simp add: durationMillis64_def)
qed

definition config_fields :: "PartitionConfigV1 \<Rightarrow> bytes" where
  "config_fields c =
     PutUint16 1 @ PutUint16 64 @ PutUint32 (pcMaxRecordBytes c) @ PutUint32 (pcMaxBatchBytes c)
     @ PutUint32 (pcMaxBatchRecords c) @ PutUint64 (pcSegmentMaxBytes c)
     @ PutUint32 (ucast (pcBatchLinger c div Millisecond)) @ [pcRetentionMask c, 0, 0, 0]
     @ PutUint64 (pcRetentionMillis c) @ PutUint64 (pcRetentionBytes c)
     @ PutUint64 (pcMaxSegmentAgeMillis c) @ PutUint64 (pcRetentionCheckMillis c)"

definition config_ok :: "bool \<Rightarrow> PartitionConfigV1 \<Rightarrow> bool" where
  "config_ok system c \<longleftrightarrow> validate c system = Inr () \<and> (\<exists>k :: uint32. pcBatchLinger c = ucast k * Millisecond)"

lemma length_config_fields [simp]: "length (config_fields c) = 64"
  by (simp add: config_fields_def)

lemma replicate_3: "replicate 3 x = [x, x, x]"
  by (simp add: numeral_3_eq_3)

lemma encodePartitionConfig_Inr_iff:
  "encodePartitionConfig c = Inr out \<longleftrightarrow> config_ok False c \<and> out = config_fields c"
  by (auto simp: linger_bounds encodePartitionConfig_def andThen_Inr_iff durationMillis_Inr_iff Let_def config_ok_def
      put_at_replicate put_at_buf config_fields_def replicate_3)

definition config_of_bytes :: "bytes \<Rightarrow> PartitionConfigV1" where
  "config_of_bytes data =
     \<lparr>pcMaxRecordBytes = Uint32 (slice 4 8 data), pcMaxBatchBytes = Uint32 (slice 8 12 data),
      pcMaxBatchRecords = Uint32 (slice 12 16 data), pcSegmentMaxBytes = Uint64 (slice 16 24 data),
      pcBatchLinger = ucast (Uint32 (slice 24 28 data)) * Millisecond, pcRetentionMask = data ! 28,
      pcRetentionMillis = Uint64 (slice 32 40 data), pcRetentionBytes = Uint64 (slice 40 48 data),
      pcMaxSegmentAgeMillis = Uint64 (slice 48 56 data),
      pcRetentionCheckMillis = Uint64 (slice 56 64 data)\<rparr>"

lemma slice_single: "Suc i = j \<Longrightarrow> j \<le> length xs \<Longrightarrow> slice i j xs = [xs ! i]"
  by (auto simp: slice_def take_Suc_conv_app_nth hd_drop_conv_nth take_Suc)

lemma config_of_fields:
  assumes "\<exists>k :: uint32. pcBatchLinger c = ucast k * Millisecond"
  shows "config_of_bytes (config_fields c) = c"
    and "Uint16 (slice 0 2 (config_fields c)) = 1" and "Uint16 (slice 2 4 (config_fields c)) = 64"
    and "config_fields c ! 29 = 0" and "Uint16 (slice 30 32 (config_fields c)) = 0"
proof -
  define M where "M = [pcRetentionMask c, 0, 0, 0]"
  have M: "length M = 4" "slice 2 4 M = [0, 0]" by (simp_all add: M_def slice_def)
  note f = config_fields_def [of c, folded M_def]
  have mask: "config_fields c ! 28 = pcRetentionMask c" and z: "config_fields c ! 29 = 0"
    by (simp_all add: config_fields_def nth_append)
  have "slice 4 8 (config_fields c) = PutUint32 (pcMaxRecordBytes c)"
    "slice 8 12 (config_fields c) = PutUint32 (pcMaxBatchBytes c)"
    "slice 12 16 (config_fields c) = PutUint32 (pcMaxBatchRecords c)"
    "slice 16 24 (config_fields c) = PutUint64 (pcSegmentMaxBytes c)"
    "slice 24 28 (config_fields c) = PutUint32 (ucast (pcBatchLinger c div Millisecond))"
    "slice 32 40 (config_fields c) = PutUint64 (pcRetentionMillis c)"
    "slice 40 48 (config_fields c) = PutUint64 (pcRetentionBytes c)"
    "slice 48 56 (config_fields c) = PutUint64 (pcMaxSegmentAgeMillis c)"
    "slice 56 64 (config_fields c) = PutUint64 (pcRetentionCheckMillis c)"
    by (simp_all add: f field_slices M del: Millisecond_def)
  then show "config_of_bytes (config_fields c) = c"
    using assms mask by (auto simp: config_of_bytes_def linger_bounds)
  show "config_fields c ! 29 = 0" by (rule z)
  show "Uint16 (slice 0 2 (config_fields c)) = 1" "Uint16 (slice 2 4 (config_fields c)) = 64"
    by (simp_all add: f field_slices)
  show "Uint16 (slice 30 32 (config_fields c)) = 0"
    by (simp add: f field_slices M slice_append_left)
qed

lemma replicate_2: "replicate 2 x = [x, x]"
  by (simp add: numeral_2_eq_2)

lemma fields_of_config:
  assumes "length data = 64" and "Uint16 (slice 0 2 data) = 1" and "Uint16 (slice 2 4 data) = 64"
    and "data ! 29 = 0" and "Uint16 (slice 30 32 data) = 0"
  shows "config_fields (config_of_bytes data) = data"
proof -
  have "slice 0 2 data = PutUint16 1" "slice 2 4 data = PutUint16 64" "slice 30 32 data = [0, 0]"
    using assms by (simp_all add: word_of_bytes_eq_iff le_bytes_zero replicate_2)
  moreover have "slice 28 29 data = [data ! 28]" "slice 29 30 data = [0]"
    using assms by (simp_all add: slice_single)
  ultimately have "config_fields (config_of_bytes data) =
     slice 0 2 data @ slice 2 4 data @ slice 4 8 data @ slice 8 12 data @ slice 12 16 data
     @ slice 16 24 data @ slice 24 28 data @ slice 28 29 data @ slice 29 30 data @ slice 30 32 data
     @ slice 32 40 data @ slice 40 48 data @ slice 48 56 data @ slice 56 64 data"
    using assms(1) by (simp add: config_fields_def config_of_bytes_def linger_bounds)
  also have "\<dots> = data"
    using assms(1) by (simp add: join_slices)
  finally show ?thesis .
qed

lemma decodePartitionConfig_decodes:
  "ev.decodes (decodePartitionConfig system) config_fields (config_ok system)"
proof -
  have case_if: "(case r of Inl _ \<Rightarrow> Inl e | Inr _ \<Rightarrow> Inr x) = (if r \<noteq> Inr () then Inl e else Inr x)"
    for r :: "unit result" and e :: error and x :: "PartitionConfigV1 \<times> eventCursor"
    by (cases r) auto
  let ?ok = "\<lambda>data. \<not> Uint16 (slice 0 2 data) \<noteq> 1 \<and> \<not> (Uint16 (slice 2 4 data) \<noteq> 64 \<or> data ! 29 \<noteq> 0
         \<or> Uint16 (slice 30 32 data) \<noteq> 0)"
  have "ev.decodes (decodePartitionConfig system) (\<lambda>w. (\<lambda>v. v) (config_fields w) @ [])
      (\<lambda>w. length (config_fields w) = 64
         \<and> \<not> Uint16 (slice 0 2 (config_fields w)) \<noteq> 1
         \<and> \<not> (Uint16 (slice 2 4 (config_fields w)) \<noteq> 64 \<or> config_fields w ! 29 \<noteq> 0
              \<or> Uint16 (slice 30 32 (config_fields w)) \<noteq> 0)
         \<and> \<not> validate (config_of_bytes (config_fields w)) system \<noteq> Inr ()
         \<and> w = config_of_bytes (config_fields w))"
    unfolding decodePartitionConfig_def Let_def config_of_bytes_def [symmetric] case_if partitionConfigBytes_def of_nat_numeral
    by (intro ev.decodes_bind [where proj = config_fields] ev.decodes_guard ev.decodes_return
          event_take_decodes) (use fields_of_config in blast)
  then show ?thesis
  proof (rule ev.decodes_cong)
    fix w
    show "length (config_fields w) = 64
         \<and> \<not> Uint16 (slice 0 2 (config_fields w)) \<noteq> 1
         \<and> \<not> (Uint16 (slice 2 4 (config_fields w)) \<noteq> 64 \<or> config_fields w ! 29 \<noteq> 0
              \<or> Uint16 (slice 30 32 (config_fields w)) \<noteq> 0)
         \<and> \<not> validate (config_of_bytes (config_fields w)) system \<noteq> Inr ()
         \<and> w = config_of_bytes (config_fields w) \<longleftrightarrow> config_ok system w"
    proof
      assume a: "config_ok system w"
      then show "length (config_fields w) = 64 \<and> \<not> Uint16 (slice 0 2 (config_fields w)) \<noteq> 1
         \<and> \<not> (Uint16 (slice 2 4 (config_fields w)) \<noteq> 64 \<or> config_fields w ! 29 \<noteq> 0
              \<or> Uint16 (slice 30 32 (config_fields w)) \<noteq> 0)
         \<and> \<not> validate (config_of_bytes (config_fields w)) system \<noteq> Inr ()
         \<and> w = config_of_bytes (config_fields w)"
        using config_of_fields [of w] by (simp add: config_ok_def)
    next
      assume a: "length (config_fields w) = 64 \<and> \<not> Uint16 (slice 0 2 (config_fields w)) \<noteq> 1
         \<and> \<not> (Uint16 (slice 2 4 (config_fields w)) \<noteq> 64 \<or> config_fields w ! 29 \<noteq> 0
              \<or> Uint16 (slice 30 32 (config_fields w)) \<noteq> 0)
         \<and> \<not> validate (config_of_bytes (config_fields w)) system \<noteq> Inr ()
         \<and> w = config_of_bytes (config_fields w)"
      then have "pcBatchLinger w = ucast (Uint32 (slice 24 28 (config_fields w))) * Millisecond"
        by (metis (no_types, lifting) PartitionConfigV1.select_convs(5) config_of_bytes_def)
      with a show "config_ok system w" unfolding config_ok_def by metis
    qed
  qed simp
qed

section \<open>Options and configurations\<close>

lemma retention_mask_cases:
  assumes "(m :: byte) AND NOT 3 = 0"
  shows "m = 0 \<or> m = 1 \<or> m = 2 \<or> m = 3"
proof -
  have "m = m AND 3"
  proof (rule bit_word_eqI)
    fix n
    have "\<not> bit (m AND NOT 3) n" using assms by simp
    then show "bit m n = bit (m AND 3) n" if "n < LENGTH(8)"
      using that by (auto simp: bit_simps)
  qed
  also have "\<dots> = take_bit 2 m" by (simp add: take_bit_eq_mask mask_numeral)
  finally have "unat m < 4"
    by (metis take_bit_nat_less_exp unsigned_take_bit_eq numeral_Bit0 power2_eq_square
        mult_2 num_double numeral_times_numeral)
  then have "unat m = 0 \<or> unat m = 1 \<or> unat m = 2 \<or> unat m = 3" by linarith
  then show ?thesis by (auto simp: word_unat_eq_iff)
qed

lemma validate_Inr_bounds:
  assumes "validate c False = Inr ()"
  shows "pcMaxRecordBytes c \<noteq> 0" and "pcMaxBatchBytes c \<noteq> 0" and "pcMaxBatchRecords c \<noteq> 0"
    and "pcSegmentMaxBytes c \<noteq> 0" and "pcRetentionMask c AND NOT 3 = 0"
    and "pcRetentionMillis c \<le> maxOffset div Millisecond"
    and "pcMaxSegmentAgeMillis c \<le> maxOffset div Millisecond"
    and "pcRetentionCheckMillis c \<le> maxOffset div Millisecond"
    and "pcRetentionMask c \<noteq> 0 \<Longrightarrow> pcRetentionCheckMillis c \<noteq> 0"
    and "pcRetentionMask c AND 1 = 0 \<Longrightarrow> pcRetentionMillis c = 0"
    and "pcRetentionMask c AND 2 = 0 \<Longrightarrow> pcRetentionBytes c = 0"
    and "pcRetentionMask c = 0 \<Longrightarrow> pcRetentionCheckMillis c = 0"
proof -
  have b: "pcMaxBatchBytes c \<le> MaxBatchBytes" "80 \<le> pcMaxBatchBytes c"
    "72 + ucast (pcMaxBatchBytes c) \<le> pcSegmentMaxBytes c"
    using assms by (auto simp: validate_def Let_def not_less split: if_splits)
  then have "unat (72 + ucast (pcMaxBatchBytes c) :: uint64) = 72 + unat (pcMaxBatchBytes c)"
    by (simp add: unat_word_ariths word_le_nat_alt)
  with b show "pcSegmentMaxBytes c \<noteq> 0"
    by (auto simp: word_le_nat_alt)
qed (use assms in \<open>auto simp: validate_def Let_def not_less split: if_splits\<close>)

lemma normalize_keeps [simp]:
  "oBatchLinger (normalize o') = oBatchLinger o'"
  "oRetentionTimeEnabled (normalize o') = oRetentionTimeEnabled o'"
  "oRetentionSizeEnabled (normalize o') = oRetentionSizeEnabled o'"
  "oRetentionDuration (normalize o') = oRetentionDuration o'"
  "oRetentionBytes (normalize o') = oRetentionBytes o'"
  "oMaxSegmentAge (normalize o') = oMaxSegmentAge o'"
  "oRetentionCheck (normalize o') = oRetentionCheck o'"
  by (simp_all add: normalize_def normalizeWriter_def Let_def)

lemma normalize_nonzero [simp]:
  "oSegmentBytes o' \<noteq> 0 \<Longrightarrow> oSegmentBytes (normalize o') = oSegmentBytes o'"
  "oBatchBytes o' \<noteq> 0 \<Longrightarrow> oBatchBytes (normalize o') = oBatchBytes o'"
  "oBatchRecords o' \<noteq> 0 \<Longrightarrow> oBatchRecords (normalize o') = oBatchRecords o'"
  "oRecordBytes o' \<noteq> 0 \<Longrightarrow> oRecordBytes (normalize o') = oRecordBytes o'"
  by (simp_all add: normalize_def normalizeWriter_def Let_def)

lemma configFromOptions_config_options:
  assumes "config_ok False c"
  shows "configFromOptions (config_options c) = Inr c"
proof -
  have v: "validate c False = Inr ()" using assms by (simp add: config_ok_def)
  obtain k :: uint32 where k: "pcBatchLinger c = ucast k * 1000000"
    using assms by (auto simp: config_ok_def)
  note b = validate_Inr_bounds [OF v]
  define m where "m = pcRetentionMask c"
  have cfg: "\<lparr>pcMaxRecordBytes = pcMaxRecordBytes c, pcMaxBatchBytes = pcMaxBatchBytes c,
      pcMaxBatchRecords = pcMaxBatchRecords c, pcSegmentMaxBytes = pcSegmentMaxBytes c,
      pcBatchLinger = ucast k * Millisecond, pcRetentionMask = m,
      pcRetentionMillis = (if m AND 1 = 0 then 0 else if m = 0 then 0 else pcRetentionMillis c),
      pcRetentionBytes = (if m AND 2 = 0 then 0 else pcRetentionBytes c),
      pcMaxSegmentAgeMillis = pcMaxSegmentAgeMillis c,
      pcRetentionCheckMillis = (if m = 0 then 0 else pcRetentionCheckMillis c)\<rparr> = c"
    using b k by (auto simp: m_def)
  have d: "durationMillis (pcBatchLinger c) = Inr k"
    using k by (simp add: durationMillis_Inr_iff)
  note e = b(6,7,8) [THEN durationMillis64_mult]
  consider "m = 0" | "m = 1" | "m = 2" | "m = 3"
    using retention_mask_cases [OF b(5)] by (auto simp: m_def)
  then show ?thesis
    by cases (use b(1-4,9) d e v cfg in
      \<open>simp_all add: configFromOptions_def config_options_def Let_def zero_options_def m_def [symmetric]
        del: Millisecond_def\<close>)
qed

section \<open>Properties\<close>

text \<open>C28. On 64 bytes the configuration decoder accepts exactly the bytes that the encoder
  produces, and returns the encoded configuration.\<close>

theorem decodePartitionConfig_exact:
  assumes "length data = 64"
  shows "(\<exists>c. decodePartitionConfig False (event_cursor data) = Inr (config, c))
    \<longleftrightarrow> encodePartitionConfig config = Inr data"
proof
  assume "\<exists>c. decodePartitionConfig False (event_cursor data) = Inr (config, c)"
  then obtain r where "config_ok False config" and r: "data = config_fields config @ r"
    by (auto simp: ev.decodesD [OF decodePartitionConfig_decodes])
  moreover have "r = []" using assms r by simp
  ultimately show "encodePartitionConfig config = Inr data"
    by (simp add: encodePartitionConfig_Inr_iff)
qed (auto simp: encodePartitionConfig_Inr_iff ev.decodesD [OF decodePartitionConfig_decodes])

theorem decodePartitionConfig_exact_witness:
  "\<exists>data c. length data = 64 \<and> encodePartitionConfig systemPartitionConfig = Inr data
     \<and> decodePartitionConfig False (event_cursor data) = Inr (systemPartitionConfig, c)"
proof -
  have "config_ok False systemPartitionConfig"
    by (simp add: config_ok_def systemPartitionConfig_def validate_def Let_def)
      (intro exI [of _ 0], simp)
  then have e: "encodePartitionConfig systemPartitionConfig = Inr (config_fields systemPartitionConfig)"
    by (simp add: encodePartitionConfig_Inr_iff)
  with decodePartitionConfig_exact [OF length_config_fields] show ?thesis
    using length_config_fields by metis
qed

text \<open>C29. Every configuration that options resolve to can be encoded, and the options made back
  from it resolve to the same configuration: no policy is lost between the caller's options, the
  durable catalog event and the options a partition is reopened with.\<close>

theorem configFromOptions_stable:
  assumes "configFromOptions options = Inr config"
  shows "(\<exists>data. encodePartitionConfig config = Inr data)
    \<and> configFromOptions (config_options config) = Inr config"
proof -
  have "validate config False = Inr ()" and "\<exists>k :: uint32. pcBatchLinger config = ucast k * Millisecond"
    using assms unfolding configFromOptions_def Let_def
    by (auto simp: andThen_Inr_iff simp del: Millisecond_def split: if_splits)
  then have "config_ok False config"
    unfolding config_ok_def by blast
  then show ?thesis
    using configFromOptions_config_options by (auto simp: encodePartitionConfig_Inr_iff)
qed

theorem configFromOptions_stable_witness:
  "\<exists>config. configFromOptions (zero_options\<lparr>oRetentionSizeEnabled := True, oRetentionBytes := 1000,
        oRetentionCheck := 5000000\<rparr>) = Inr config
     \<and> pcRetentionMask config = 2 \<and> pcRetentionCheckMillis config = 5
     \<and> configFromOptions (config_options config) = Inr config"
proof -
  have "\<not> sint (5000000 :: uint64) < 0" by (simp add: sint_neg_iff)
  then have "\<exists>config. configFromOptions (zero_options\<lparr>oRetentionSizeEnabled := True, oRetentionBytes := 1000,
        oRetentionCheck := 5000000\<rparr>) = Inr config
     \<and> pcRetentionMask config = 2 \<and> pcRetentionCheckMillis config = 5"
    by (simp add: configFromOptions_def normalize_def normalizeWriter_def zero_options_def Let_def
        durationMillis_def durationMillis64_def validate_def)
  with configFromOptions_stable show ?thesis by metis
qed

end
