(* ===== verification/Events.thy ===== *)
theory Events
  imports Codec Config
begin

text \<open>
  The system events of \<open>src/storage/events.go\<close> and \<open>src/storage/retention_event.go\<close>: the payloads
  of \<open>StoreInitialized\<close>, \<open>TopicCreated\<close> and \<open>PartitionLogStartAdvanced\<close>, the 16-byte envelope
  that carries them as the value of a record, and topic names.
\<close>

type_synonym StoreID = id16

definition eventMagic :: bytes where
  "eventMagic = [0x49, 0x45, 0x4C, 0x45]"

definition eventEnvelopeLen :: nat where [simp]: "eventEnvelopeLen = 16"
definition maxTopicNameLen :: nat where [simp]: "maxTopicNameLen = 249"
definition maxTopicPartitions :: nat where [simp]: "maxTopicPartitions = 65536"

text \<open>\<open>int(MaxRecordBytes)-RecordPrefixBytes-8-eventEnvelopeLen\<close>\<close>

definition maxEventPayload :: nat where [simp]: "maxEventPayload = 16777216 - 28 - 8 - 16"

section \<open>Store initialisation\<close>

record storeInitializedEvent =
  siStoreID :: StoreID
  siCatalogInitial :: eventAnchor
  siOffsetsInitial :: eventAnchor
  siCatalogConfig :: PartitionConfigV1
  siOffsetsConfig :: PartitionConfigV1

definition encodeStoreInitializedPayload :: "storeInitializedEvent \<Rightarrow> bytes result" where
  "encodeStoreInitializedPayload event =
     (if siStoreID event = 0 then Inl [ErrInvalidArgument, ErrNew]
      else
        andThen (encodePartitionConfig (siCatalogConfig event)) (\<lambda>catalogConfig.
        andThen (encodePartitionConfig (siOffsetsConfig event)) (\<lambda>offsetsConfig.
        andThen (encodeAnchor (id_bytes (siStoreID event)) (siCatalogInitial event)) (\<lambda>data.
        andThen (encodeAnchor data (siOffsetsInitial event)) (\<lambda>data.
          let data = data @ catalogConfig;
              data = data @ offsetsConfig
          in if length data \<noteq> 240 then Inl [ErrNew] else Inr data)))))"

definition decodeStoreInitializedPayload :: "bytes \<Rightarrow> storeInitializedEvent result" where
  "decodeStoreInitializedPayload data =
     (if length data \<noteq> 240 then Inl (corrupt ErrInvalidRecord)
      else
        andThen (event_id (event_cursor data)) (\<lambda>(storeID, c).
          if storeID = 0 then Inl (corrupt ErrInvalidRecord)
          else
            andThen (decodeAnchor c) (\<lambda>(catalogInitial, c).
            andThen (decodeAnchor c) (\<lambda>(offsetsInitial, c).
            andThen (decodePartitionConfig True c) (\<lambda>(catalogConfig, c).
            andThen (decodePartitionConfig True c) (\<lambda>(offsetsConfig, c).
              if event_remaining c \<noteq> 0 then Inl (corrupt ErrInvalidRecord)
              else Inr \<lparr>siStoreID = storeID, siCatalogInitial = catalogInitial,
                        siOffsetsInitial = offsetsInitial, siCatalogConfig = catalogConfig,
                        siOffsetsConfig = offsetsConfig\<rparr>))))))"

section \<open>Topic creation\<close>

record topicCreatedPartition =
  tpPartition :: uint32
  tpConfig :: PartitionConfigV1
  tpInitial :: eventAnchor

record topicCreatedEvent =
  tcStoreID :: StoreID
  tcExpectedCatalogNext :: uint64
  tcTopicID :: TopicID
  tcName :: bytes
  tcPartitions :: "topicCreatedPartition list"

definition validTopicName :: "bytes \<Rightarrow> bool" where
  "validTopicName name \<longleftrightarrow>
     \<not> (length name = 0 \<or> length name > maxTopicNameLen \<or> take 2 name = [0x5F, 0x5F]
        \<or> name = [0x2E] \<or> name = [0x2E, 0x2E])
     \<and> list_all (\<lambda>ch. (0x61 \<le> ch \<and> ch \<le> 0x7A) \<or> (0x41 \<le> ch \<and> ch \<le> 0x5A) \<or> (0x30 \<le> ch \<and> ch \<le> 0x39)
          \<or> ch = 0x2E \<or> ch = 0x5F \<or> ch = 0x2D) name"

definition reserved_topic :: "TopicID \<Rightarrow> bool" where
  "reserved_topic i \<longleftrightarrow> IsZero i \<or> i = ClusterMetadataTopicID \<or> i = ConsumerOffsetsTopicID"

fun encodeTopicPartitions :: "nat \<Rightarrow> topicCreatedPartition list \<Rightarrow> bytes \<Rightarrow> bytes result" where
  "encodeTopicPartitions index [] data = Inr data"
| "encodeTopicPartitions index (p # ps) data =
     (if tpPartition p \<noteq> of_nat index then Inl [ErrInvalidArgument, ErrNew]
      else
        let data = appendEventU32 data (tpPartition p)
        in andThen (encodePartitionConfig (tpConfig p)) (\<lambda>config.
           andThen (encodeAnchor (data @ config) (tpInitial p)) (\<lambda>data.
             encodeTopicPartitions (Suc index) ps data)))"

definition encodeTopicCreatedPayload :: "topicCreatedEvent \<Rightarrow> bytes result" where
  "encodeTopicCreatedPayload event =
     (if tcStoreID event = 0 \<or> reserved_topic (tcTopicID event) then Inl [ErrInvalidArgument, ErrNew]
      else if length (tcPartitions event) = 0 \<or> length (tcPartitions event) > maxTopicPartitions
      then Inl [ErrInvalidArgument, ErrNew]
      else
        let data = id_bytes (tcStoreID event);
            data = appendU64 data (tcExpectedCatalogNext event);
            data = appendID data (tcTopicID event)
        in andThen (appendString data (tcName event) maxTopicNameLen) (\<lambda>data.
           let data = appendEventU32 data (of_nat (length (tcPartitions event)))
           in andThen (encodeTopicPartitions 0 (tcPartitions event) data) (\<lambda>data.
              if length data > maxEventPayload then Inl [ErrRecordTooLarge, ErrNew] else Inr data)))"

definition decodeTopicPartition ::
  "nat \<Rightarrow> eventCursor \<Rightarrow> (topicCreatedPartition \<times> eventCursor) result" where
  "decodeTopicPartition index c =
     andThen (event_u32 c) (\<lambda>(part, c).
       if part \<noteq> of_nat index then Inl (corrupt ErrInvalidRecord)
       else
         andThen (decodePartitionConfig False c) (\<lambda>(config, c).
         andThen (decodeAnchor c) (\<lambda>(anchor, c).
           Inr (\<lparr>tpPartition = part, tpConfig = config, tpInitial = anchor\<rparr>, c))))"

definition decodeTopicCreatedPayload :: "bytes \<Rightarrow> topicCreatedEvent result" where
  "decodeTopicCreatedPayload data =
     andThen (event_id (event_cursor data)) (\<lambda>(storeID, c).
       if storeID = 0 then Inl (corrupt ErrInvalidRecord)
       else
         andThen (event_u64 c) (\<lambda>(next, c).
         andThen (event_id c) (\<lambda>(topicID, c).
           if reserved_topic topicID then Inl (corrupt ErrInvalidRecord)
           else
             andThen (event_stringValue maxTopicNameLen c) (\<lambda>(name, c).
               if \<not> validTopicName name then Inl (corrupt ErrInvalidRecord)
               else
                 andThen (event_u32 c) (\<lambda>(count, c).
                   if count = 0 \<or> unat count > maxTopicPartitions then Inl (corrupt ErrInvalidRecord)
                   else
                     andThen (readN decodeTopicPartition 0 (unat count) c) (\<lambda>(partitions, c).
                       if event_remaining c \<noteq> 0 then Inl (corrupt ErrInvalidRecord)
                       else Inr \<lparr>tcStoreID = storeID, tcExpectedCatalogNext = next,
                                 tcTopicID = topicID, tcName = name,
                                 tcPartitions = partitions\<rparr>))))))"

section \<open>The event envelope\<close>

text \<open>
  The event type is read as a number: \<open>encodeSystemEvent\<close> takes any nonzero code, and decoding
  rejects codes that do not belong to the log.
\<close>

definition encodeSystemEvent :: "uint16 \<Rightarrow> bytes \<Rightarrow> bytes result" where
  "encodeSystemEvent eventType payload =
     (if eventType = 0 \<or> length payload > 0xFFFFFFFF then Inl [ErrInvalidArgument, ErrNew]
      else
        let v = replicate (eventEnvelopeLen + length payload) 0;
            v = put_at 0 eventMagic v;
            v = put_at 4 (PutUint16 eventType) v;
            v = put_at 6 (PutUint16 1) v;
            v = put_at 8 (PutUint32 (of_nat (length payload))) v;
            v = put_at 12 (PutUint32 0) v
        in Inr (put_at eventEnvelopeLen payload v))"

definition eventBelongsToTopic :: "uint16 \<Rightarrow> TopicID \<Rightarrow> bool" where
  "eventBelongsToTopic eventType topic \<longleftrightarrow>
     (if topic = ClusterMetadataTopicID then
        eventType = event_code EventStoreInitialized \<or> eventType = event_code EventTopicCreated
        \<or> eventType = event_code EventPartitionLogStartAdvanced
      else if topic = ConsumerOffsetsTopicID then
        eventType = event_code EventGroupCreated \<or> eventType = event_code EventLocalAssignmentChanged
        \<or> eventType = event_code EventOffsetCommitted
      else False)"

definition decodeSystemEvent :: "Record \<Rightarrow> TopicID \<Rightarrow> (uint16 \<times> bytes) result" where
  "decodeSystemEvent record expectedTopic =
     (case rValue record of
        None \<Rightarrow> Inl (corrupt ErrInvalidRecord)
      | Some v \<Rightarrow>
          if rTopic record \<noteq> expectedTopic \<or> rPartition record \<noteq> 0 \<or> rKey record \<noteq> None
             \<or> length (rHeaders record) \<noteq> 0
          then Inl (corrupt ErrInvalidRecord)
          else if length v < eventEnvelopeLen \<or> slice 0 4 v \<noteq> eventMagic
          then Inl (corrupt ErrInvalidRecord)
          else
            let eventType = Uint16 (slice 4 6 v);
                version = Uint16 (slice 6 8 v);
                payloadBytes = Uint32 (slice 8 12 v);
                flags = Uint32 (slice 12 16 v)
            in if eventType = 0 \<or> version = 0 then Inl (corrupt ErrInvalidRecord)
               else if version \<noteq> 1 \<or> flags \<noteq> 0 then Inl unsupported
               else if unat payloadBytes \<noteq> length v - eventEnvelopeLen
               then Inl (corrupt ErrInvalidRecord)
               else if \<not> eventBelongsToTopic eventType expectedTopic
               then Inl (corrupt ErrInvalidRecord)
               else Inr (eventType, drop eventEnvelopeLen v))"

section \<open>Log-start advances\<close>

record retiredSegmentEvent =
  rtBase :: uint64
  rtEnd :: uint64
  rtBytes :: uint64
  rtAnchor :: eventAnchor

record partitionLogStartAdvancedEvent =
  laStoreID :: StoreID
  laExpectedCatalogNext :: uint64
  laKey :: topicKey
  laExpectedOldL :: uint64
  laNewL :: uint64
  laEvaluatedDurableEnd :: uint64
  laRetainedAnchor :: eventAnchor
  laReasonMask :: byte
  laEvaluatedUnixMillis :: uint64
  laEvaluatedRetainedBytes :: uint64
  laRetired :: "retiredSegmentEvent list"

fun encodeRetired :: "nat \<Rightarrow> uint64 \<Rightarrow> retiredSegmentEvent list \<Rightarrow> bytes \<Rightarrow> bytes result" where
  "encodeRetired index previous [] data = Inr data"
| "encodeRetired index previous (retired # rest) data =
     (if rtBase retired \<ge> rtEnd retired \<or> (index > 0 \<and> rtBase retired \<le> previous)
      then Inl [ErrInvalidArgument, ErrNew]
      else
        let data = appendU64 data (rtBase retired);
            data = appendU64 data (rtEnd retired);
            data = appendU64 data (rtBytes retired)
        in andThen (encodeAnchor data (rtAnchor retired)) (\<lambda>data.
             encodeRetired (Suc index) (rtBase retired) rest data))"

definition encodePartitionLogStartAdvancedPayload ::
  "partitionLogStartAdvancedEvent \<Rightarrow> bytes result" where
  "encodePartitionLogStartAdvancedPayload event =
     (if laStoreID event = 0 \<or> IsZero (tkTopic (laKey event)) \<or> laExpectedOldL event \<ge> laNewL event
         \<or> laNewL event > laEvaluatedDurableEnd event
      then Inl [ErrInvalidArgument, ErrNew]
      else if laReasonMask event = 0 \<or> laReasonMask event AND NOT 3 \<noteq> 0
              \<or> length (laRetired event) = 0 \<or> length (laRetired event) > maxTopicPartitions
      then Inl [ErrInvalidArgument, ErrNew]
      else
        let data = id_bytes (laStoreID event);
            data = appendU64 data (laExpectedCatalogNext event);
            data = appendID data (tkTopic (laKey event));
            data = appendU32 data (tkPartition (laKey event));
            data = appendU64 data (laExpectedOldL event);
            data = appendU64 data (laNewL event);
            data = appendU64 data (laEvaluatedDurableEnd event)
        in andThen (encodeAnchor data (laRetainedAnchor event)) (\<lambda>data.
           let data = data @ [laReasonMask event, 0, 0, 0];
               data = appendU64 data (laEvaluatedUnixMillis event);
               data = appendU64 data (laEvaluatedRetainedBytes event);
               data = appendU32 data (of_nat (length (laRetired event)))
           in andThen (encodeRetired 0 0 (laRetired event) data) (\<lambda>data.
              if length data > maxEventPayload then Inl [ErrRecordTooLarge, ErrNew] else Inr data)))"

text \<open>The retirement loop carries the previous base, so it is its own recursion.\<close>

primrec decodeRetired ::
  "nat \<Rightarrow> nat \<Rightarrow> uint64 \<Rightarrow> eventCursor \<Rightarrow> (retiredSegmentEvent list \<times> eventCursor) result" where
  "decodeRetired 0 index previous c = Inr ([], c)"
| "decodeRetired (Suc n) index previous c =
     andThen (event_u64 c) (\<lambda>(base, c).
     andThen (event_u64 c) (\<lambda>(rend, c).
     andThen (event_u64 c) (\<lambda>(bytes, c).
     andThen (decodeAnchor c) (\<lambda>(anchor, c).
       if base \<ge> rend \<or> (index > 0 \<and> base \<le> previous) then Inl (corrupt ErrInvalidRecord)
       else
         andThen (decodeRetired n (Suc index) base c) (\<lambda>(rest, c).
           Inr (\<lparr>rtBase = base, rtEnd = rend, rtBytes = bytes, rtAnchor = anchor\<rparr> # rest, c))))))"

definition decodePartitionLogStartAdvancedPayload ::
  "bytes \<Rightarrow> partitionLogStartAdvancedEvent result" where
  "decodePartitionLogStartAdvancedPayload data =
     andThen (event_id (event_cursor data)) (\<lambda>(storeID, c).
       if storeID = 0 then Inl (corrupt ErrInvalidRecord)
       else
         andThen (event_u64 c) (\<lambda>(next, c).
         andThen (decodeTopicKey c) (\<lambda>(key, c).
         andThen (event_u64 c) (\<lambda>(oldL, c).
         andThen (event_u64 c) (\<lambda>(newL, c).
         andThen (event_u64 c) (\<lambda>(durableEnd, c).
         andThen (decodeAnchor c) (\<lambda>(anchor, c).
         andThen (event_u8 c) (\<lambda>(reason, c).
           if reason = 0 \<or> reason AND NOT 3 \<noteq> 0 then Inl unsupported
           else
             andThen (expectReserved c) (\<lambda>(_, c).
             andThen (event_u64 c) (\<lambda>(timestamp, c).
             andThen (event_u64 c) (\<lambda>(retainedBytes, c).
             andThen (event_u32 c) (\<lambda>(count, c).
               if count = 0 \<or> unat count > maxTopicPartitions then Inl (corrupt ErrInvalidRecord)
               else
                 andThen (decodeRetired (unat count) 0 0 c) (\<lambda>(retired, c).
                   if oldL \<ge> newL \<or> newL > durableEnd \<or> event_remaining c \<noteq> 0
                   then Inl (corrupt ErrInvalidRecord)
                   else Inr \<lparr>laStoreID = storeID, laExpectedCatalogNext = next, laKey = key,
                             laExpectedOldL = oldL, laNewL = newL,
                             laEvaluatedDurableEnd = durableEnd, laRetainedAnchor = anchor,
                             laReasonMask = reason, laEvaluatedUnixMillis = timestamp,
                             laEvaluatedRetainedBytes = retainedBytes,
                             laRetired = retired\<rparr>)))))))))))))"

section \<open>Exactness of the payload codecs\<close>

lemma event_remaining_0 [simp]: "event_remaining c = 0 \<longleftrightarrow> event_rest c = []"
  by (simp add: event_remaining_rest)

lemma validate_system: "validate c True = Inr () \<longleftrightarrow> validate c False = Inr () \<and> pcRetentionMask c = 0"
  by (auto simp: validate_def Let_def)

lemma config_ok_system: "config_ok True c \<longleftrightarrow> config_ok False c \<and> pcRetentionMask c = 0"
  by (auto simp: config_ok_def validate_system)

definition init_fields :: "storeInitializedEvent \<Rightarrow> bytes" where
  "init_fields e =
     id_bytes (siStoreID e) @ anchor_bytes (siCatalogInitial e) @ anchor_bytes (siOffsetsInitial e)
     @ config_fields (siCatalogConfig e) @ config_fields (siOffsetsConfig e)"

lemma length_init_fields [simp]: "length (init_fields e) = 240"
  by (simp add: init_fields_def)

lemma encodeStoreInitializedPayload_Inr_iff:
  "encodeStoreInitializedPayload e = Inr data \<longleftrightarrow>
     siStoreID e \<noteq> 0 \<and> anchor_ok (siCatalogInitial e) \<and> anchor_ok (siOffsetsInitial e)
     \<and> config_ok False (siCatalogConfig e) \<and> config_ok False (siOffsetsConfig e)
     \<and> data = init_fields e"
  by (auto simp: encodeStoreInitializedPayload_def andThen_Inr_iff encodePartitionConfig_Inr_iff
      init_fields_def Let_def)

definition read_init :: "eventCursor \<Rightarrow> (storeInitializedEvent \<times> eventCursor) result" where
  "read_init c =
     andThen (event_id c) (\<lambda>(storeID, c).
       if storeID = 0 then Inl (corrupt ErrInvalidRecord)
       else
         andThen (decodeAnchor c) (\<lambda>(catalogInitial, c).
         andThen (decodeAnchor c) (\<lambda>(offsetsInitial, c).
         andThen (decodePartitionConfig True c) (\<lambda>(catalogConfig, c).
         andThen (decodePartitionConfig True c) (\<lambda>(offsetsConfig, c).
           Inr (\<lparr>siStoreID = storeID, siCatalogInitial = catalogInitial,
                 siOffsetsInitial = offsetsInitial, siCatalogConfig = catalogConfig,
                 siOffsetsConfig = offsetsConfig\<rparr>, c))))))"

lemma read_init_decodes:
  "ev.decodes read_init init_fields
     (\<lambda>e. siStoreID e \<noteq> 0 \<and> anchor_ok (siCatalogInitial e) \<and> anchor_ok (siOffsetsInitial e)
        \<and> config_ok True (siCatalogConfig e) \<and> config_ok True (siOffsetsConfig e))"
proof -
  have "ev.decodes read_init
      (\<lambda>e. id_bytes (siStoreID e) @ anchor_bytes (siCatalogInitial e)
         @ anchor_bytes (siOffsetsInitial e) @ config_fields (siCatalogConfig e)
         @ config_fields (siOffsetsConfig e) @ [])
      (\<lambda>e. True \<and> \<not> siStoreID e = 0 \<and> anchor_ok (siCatalogInitial e) \<and> anchor_ok (siOffsetsInitial e)
        \<and> config_ok True (siCatalogConfig e) \<and> config_ok True (siOffsetsConfig e)
        \<and> e = \<lparr>siStoreID = siStoreID e, siCatalogInitial = siCatalogInitial e,
               siOffsetsInitial = siOffsetsInitial e, siCatalogConfig = siCatalogConfig e,
               siOffsetsConfig = siOffsetsConfig e\<rparr>)"
    unfolding read_init_def
    by (intro ev.decodes_bind [where proj = siStoreID] ev.decodes_bind [where proj = siCatalogInitial]
        ev.decodes_bind [where proj = siOffsetsInitial] ev.decodes_bind [where proj = siCatalogConfig]
        ev.decodes_bind [where proj = siOffsetsConfig] ev.decodes_guard ev.decodes_return
        event_id_decodes decodeAnchor_decodes decodePartitionConfig_decodes)
      (metis storeInitializedEvent.select_convs)+
  then show ?thesis by (rule ev.decodes_cong) (auto simp: init_fields_def)
qed

lemma decodeStoreInitializedPayload_Inr_iff:
  "decodeStoreInitializedPayload data = Inr e \<longleftrightarrow>
     siStoreID e \<noteq> 0 \<and> anchor_ok (siCatalogInitial e) \<and> anchor_ok (siOffsetsInitial e)
     \<and> config_ok True (siCatalogConfig e) \<and> config_ok True (siOffsetsConfig e)
     \<and> data = init_fields e"
proof -
  have "decodeStoreInitializedPayload data = Inr e \<longleftrightarrow> length data = 240 \<and>
     andThen (read_init (event_cursor data))
       (\<lambda>(v, c). if event_rest c \<noteq> [] then Inl (corrupt ErrInvalidRecord) else Inr v) = Inr e"
    by (simp add: decodeStoreInitializedPayload_def read_init_def andThen_assoc andThen_case_prod
        cong: if_cong)
  then show ?thesis
    by (auto simp: ev.decodes_whole [OF read_init_decodes])
qed

definition topic_partition_bytes :: "topicCreatedPartition \<Rightarrow> bytes" where
  "topic_partition_bytes p =
     PutUint32 (tpPartition p) @ config_fields (tpConfig p) @ anchor_bytes (tpInitial p)"

definition topic_partition_ok :: "nat \<Rightarrow> topicCreatedPartition \<Rightarrow> bool" where
  "topic_partition_ok i p \<longleftrightarrow>
     tpPartition p = of_nat i \<and> config_ok False (tpConfig p) \<and> anchor_ok (tpInitial p)"

definition topic_fields :: "topicCreatedEvent \<Rightarrow> bytes" where
  "topic_fields e =
     id_bytes (tcStoreID e) @ PutUint64 (tcExpectedCatalogNext e) @ id_bytes (tcTopicID e)
     @ string_bytes (tcName e) @ PutUint32 (of_nat (length (tcPartitions e)))
     @ encodings (\<lambda>_. topic_partition_bytes) 0 (tcPartitions e)"

definition topic_event_ok :: "topicCreatedEvent \<Rightarrow> bool" where
  "topic_event_ok e \<longleftrightarrow>
     tcStoreID e \<noteq> 0 \<and> \<not> reserved_topic (tcTopicID e) \<and> string_ok maxTopicNameLen (tcName e)
     \<and> 0 < length (tcPartitions e) \<and> length (tcPartitions e) \<le> maxTopicPartitions
     \<and> all_index topic_partition_ok 0 (tcPartitions e)"

lemma encodeTopicPartitions_Inr_iff:
  "encodeTopicPartitions i ps data = Inr out \<longleftrightarrow>
     all_index topic_partition_ok i ps \<and> out = data @ encodings (\<lambda>_. topic_partition_bytes) i ps"
  by (induction i ps data rule: encodeTopicPartitions.induct)
    (auto simp: Let_def andThen_Inr_iff append_defs topic_partition_bytes_def topic_partition_ok_def
      encodePartitionConfig_Inr_iff)

lemma encodeTopicCreatedPayload_Inr_iff:
  "encodeTopicCreatedPayload e = Inr data \<longleftrightarrow>
     topic_event_ok e \<and> data = topic_fields e \<and> length data \<le> maxEventPayload"
  by (auto simp: encodeTopicCreatedPayload_def andThen_Inr_iff encodeTopicPartitions_Inr_iff Let_def
      append_defs topic_event_ok_def topic_fields_def)

lemma decodeTopicPartition_decodes:
  "ev.decodes (decodeTopicPartition i) topic_partition_bytes (topic_partition_ok i)"
proof -
  have "ev.decodes (decodeTopicPartition i)
      (\<lambda>p. PutUint32 (tpPartition p) @ config_fields (tpConfig p) @ anchor_bytes (tpInitial p) @ [])
      (\<lambda>p. True \<and> \<not> tpPartition p \<noteq> of_nat i \<and> config_ok False (tpConfig p) \<and> anchor_ok (tpInitial p)
         \<and> p = \<lparr>tpPartition = tpPartition p, tpConfig = tpConfig p, tpInitial = tpInitial p\<rparr>)"
    unfolding decodeTopicPartition_def
    by (intro ev.decodes_bind [where proj = tpPartition] ev.decodes_bind [where proj = tpConfig]
        ev.decodes_bind [where proj = tpInitial] ev.decodes_guard ev.decodes_return
        event_u32_decodes decodeAnchor_decodes decodePartitionConfig_decodes)
      (metis topicCreatedPartition.select_convs)+
  then show ?thesis
    by (rule ev.decodes_cong) (auto simp: topic_partition_ok_def topic_partition_bytes_def)
qed

definition read_topic :: "eventCursor \<Rightarrow> (topicCreatedEvent \<times> eventCursor) result" where
  "read_topic c =
     andThen (event_id c) (\<lambda>(storeID, c).
       if storeID = 0 then Inl (corrupt ErrInvalidRecord)
       else
         andThen (event_u64 c) (\<lambda>(next, c).
         andThen (event_id c) (\<lambda>(topicID, c).
           if reserved_topic topicID then Inl (corrupt ErrInvalidRecord)
           else
             andThen (event_stringValue maxTopicNameLen c) (\<lambda>(name, c).
               if \<not> validTopicName name then Inl (corrupt ErrInvalidRecord)
               else
                 andThen (event_u32 c) (\<lambda>(count, c).
                   if count = 0 \<or> unat count > maxTopicPartitions then Inl (corrupt ErrInvalidRecord)
                   else
                     andThen (readN decodeTopicPartition 0 (unat count) c) (\<lambda>(partitions, c).
                       Inr (\<lparr>tcStoreID = storeID, tcExpectedCatalogNext = next,
                                 tcTopicID = topicID, tcName = name,
                                 tcPartitions = partitions\<rparr>, c)))))))"

lemma count_ok:
  "length xs = unat (of_nat (length xs) :: uint32) \<longleftrightarrow> length xs < 4294967296"
  using unat_uint32_less [of "of_nat (length xs)"] by auto

lemma read_topic_decodes:
  "ev.decodes read_topic topic_fields (\<lambda>e. topic_event_ok e \<and> validTopicName (tcName e))"
proof -
  let ?n = "\<lambda>e. of_nat (length (tcPartitions e)) :: uint32"
  have "ev.decodes read_topic
      (\<lambda>e. id_bytes (tcStoreID e) @ PutUint64 (tcExpectedCatalogNext e) @ id_bytes (tcTopicID e)
         @ string_bytes (tcName e) @ PutUint32 (?n e)
         @ encodings (\<lambda>_. topic_partition_bytes) 0 (tcPartitions e) @ [])
      (\<lambda>e. True \<and> \<not> tcStoreID e = 0 \<and> True \<and> True \<and> \<not> reserved_topic (tcTopicID e)
         \<and> string_ok maxTopicNameLen (tcName e) \<and> \<not> \<not> validTopicName (tcName e)
         \<and> True \<and> \<not> (?n e = 0 \<or> unat (?n e) > maxTopicPartitions)
         \<and> (length (tcPartitions e) = unat (?n e) \<and> all_index topic_partition_ok 0 (tcPartitions e))
         \<and> e = \<lparr>tcStoreID = tcStoreID e, tcExpectedCatalogNext = tcExpectedCatalogNext e,
                tcTopicID = tcTopicID e, tcName = tcName e, tcPartitions = tcPartitions e\<rparr>)"
    unfolding read_topic_def
    by (intro ev.decodes_bind [where proj = tcStoreID] ev.decodes_bind [where proj = tcExpectedCatalogNext]
        ev.decodes_bind [where proj = tcTopicID] ev.decodes_bind [where proj = tcName]
        ev.decodes_bind [where proj = ?n] ev.decodes_bind [where proj = tcPartitions]
        ev.decodes_guard ev.decodes_return event_id_decodes event_u64_decodes event_u32_decodes
        event_stringValue_decodes ev.decodes_readN decodeTopicPartition_decodes)
      (simp | metis topicCreatedEvent.select_convs of_nat_unat ucast_id)+
  then show ?thesis
    by (rule ev.decodes_cong)
      (auto simp: topic_event_ok_def topic_fields_def count_ok word_unat_eq_iff)
qed

lemma decodeTopicCreatedPayload_Inr_iff:
  "decodeTopicCreatedPayload data = Inr e \<longleftrightarrow>
     topic_event_ok e \<and> validTopicName (tcName e) \<and> data = topic_fields e"
proof -
  have "decodeTopicCreatedPayload data =
     andThen (read_topic (event_cursor data))
       (\<lambda>(v, c). if event_rest c \<noteq> [] then Inl (corrupt ErrInvalidRecord) else Inr v)"
    by (simp add: decodeTopicCreatedPayload_def read_topic_def andThen_assoc andThen_case_prod
        cong: if_cong)
  then show ?thesis
    by (auto simp: ev.decodes_whole [OF read_topic_decodes])
qed

definition retired_bytes :: "retiredSegmentEvent \<Rightarrow> bytes" where
  "retired_bytes r =
     PutUint64 (rtBase r) @ PutUint64 (rtEnd r) @ PutUint64 (rtBytes r) @ anchor_bytes (rtAnchor r)"

text \<open>Retired segments are nonempty, anchored and ordered by strictly increasing base.\<close>

fun retired_canonical :: "nat \<Rightarrow> uint64 \<Rightarrow> retiredSegmentEvent list \<Rightarrow> bool" where
  "retired_canonical i previous [] \<longleftrightarrow> True"
| "retired_canonical i previous (r # rs) \<longleftrightarrow>
     rtBase r < rtEnd r \<and> (0 < i \<longrightarrow> previous < rtBase r) \<and> anchor_ok (rtAnchor r)
     \<and> retired_canonical (Suc i) (rtBase r) rs"

lemma encodeRetired_Inr_iff:
  "encodeRetired i previous rs data = Inr out \<longleftrightarrow>
     retired_canonical i previous rs \<and> out = data @ concat (map retired_bytes rs)"
  by (induction i previous rs data rule: encodeRetired.induct)
    (auto simp: Let_def andThen_Inr_iff append_defs retired_bytes_def not_le)

lemma decodeRetired_decodes:
  "ev.decodes (decodeRetired n i previous) (\<lambda>rs. concat (map retired_bytes rs))
     (\<lambda>rs. length rs = n \<and> retired_canonical i previous rs)"
proof (induction n arbitrary: i previous)
  case 0
  show ?case
    unfolding decodeRetired.simps
    by (rule ev.decodes_cong [OF ev.decodes_return]) auto
next
  case (Suc n)
  have "ev.decodes (decodeRetired (Suc n) i previous)
      (\<lambda>w. PutUint64 (rtBase (hd w)) @ PutUint64 (rtEnd (hd w)) @ PutUint64 (rtBytes (hd w))
         @ anchor_bytes (rtAnchor (hd w)) @ concat (map retired_bytes (tl w)) @ [])
      (\<lambda>w. True \<and> True \<and> True \<and> anchor_ok (rtAnchor (hd w))
         \<and> \<not> (rtBase (hd w) \<ge> rtEnd (hd w) \<or> (i > 0 \<and> rtBase (hd w) \<le> previous))
         \<and> (length (tl w) = n \<and> retired_canonical (Suc i) (rtBase (hd w)) (tl w))
         \<and> w = \<lparr>rtBase = rtBase (hd w), rtEnd = rtEnd (hd w), rtBytes = rtBytes (hd w),
                rtAnchor = rtAnchor (hd w)\<rparr> # tl w)"
    unfolding decodeRetired.simps
    by (intro ev.decodes_bind [where proj = "\<lambda>w. rtBase (hd w)"]
        ev.decodes_bind [where proj = "\<lambda>w. rtEnd (hd w)"]
        ev.decodes_bind [where proj = "\<lambda>w. rtBytes (hd w)"]
        ev.decodes_bind [where proj = "\<lambda>w. rtAnchor (hd w)"] ev.decodes_bind [where proj = tl]
        ev.decodes_guard ev.decodes_return event_u64_decodes decodeAnchor_decodes Suc.IH)
      (metis retiredSegmentEvent.select_convs list.sel)+
  then show ?case
  proof (rule ev.decodes_cong)
    fix w
    show "True \<and> True \<and> True \<and> anchor_ok (rtAnchor (hd w))
         \<and> \<not> (rtBase (hd w) \<ge> rtEnd (hd w) \<or> (i > 0 \<and> rtBase (hd w) \<le> previous))
         \<and> (length (tl w) = n \<and> retired_canonical (Suc i) (rtBase (hd w)) (tl w))
         \<and> w = \<lparr>rtBase = rtBase (hd w), rtEnd = rtEnd (hd w), rtBytes = rtBytes (hd w),
                rtAnchor = rtAnchor (hd w)\<rparr> # tl w
       \<longleftrightarrow> length w = Suc n \<and> retired_canonical i previous w"
      by (cases w) (auto simp: not_le)
    assume "length w = Suc n \<and> retired_canonical i previous w"
    then show "PutUint64 (rtBase (hd w)) @ PutUint64 (rtEnd (hd w)) @ PutUint64 (rtBytes (hd w))
         @ anchor_bytes (rtAnchor (hd w)) @ concat (map retired_bytes (tl w)) @ []
       = concat (map retired_bytes w)"
      by (cases w) (auto simp: retired_bytes_def)
  qed
qed

definition advance_fields :: "partitionLogStartAdvancedEvent \<Rightarrow> bytes" where
  "advance_fields e =
     id_bytes (laStoreID e) @ PutUint64 (laExpectedCatalogNext e) @ key_bytes (laKey e)
     @ PutUint64 (laExpectedOldL e) @ PutUint64 (laNewL e) @ PutUint64 (laEvaluatedDurableEnd e)
     @ anchor_bytes (laRetainedAnchor e) @ [laReasonMask e] @ [0, 0, 0]
     @ PutUint64 (laEvaluatedUnixMillis e) @ PutUint64 (laEvaluatedRetainedBytes e)
     @ PutUint32 (of_nat (length (laRetired e))) @ concat (map retired_bytes (laRetired e))"

definition advance_event_ok :: "partitionLogStartAdvancedEvent \<Rightarrow> bool" where
  "advance_event_ok e \<longleftrightarrow>
     laStoreID e \<noteq> 0 \<and> tkTopic (laKey e) \<noteq> 0 \<and> laExpectedOldL e < laNewL e
     \<and> laNewL e \<le> laEvaluatedDurableEnd e \<and> anchor_ok (laRetainedAnchor e)
     \<and> laReasonMask e \<noteq> 0 \<and> laReasonMask e AND NOT 3 = 0
     \<and> 0 < length (laRetired e) \<and> length (laRetired e) \<le> maxTopicPartitions
     \<and> retired_canonical 0 0 (laRetired e)"

lemma encodePartitionLogStartAdvancedPayload_Inr_iff:
  "encodePartitionLogStartAdvancedPayload e = Inr data \<longleftrightarrow>
     advance_event_ok e \<and> data = advance_fields e \<and> length data \<le> maxEventPayload"
proof (cases "laStoreID e = 0 \<or> IsZero (tkTopic (laKey e)) \<or> laExpectedOldL e \<ge> laNewL e
     \<or> laNewL e > laEvaluatedDurableEnd e \<or> laReasonMask e = 0 \<or> laReasonMask e AND NOT 3 \<noteq> 0
     \<or> length (laRetired e) = 0 \<or> length (laRetired e) > maxTopicPartitions")
  case True
  then have "encodePartitionLogStartAdvancedPayload e = Inl [ErrInvalidArgument, ErrNew]"
    unfolding encodePartitionLogStartAdvancedPayload_def by metis
  moreover have "\<not> advance_event_ok e"
    using True by (elim disjE) (simp_all add: advance_event_ok_def not_le not_less)
  ultimately show ?thesis by simp
next
  case False
  let ?p = "id_bytes (laStoreID e) @ PutUint64 (laExpectedCatalogNext e) @ key_bytes (laKey e)
     @ PutUint64 (laExpectedOldL e) @ PutUint64 (laNewL e) @ PutUint64 (laEvaluatedDurableEnd e)"
  let ?q = "\<lambda>data. data @ [laReasonMask e] @ [0, 0, 0] @ PutUint64 (laEvaluatedUnixMillis e)
     @ PutUint64 (laEvaluatedRetainedBytes e) @ PutUint32 (of_nat (length (laRetired e)))"
  have "encodePartitionLogStartAdvancedPayload e =
     andThen (encodeAnchor ?p (laRetainedAnchor e)) (\<lambda>data.
     andThen (encodeRetired 0 0 (laRetired e) (?q data)) (\<lambda>data.
       if length data > maxEventPayload then Inl [ErrRecordTooLarge, ErrNew] else Inr data))"
    using False unfolding encodePartitionLogStartAdvancedPayload_def Let_def append_defs appendU32_def
      key_bytes_def append_assoc append_Cons append_Nil by metis
  moreover have "advance_event_ok e \<longleftrightarrow>
      anchor_ok (laRetainedAnchor e) \<and> retired_canonical 0 0 (laRetired e)"
    using False by (simp add: advance_event_ok_def not_le not_less)
  ultimately show ?thesis
    by (auto simp: andThen_Inr_iff encodeRetired_Inr_iff advance_fields_def)
qed

definition read_advance ::
  "eventCursor \<Rightarrow> (partitionLogStartAdvancedEvent \<times> eventCursor) result" where
  "read_advance c =
     andThen (event_id c) (\<lambda>(storeID, c).
       if storeID = 0 then Inl (corrupt ErrInvalidRecord)
       else
         andThen (event_u64 c) (\<lambda>(next, c).
         andThen (decodeTopicKey c) (\<lambda>(key, c).
         andThen (event_u64 c) (\<lambda>(oldL, c).
         andThen (event_u64 c) (\<lambda>(newL, c).
         andThen (event_u64 c) (\<lambda>(durableEnd, c).
         andThen (decodeAnchor c) (\<lambda>(anchor, c).
         andThen (event_u8 c) (\<lambda>(reason, c).
           if reason = 0 \<or> reason AND NOT 3 \<noteq> 0 then Inl unsupported
           else
             andThen (expectReserved c) (\<lambda>(_, c).
             andThen (event_u64 c) (\<lambda>(timestamp, c).
             andThen (event_u64 c) (\<lambda>(retainedBytes, c).
             andThen (event_u32 c) (\<lambda>(count, c).
               if count = 0 \<or> unat count > maxTopicPartitions then Inl (corrupt ErrInvalidRecord)
               else
                 andThen (decodeRetired (unat count) 0 0 c) (\<lambda>(retired, c).
                   if oldL \<ge> newL \<or> newL > durableEnd then Inl (corrupt ErrInvalidRecord)
                   else Inr (\<lparr>laStoreID = storeID, laExpectedCatalogNext = next, laKey = key,
                             laExpectedOldL = oldL, laNewL = newL,
                             laEvaluatedDurableEnd = durableEnd, laRetainedAnchor = anchor,
                             laReasonMask = reason, laEvaluatedUnixMillis = timestamp,
                             laEvaluatedRetainedBytes = retainedBytes,
                             laRetired = retired\<rparr>, c))))))))))))))"

lemma advance_event_eq_iff:
  "e = \<lparr>laStoreID = a, laExpectedCatalogNext = b, laKey = k, laExpectedOldL = l, laNewL = l',
        laEvaluatedDurableEnd = d, laRetainedAnchor = an, laReasonMask = m,
        laEvaluatedUnixMillis = t, laEvaluatedRetainedBytes = by, laRetired = rs\<rparr> \<longleftrightarrow>
   laStoreID e = a \<and> laExpectedCatalogNext e = b \<and> laKey e = k \<and> laExpectedOldL e = l \<and> laNewL e = l'
   \<and> laEvaluatedDurableEnd e = d \<and> laRetainedAnchor e = an \<and> laReasonMask e = m
   \<and> laEvaluatedUnixMillis e = t \<and> laEvaluatedRetainedBytes e = by \<and> laRetired e = rs"
  by (cases e) auto

lemma read_advance_decodes:
  "ev.decodes read_advance advance_fields
     (\<lambda>e. advance_event_ok e \<and> tkPartition (laKey e) \<le> MaxInt32)"
proof -
  let ?n = "\<lambda>e. of_nat (length (laRetired e)) :: uint32"
  have "ev.decodes read_advance
      (\<lambda>e. id_bytes (laStoreID e) @ PutUint64 (laExpectedCatalogNext e) @ key_bytes (laKey e)
         @ PutUint64 (laExpectedOldL e) @ PutUint64 (laNewL e) @ PutUint64 (laEvaluatedDurableEnd e)
         @ anchor_bytes (laRetainedAnchor e) @ [laReasonMask e] @ [0, 0, 0]
         @ PutUint64 (laEvaluatedUnixMillis e) @ PutUint64 (laEvaluatedRetainedBytes e)
         @ PutUint32 (?n e) @ concat (map retired_bytes (laRetired e)) @ [])
      (\<lambda>e. True \<and> \<not> laStoreID e = 0 \<and> True \<and> key_ok (laKey e) \<and> True \<and> True \<and> True
         \<and> anchor_ok (laRetainedAnchor e) \<and> True
         \<and> \<not> (laReasonMask e = 0 \<or> laReasonMask e AND NOT 3 \<noteq> 0) \<and> True \<and> True \<and> True
         \<and> \<not> (?n e = 0 \<or> unat (?n e) > maxTopicPartitions)
         \<and> (length (laRetired e) = unat (?n e) \<and> retired_canonical 0 0 (laRetired e))
         \<and> \<not> (laExpectedOldL e \<ge> laNewL e \<or> laNewL e > laEvaluatedDurableEnd e)
         \<and> e = \<lparr>laStoreID = laStoreID e, laExpectedCatalogNext = laExpectedCatalogNext e,
                laKey = laKey e, laExpectedOldL = laExpectedOldL e, laNewL = laNewL e,
                laEvaluatedDurableEnd = laEvaluatedDurableEnd e,
                laRetainedAnchor = laRetainedAnchor e, laReasonMask = laReasonMask e,
                laEvaluatedUnixMillis = laEvaluatedUnixMillis e,
                laEvaluatedRetainedBytes = laEvaluatedRetainedBytes e, laRetired = laRetired e\<rparr>)"
    unfolding read_advance_def
    by (intro ev.decodes_bind [where proj = laStoreID] ev.decodes_bind [where proj = laExpectedCatalogNext]
        ev.decodes_bind [where proj = laKey] ev.decodes_bind [where proj = laExpectedOldL]
        ev.decodes_bind [where proj = laNewL] ev.decodes_bind [where proj = laEvaluatedDurableEnd]
        ev.decodes_bind [where proj = laRetainedAnchor] ev.decodes_bind [where proj = laReasonMask]
        ev.decodes_skip [OF expectReserved_decodes] ev.decodes_bind [where proj = laEvaluatedUnixMillis]
        ev.decodes_bind [where proj = laEvaluatedRetainedBytes]
        ev.decodes_bind [where proj = ?n] ev.decodes_bind [where proj = laRetired]
        ev.decodes_guard ev.decodes_return event_id_decodes event_u64_decodes event_u32_decodes
        event_u8_decodes decodeTopicKey_decodes decodeAnchor_decodes
        decodeRetired_decodes)
      (simp_all add: advance_event_eq_iff)
  then show ?thesis
    by (rule ev.decodes_cong)
      (auto simp: advance_event_ok_def advance_fields_def count_ok word_unat_eq_iff key_ok_def not_le
        not_less)
qed

lemma decodePartitionLogStartAdvancedPayload_Inr_iff:
  "decodePartitionLogStartAdvancedPayload data = Inr e \<longleftrightarrow>
     advance_event_ok e \<and> tkPartition (laKey e) \<le> MaxInt32 \<and> data = advance_fields e"
proof -
  have split: "(if a \<or> b \<or> event_remaining c \<noteq> 0 then Inl k else Inr v)
      = (if a \<or> b then Inl k else if event_rest c \<noteq> [] then Inl k else Inr v)" for a b c k and v :: 'v
    by simp
  have "decodePartitionLogStartAdvancedPayload data =
     andThen (read_advance (event_cursor data))
       (\<lambda>(v, c). if event_rest c \<noteq> [] then Inl (corrupt ErrInvalidRecord) else Inr v)"
    by (simp only: decodePartitionLogStartAdvancedPayload_def read_advance_def andThen_assoc
        andThen_case_prod andThen_if andThen_simps split prod.case cong: if_cong)
  then show ?thesis
    by (auto simp: ev.decodes_whole [OF read_advance_decodes])
qed

definition envelope :: "uint16 \<Rightarrow> bytes \<Rightarrow> bytes" where
  "envelope eventType payload =
     eventMagic @ PutUint16 eventType @ PutUint16 1 @ PutUint32 (of_nat (length payload))
     @ PutUint32 0 @ payload"

lemma length_eventMagic [simp]: "length eventMagic = 4"
  by (simp add: eventMagic_def)

lemma encodeSystemEvent_Inr_iff:
  "encodeSystemEvent eventType payload = Inr v \<longleftrightarrow>
     eventType \<noteq> 0 \<and> length payload \<le> 0xFFFFFFFF \<and> v = envelope eventType payload"
  by (auto simp: encodeSystemEvent_def Let_def put_at_replicate put_at_buf envelope_def)

lemma envelope_slices:
  "slice 0 4 (envelope ty p) = eventMagic" "slice 4 6 (envelope ty p) = PutUint16 ty"
  "slice 6 8 (envelope ty p) = PutUint16 1" "slice 8 12 (envelope ty p) = PutUint32 (of_nat (length p))"
  "slice 12 16 (envelope ty p) = PutUint32 0" "drop 16 (envelope ty p) = p"
  "length (envelope ty p) = 16 + length p"
  by (simp_all add: envelope_def field_slices)

lemma envelope_of_slices:
  assumes "16 \<le> length v" and "slice 0 4 v = eventMagic" and "Uint16 (slice 6 8 v) = 1"
    and "Uint32 (slice 12 16 v) = 0" and "unat (Uint32 (slice 8 12 v)) = length v - 16"
  shows "v = envelope (Uint16 (slice 4 6 v)) (drop 16 v)"
proof -
  have "Uint32 (slice 8 12 v) = of_nat (length v - 16)"
    using assms(5) by (metis of_nat_unat ucast_id)
  then have "slice 8 12 v = PutUint32 (of_nat (length v - 16))"
    using assms(1) by (simp add: word_of_bytes_eq_iff)
  moreover have "slice 6 8 v = PutUint16 1" "slice 12 16 v = PutUint32 0"
    using assms by (simp_all add: word_of_bytes_eq_iff)
  moreover have "v = slice 0 4 v @ slice 4 6 v @ slice 6 8 v @ slice 8 12 v @ slice 12 16 v @ drop 16 v"
    using assms(1) by (simp add: join_slices) (simp add: slice_def)
  ultimately show ?thesis
    using assms(1,2) by (simp add: envelope_def)
qed

lemma decodeSystemEvent_Inr_iff:
  "decodeSystemEvent r topic = Inr (ty, payload) \<longleftrightarrow>
     rTopic r = topic \<and> rPartition r = 0 \<and> rKey r = None \<and> rHeaders r = []
     \<and> eventBelongsToTopic ty topic \<and> length payload \<le> 0xFFFFFFFF
     \<and> rValue r = Some (envelope ty payload)" (is "?lhs \<longleftrightarrow> ?rhs")
proof
  assume ?lhs
  then obtain v where v: "rValue r = Some v" and shape: "rTopic r = topic" "rPartition r = 0"
      "rKey r = None" "rHeaders r = []"
    and len: "16 \<le> length v" and magic: "slice 0 4 v = eventMagic"
    and ver: "Uint16 (slice 6 8 v) = 1" and flags: "Uint32 (slice 12 16 v) = 0"
    and pl: "unat (Uint32 (slice 8 12 v)) = length v - 16"
    and bel: "eventBelongsToTopic (Uint16 (slice 4 6 v)) topic"
    and out: "ty = Uint16 (slice 4 6 v)" "payload = drop 16 v"
    by (auto simp: decodeSystemEvent_def Let_def not_less split: option.splits if_splits)
  have "length v - 16 \<le> 0xFFFFFFFF"
    using pl unat_uint32_less [of "Uint32 (slice 8 12 v)"] by linarith
  with envelope_of_slices [OF len magic ver flags pl] show ?rhs
    using v shape bel out by simp
next
  assume rhs: ?rhs
  then have "ty \<noteq> 0" by (auto simp: eventBelongsToTopic_def split: if_splits)
  with rhs show ?lhs
    by (simp add: decodeSystemEvent_def envelope_slices Let_def)
qed

section \<open>Properties\<close>

text \<open>C24. A system event survives the log: the value that \<open>encodeSystemEvent\<close> builds for an event
  of a log is read back by \<open>decodeSystemEvent\<close> as the same type and payload, and a record that
  decodes has the system-event shape, an event type of that log, and exactly the envelope that
  encoding its payload produces.\<close>

theorem decodeSystemEvent_exact:
  "decodeSystemEvent record topic = Inr (eventType, payload) \<longleftrightarrow>
     rTopic record = topic \<and> rPartition record = 0 \<and> rKey record = None \<and> rHeaders record = []
     \<and> eventBelongsToTopic eventType topic
     \<and> (\<exists>v. rValue record = Some v \<and> encodeSystemEvent eventType payload = Inr v)"
proof -
  have "eventType \<noteq> 0" if "eventBelongsToTopic eventType topic"
    using that by (auto simp: eventBelongsToTopic_def split: if_splits)
  then show ?thesis
    unfolding decodeSystemEvent_Inr_iff encodeSystemEvent_Inr_iff by blast
qed

text \<open>C25. The \<open>TopicCreated\<close> payload codec is exact: among payloads that fit a record, the decoder
  accepts exactly the encodings of events with a valid topic name, and returns the event.\<close>

theorem TopicCreated_payload_exact:
  assumes "length data \<le> maxEventPayload"
  shows "decodeTopicCreatedPayload data = Inr event \<longleftrightarrow>
    encodeTopicCreatedPayload event = Inr data \<and> validTopicName (tcName event)"
  using assms by (auto simp: decodeTopicCreatedPayload_Inr_iff encodeTopicCreatedPayload_Inr_iff)

definition example_anchor :: eventAnchor where
  "example_anchor = \<lparr>anID = 5, anHeaderHash = 6\<rparr>"

definition example_topic_event :: topicCreatedEvent where
  "example_topic_event =
     \<lparr>tcStoreID = 3, tcExpectedCatalogNext = 1, tcTopicID = 77, tcName = [0x61, 0x2D, 0x31],
      tcPartitions = [\<lparr>tpPartition = 0, tpConfig = systemPartitionConfig, tpInitial = example_anchor\<rparr>]\<rparr>"

lemma config_ok_systemPartitionConfig: "config_ok system systemPartitionConfig"
  by (simp add: config_ok_def systemPartitionConfig_def validate_def Let_def) (intro exI [of _ 0], simp)

lemma topic_event_ok_example: "topic_event_ok example_topic_event"
  by (simp add: topic_event_ok_def example_topic_event_def reserved_topic_def string_ok_def
      bytesContainZero_def topic_partition_ok_def config_ok_systemPartitionConfig anchor_ok_def
      example_anchor_def)

theorem TopicCreated_payload_exact_witness:
  "\<exists>data. length data = 167 \<and> encodeTopicCreatedPayload example_topic_event = Inr data
     \<and> decodeTopicCreatedPayload data = Inr example_topic_event"
proof -
  let ?data = "topic_fields example_topic_event"
  have len: "length ?data = 167"
    by (simp add: topic_fields_def example_topic_event_def topic_partition_bytes_def)
  then have enc: "encodeTopicCreatedPayload example_topic_event = Inr ?data"
    by (simp add: encodeTopicCreatedPayload_Inr_iff topic_event_ok_example)
  have "validTopicName (tcName example_topic_event)"
    by (simp add: validTopicName_def example_topic_event_def)
  with enc len TopicCreated_payload_exact [of ?data example_topic_event] show ?thesis by auto
qed

text \<open>C26. The \<open>PartitionLogStartAdvanced\<close> payload codec is exact: among payloads that fit a record,
  the decoder accepts exactly the encodings of events whose partition number is in the v1 range. An
  accepted event strictly advances the log start, stays within the durable end, and lists retired
  segments in strictly increasing order.\<close>

theorem LogStartAdvanced_payload_exact:
  assumes "length data \<le> maxEventPayload"
  shows "decodePartitionLogStartAdvancedPayload data = Inr event \<longleftrightarrow>
    encodePartitionLogStartAdvancedPayload event = Inr data \<and> tkPartition (laKey event) \<le> MaxInt32"
  using assms
  by (auto simp: decodePartitionLogStartAdvancedPayload_Inr_iff
      encodePartitionLogStartAdvancedPayload_Inr_iff)

definition example_advance :: partitionLogStartAdvancedEvent where
  "example_advance =
     \<lparr>laStoreID = 3, laExpectedCatalogNext = 2, laKey = TopicKey 77 0, laExpectedOldL = 0, laNewL = 10,
      laEvaluatedDurableEnd = 20, laRetainedAnchor = example_anchor, laReasonMask = 2,
      laEvaluatedUnixMillis = 1000, laEvaluatedRetainedBytes = 4096,
      laRetired = [\<lparr>rtBase = 0, rtEnd = 10, rtBytes = 500, rtAnchor = example_anchor\<rparr>]\<rparr>"

lemma advance_event_ok_example: "advance_event_ok example_advance"
  by (simp add: advance_event_ok_def example_advance_def example_anchor_def anchor_ok_def)

theorem LogStartAdvanced_payload_exact_witness:
  "\<exists>data. length data = 212 \<and> encodePartitionLogStartAdvancedPayload example_advance = Inr data
     \<and> decodePartitionLogStartAdvancedPayload data = Inr example_advance"
proof -
  let ?data = "advance_fields example_advance"
  have len: "length ?data = 212"
    by (simp add: advance_fields_def example_advance_def retired_bytes_def)
  then have enc: "encodePartitionLogStartAdvancedPayload example_advance = Inr ?data"
    by (simp add: encodePartitionLogStartAdvancedPayload_Inr_iff advance_event_ok_example)
  have "tkPartition (laKey example_advance) \<le> MaxInt32" by (simp add: example_advance_def)
  with enc len LogStartAdvanced_payload_exact [of ?data example_advance] show ?thesis by auto
qed

text \<open>C27. The \<open>StoreInitialized\<close> payload codec is exact up to retention: the decoder accepts the
  encodings of events whose two system configurations have retention disabled, and no other bytes.
  The encoder alone does not check that, so an event with system-log retention encodes and does
  not decode.\<close>

theorem StoreInitialized_payload_exact:
  "decodeStoreInitializedPayload data = Inr event \<longleftrightarrow>
     encodeStoreInitializedPayload event = Inr data
     \<and> pcRetentionMask (siCatalogConfig event) = 0 \<and> pcRetentionMask (siOffsetsConfig event) = 0"
  by (auto simp: decodeStoreInitializedPayload_Inr_iff encodeStoreInitializedPayload_Inr_iff
      config_ok_system)

end
