(* ===== verification/Filesystem.thy ===== *)
theory Filesystem
  imports Stdlib "HOL-Library.AList"
begin

text \<open>
  The operations of \<open>src/storage/filesystem.go\<close>, which the rest of the source calls for every file
  access. A world is the files with their contents and a schedule of outcomes: each operation takes
  the next outcome of the schedule, so a statement about every schedule covers every pattern of I/O
  failures, short writes included. An exhausted schedule means success. An open file is identified
  by its path; the source never renames an open file.
\<close>

type_synonym path = bytes

text \<open>\<open>Fail n e\<close> makes the operation return the error \<open>e\<close>; a write then stores its first \<open>n\<close>
  bytes and a read returns its first \<open>n\<close> bytes. The empty list is the nil error, so a write or a
  read may also come up short without an error; an operation that has no count fails with \<open>failure e\<close>.\<close>

datatype outcome = Done | Fail nat error

definition failure :: "error \<Rightarrow> error" where
  "failure e = (if e = [] then [ErrNew] else e)"

record world =
  wFiles :: "(path \<times> bytes) list"
  wFaults :: "outcome list"

type_synonym 'a io = "world \<Rightarrow> 'a result \<times> world"

definition next_outcome :: "world \<Rightarrow> outcome \<times> world" where
  "next_outcome w = (case wFaults w of [] \<Rightarrow> (Done, w) | r # rs \<Rightarrow> (r, w\<lparr>wFaults := rs\<rparr>))"

definition content :: "world \<Rightarrow> path \<Rightarrow> bytes option" where
  "content w path = map_of (wFiles w) path"

definition put_file :: "path \<Rightarrow> bytes \<Rightarrow> world \<Rightarrow> world" where
  "put_file path data w = w\<lparr>wFiles := AList.update path data (wFiles w)\<rparr>"

definition drop_file :: "path \<Rightarrow> world \<Rightarrow> world" where
  "drop_file path w = w\<lparr>wFiles := AList.delete path (wFiles w)\<rparr>"

text \<open>\<open>fmt.Errorf("...: %w", err)\<close>: a new message around \<open>err\<close>.\<close>

definition errorf :: "error \<Rightarrow> error" where
  "errorf e = ErrNew # e"

text \<open>Sequencing of effectful steps, and a step whose error the source discards.\<close>

definition ioThen :: "'a io \<Rightarrow> ('a \<Rightarrow> 'b io) \<Rightarrow> 'b io" where
  "ioThen m f w = (case m w of (Inl e, w) \<Rightarrow> (Inl e, w) | (Inr x, w) \<Rightarrow> f x w)"

definition ioReturn :: "'a result \<Rightarrow> 'a io" where
  "ioReturn r w = (r, w)"

definition ioDiscard :: "'a io \<Rightarrow> 'b io \<Rightarrow> 'b io" where
  "ioDiscard m k w = k (snd (m w))"

definition ioWrap :: "'a io \<Rightarrow> 'a io" where
  "ioWrap m w = (case m w of (Inl e, w) \<Rightarrow> (Inl (errorf e), w) | r \<Rightarrow> r)"

text \<open>A step that runs a clean-up, whose error is discarded, when it fails.\<close>

definition ioCleanup :: "'a io \<Rightarrow> unit io \<Rightarrow> 'a io" where
  "ioCleanup m k w = (case m w of (Inl e, w) \<Rightarrow> (Inl e, snd (k w)) | r \<Rightarrow> r)"

text \<open>\<open>os.OpenFile\<close> with \<open>O_CREATE|O_EXCL\<close>, and opening an existing file.\<close>

definition fsCreate :: "path \<Rightarrow> unit io" where
  "fsCreate path w =
     (case next_outcome w of
        (Fail n e, w) \<Rightarrow> (Inl (failure e), w)
      | (Done, w) \<Rightarrow>
          (case content w path of
             None \<Rightarrow> (Inr (), put_file path [] w)
           | Some _ \<Rightarrow> (Inl [ErrNew], w)))"

definition fsOpen :: "path \<Rightarrow> unit io" where
  "fsOpen path w =
     (case next_outcome w of
        (Fail n e, w) \<Rightarrow> (Inl (failure e), w)
      | (Done, w) \<Rightarrow> (case content w path of None \<Rightarrow> (Inl [ErrNotExist], w) | Some _ \<Rightarrow> (Inr (), w)))"

definition write_at :: "nat \<Rightarrow> bytes \<Rightarrow> bytes \<Rightarrow> bytes" where
  "write_at pos data old = put_at pos data (old @ replicate (pos - length old) 0)"

text \<open>The count written and the error of \<open>WriteAt\<close>; \<open>Write\<close> continues at the end of the file,
  which is where the source's temporary files stand.\<close>

definition fileWriteAt :: "path \<Rightarrow> bytes \<Rightarrow> nat \<Rightarrow> world \<Rightarrow> (nat \<times> error) \<times> world" where
  "fileWriteAt path data pos w =
     (let old = (case content w path of None \<Rightarrow> [] | Some c \<Rightarrow> c)
      in case next_outcome w of
           (Done, w) \<Rightarrow> ((length data, []), put_file path (write_at pos data old) w)
         | (Fail n e, w) \<Rightarrow>
             ((min n (length data), e), put_file path (write_at pos (take n data) old) w))"

definition fileWrite :: "path \<Rightarrow> bytes \<Rightarrow> world \<Rightarrow> (nat \<times> error) \<times> world" where
  "fileWrite path data w =
     fileWriteAt path data (case content w path of None \<Rightarrow> 0 | Some c \<Rightarrow> length c) w"

text \<open>The bytes read and the error of \<open>ReadAt\<close> for \<open>n\<close> bytes; \<open>io.EOF\<close> is not told apart from
  other outcomes, since the callers test the count.\<close>

definition fileReadAt :: "path \<Rightarrow> nat \<Rightarrow> nat \<Rightarrow> world \<Rightarrow> (bytes \<times> error) \<times> world" where
  "fileReadAt path n pos w =
     (let data = slice pos (pos + n) (case content w path of None \<Rightarrow> [] | Some c \<Rightarrow> c)
      in case next_outcome w of
           (Done, w) \<Rightarrow> ((data, []), w)
         | (Fail k e, w) \<Rightarrow> ((take k data, e), w))"

text \<open>Operations that only succeed or fail: \<open>Sync\<close>, \<open>Close\<close>, \<open>syncDirectory\<close>.\<close>

definition fileEffect :: "unit io" where
  "fileEffect w =
     (case next_outcome w of
        (Done, w) \<Rightarrow> (Inr (), w)
      | (Fail n e, w) \<Rightarrow> (if e = [] then Inr () else Inl e, w))"

definition fileSync :: "path \<Rightarrow> unit io" where "fileSync path = fileEffect"
definition fileClose :: "path \<Rightarrow> unit io" where "fileClose path = fileEffect"
definition syncDir :: "path \<Rightarrow> unit io" where "syncDir path = fileEffect"

text \<open>\<open>os.Stat\<close> and \<open>File.Stat\<close>: the size of the file.\<close>

definition fsStat :: "path \<Rightarrow> nat io" where
  "fsStat path w =
     (case next_outcome w of
        (Fail n e, w) \<Rightarrow> (Inl (failure e), w)
      | (Done, w) \<Rightarrow>
          (case content w path of None \<Rightarrow> (Inl [ErrNotExist], w) | Some c \<Rightarrow> (Inr (length c), w)))"

definition fsRename :: "path \<Rightarrow> path \<Rightarrow> unit io" where
  "fsRename old new w =
     (case next_outcome w of
        (Fail n e, w) \<Rightarrow> (Inl (failure e), w)
      | (Done, w) \<Rightarrow>
          (case content w old of
             None \<Rightarrow> (Inl [ErrNotExist], w)
           | Some c \<Rightarrow> (Inr (), put_file new c (drop_file old w))))"

definition fsRemove :: "path \<Rightarrow> unit io" where
  "fsRemove path w =
     (case next_outcome w of
        (Fail n e, w) \<Rightarrow> (Inl (failure e), w)
      | (Done, w) \<Rightarrow>
          (case content w path of None \<Rightarrow> (Inl [ErrNotExist], w) | Some _ \<Rightarrow> (Inr (), drop_file path w)))"

definition fileTruncate :: "path \<Rightarrow> nat \<Rightarrow> unit io" where
  "fileTruncate path n w =
     (case next_outcome w of
        (Fail k e, w) \<Rightarrow> (Inl (failure e), w)
      | (Done, w) \<Rightarrow>
          (case content w path of
             None \<Rightarrow> (Inl [ErrNotExist], w)
           | Some c \<Rightarrow> (Inr (), put_file path (take n c) w)))"

section \<open>Laws\<close>

lemma content_put_file [simp]:
  "content (put_file p d w) q = (if q = p then Some d else content w q)"
  by (simp add: content_def put_file_def update_conv')

lemma content_drop_file [simp]:
  "content (drop_file p w) q = (if q = p then None else content w q)"
  by (simp add: content_def drop_file_def delete_conv')

lemma content_next_outcome: "next_outcome w = (r, w') \<Longrightarrow> content w' q = content w q"
  by (auto simp: next_outcome_def content_def split: list.splits)

lemma content_faults [simp]: "content (w\<lparr>wFaults := fs\<rparr>) q = content w q"
  by (simp add: content_def)

lemma next_outcome_quiet [simp]: "wFaults w = [] \<Longrightarrow> next_outcome w = (Done, w)"
  by (simp add: next_outcome_def)

lemma quiet_files [simp]:
  "wFaults (put_file p d w) = wFaults w" "wFaults (drop_file p w) = wFaults w"
  by (simp_all add: put_file_def drop_file_def)

lemma write_at_end: "pos = length old \<Longrightarrow> write_at pos data old = old @ data"
  by (simp add: write_at_def put_at_def)

lemma fileEffect_content: "fileEffect w = (r, w') \<Longrightarrow> content w' q = content w q"
  by (auto simp: fileEffect_def content_next_outcome split: prod.splits outcome.splits if_splits)

lemma fileEffect_quiet: "wFaults w = [] \<Longrightarrow> fileEffect w = (Inr (), w)"
  by (simp add: fileEffect_def)

lemmas effect_defs = fileSync_def fileClose_def syncDir_def

lemma ioThen_Inr_iff:
  "ioThen m f w = (Inr y, w'') \<longleftrightarrow> (\<exists>x w'. m w = (Inr x, w') \<and> f x w' = (Inr y, w''))"
  by (auto simp: ioThen_def split: prod.splits sum.splits)

lemma ioThen_Inr_simp [simp]: "m w = (Inr x, w') \<Longrightarrow> ioThen m f w = f x w'"
  by (simp add: ioThen_def)

lemma ioThen_Inl_simp [simp]: "m w = (Inl e, w') \<Longrightarrow> ioThen m f w = (Inl e, w')"
  by (simp add: ioThen_def)

text \<open>What the operations leave untouched, for any schedule.\<close>

lemma content_next_outcome_snd [simp]: "content (snd (next_outcome w)) q = content w q"
  by (simp add: next_outcome_def split: list.splits)

lemma fileWriteAt_other: "fileWriteAt p d i w = (r, w') \<Longrightarrow> q \<noteq> p \<Longrightarrow> content w' q = content w q"
  by (auto simp: fileWriteAt_def Let_def content_next_outcome split: prod.splits outcome.splits)

lemma fileWriteAt_full:
  assumes "fileWriteAt p d i w = ((length d, []), w')" and "content w p = Some old"
  shows "content w' p = Some (write_at i d old)"
  using assms by (auto simp: fileWriteAt_def Let_def min_def split: prod.splits outcome.splits if_splits)

lemma fileReadAt_content: "fileReadAt p n i w = (r, w') \<Longrightarrow> content w' q = content w q"
  by (auto simp: fileReadAt_def Let_def content_next_outcome split: prod.splits outcome.splits)

lemma fsOpen_content: "fsOpen p w = (r, w') \<Longrightarrow> content w' q = content w q"
  by (auto simp: fsOpen_def content_next_outcome split: prod.splits outcome.splits option.splits)

lemma fsStat_content: "fsStat p w = (r, w') \<Longrightarrow> content w' q = content w q"
  by (auto simp: fsStat_def content_next_outcome split: prod.splits outcome.splits option.splits)

lemma fsRemove_other: "fsRemove p w = (r, w') \<Longrightarrow> q \<noteq> p \<Longrightarrow> content w' q = content w q"
  by (auto simp: fsRemove_def content_next_outcome split: prod.splits outcome.splits option.splits)

lemma fsCreate_other: "fsCreate p w = (r, w') \<Longrightarrow> q \<noteq> p \<Longrightarrow> content w' q = content w q"
  by (auto simp: fsCreate_def content_next_outcome split: prod.splits outcome.splits option.splits)

lemma fsCreate_new: "fsCreate p w = (Inr u, w') \<Longrightarrow> content w p = None \<and> content w' p = Some []"
  by (auto simp: fsCreate_def content_next_outcome split: prod.splits outcome.splits option.splits)

lemma fsCreate_failed: "fsCreate p w = (Inl e, w') \<Longrightarrow> content w' q = content w q"
  by (auto simp: fsCreate_def content_next_outcome split: prod.splits outcome.splits option.splits)

lemma fsRename_failed: "fsRename p p' w = (Inl e, w') \<Longrightarrow> content w' q = content w q"
  by (auto simp: fsRename_def content_next_outcome split: prod.splits outcome.splits option.splits)

lemma fsRename_done:
  "fsRename p p' w = (Inr u, w') \<Longrightarrow> p \<noteq> p' \<Longrightarrow>
     content w p \<noteq> None \<and> content w' q = (if q = p' then content w p else if q = p then None else content w q)"
  by (auto simp: fsRename_def content_next_outcome split: prod.splits outcome.splits option.splits)

lemma fileTruncate_other: "fileTruncate p n w = (r, w') \<Longrightarrow> q \<noteq> p \<Longrightarrow> content w' q = content w q"
  by (auto simp: fileTruncate_def content_next_outcome split: prod.splits outcome.splits option.splits)

lemma fileTruncate_done:
  "fileTruncate p n w = (Inr u, w') \<Longrightarrow> \<exists>c. content w p = Some c \<and> content w' p = Some (take n c)"
  by (auto simp: fileTruncate_def content_next_outcome split: prod.splits outcome.splits option.splits)

lemma fileTruncate_failed: "fileTruncate p n w = (Inl e, w') \<Longrightarrow> content w' q = content w q"
  by (auto simp: fileTruncate_def content_next_outcome split: prod.splits outcome.splits option.splits)

lemma fileWrite_other: "fileWrite p d w = (r, w') \<Longrightarrow> q \<noteq> p \<Longrightarrow> content w' q = content w q"
  unfolding fileWrite_def by (rule fileWriteAt_other)

lemma effect_content:
  "fileSync p w = (r, w') \<Longrightarrow> content w' q = content w q"
  "fileClose p w = (r, w') \<Longrightarrow> content w' q = content w q"
  "syncDir p w = (r, w') \<Longrightarrow> content w' q = content w q"
  by (simp_all add: effect_defs fileEffect_content)

lemma effect_content_snd [simp]:
  "content (snd (fileSync p w)) q = content w q"
  "content (snd (fileClose p w)) q = content w q"
  "content (snd (syncDir p w)) q = content w q"
  by (simp_all add: effect_content [OF prod.collapse [symmetric]])

section \<open>Frames\<close>

text \<open>\<open>touches S m\<close>: whatever happens, \<open>m\<close> changes no file outside \<open>S\<close>.\<close>

definition touches :: "path set \<Rightarrow> 'a io \<Rightarrow> bool" where
  "touches S m \<longleftrightarrow> (\<forall>w r w' q. m w = (r, w') \<longrightarrow> q \<notin> S \<longrightarrow> content w' q = content w q)"

lemma touchesD: "touches S m \<Longrightarrow> m w = (r, w') \<Longrightarrow> q \<notin> S \<Longrightarrow> content w' q = content w q"
  by (auto simp: touches_def)

lemma touches_ioThen [intro]:
  assumes "touches S m" and "\<And>x. touches S (f x)"
  shows "touches S (ioThen m f)"
proof -
  have "content w' q = content w q" if "ioThen m f w = (r, w')" "q \<notin> S" for w r w' q
  proof -
    obtain r1 w1 where m: "m w = (r1, w1)" by fastforce
    then have "content w1 q = content w q" using assms(1) that(2) by (rule_tac touchesD)
    then show ?thesis
      using that m touchesD [OF assms(2), of _ w1 r w' q] by (cases r1) auto
  qed
  then show ?thesis by (auto simp: touches_def)
qed

lemma touches_ioReturn [intro]: "touches S (ioReturn r)"
  by (auto simp: touches_def ioReturn_def)

lemma touches_ioWrap [intro]:
  assumes "touches S m" shows "touches S (ioWrap m)"
proof -
  have "content w' q = content w q" if "ioWrap m w = (r, w')" "q \<notin> S" for w r w' q
    using that touchesD [OF assms, of w _ w' q] by (auto simp: ioWrap_def split: prod.splits sum.splits)
  then show ?thesis by (auto simp: touches_def)
qed

lemma touches_ioDiscard [intro]:
  assumes "touches S m" and "touches S k" shows "touches S (ioDiscard m k)"
proof -
  have "content w' q = content w q" if "ioDiscard m k w = (r, w')" "q \<notin> S" for w r w' q
  proof -
    obtain r1 w1 where m: "m w = (r1, w1)" by fastforce
    then show ?thesis
      using that touchesD [OF assms(1) m, of q] touchesD [OF assms(2), of w1 r w' q]
      by (simp add: ioDiscard_def)
  qed
  then show ?thesis by (auto simp: touches_def)
qed

lemma touches_ioCleanup [intro]:
  assumes "touches S m" and "touches S k" shows "touches S (ioCleanup m k)"
proof -
  have "content w' q = content w q" if "ioCleanup m k w = (r, w')" "q \<notin> S" for w r w' q
  proof -
    obtain r1 w1 where m: "m w = (r1, w1)" by fastforce
    obtain r2 w2 where k: "k w1 = (r2, w2)" by fastforce
    then show ?thesis
      using that m touchesD [OF assms(1) m, of q] touchesD [OF assms(2) k, of q]
      by (cases r1) (auto simp: ioCleanup_def)
  qed
  then show ?thesis by (auto simp: touches_def)
qed

lemma touches_if [intro]: "touches S m \<Longrightarrow> touches S k \<Longrightarrow> touches S (if b then m else k)"
  by simp

lemma touches_reads [intro]:
  "touches S (fsOpen p)" "touches S (fsStat p)" "touches S (fileSync p)" "touches S (fileClose p)"
  "touches S (syncDir p)"
  by (auto simp: touches_def fsOpen_content fsStat_content effect_content)

lemma touches_writes [intro]:
  "p \<in> S \<Longrightarrow> touches S (fsCreate p)" "p \<in> S \<Longrightarrow> touches S (fsRemove p)"
  "p \<in> S \<Longrightarrow> touches S (fileTruncate p n)"
  by (auto simp: touches_def dest: fsCreate_other fsRemove_other fileTruncate_other)

lemma touches_rename [intro]:
  assumes "p \<in> S" and "p' \<in> S" shows "touches S (fsRename p p')"
proof -
  have "content w' q = content w q" if "fsRename p p' w = (r, w')" "q \<notin> S" for w r w' q
    using that assms
    by (auto simp: fsRename_def content_next_outcome split: prod.splits outcome.splits option.splits)
  then show ?thesis by (auto simp: touches_def)
qed

lemma ioWrap_Inr_iff [simp]: "ioWrap m w = (Inr x, w') \<longleftrightarrow> m w = (Inr x, w')"
  by (auto simp: ioWrap_def split: prod.splits sum.splits)

lemma ioCleanup_Inr_iff [simp]: "ioCleanup m k w = (Inr x, w') \<longleftrightarrow> m w = (Inr x, w')"
  by (auto simp: ioCleanup_def split: prod.splits sum.splits)

lemma ioReturn_simp [simp]: "ioReturn r w = (r', w') \<longleftrightarrow> r = r' \<and> w = w'"
  by (auto simp: ioReturn_def)

lemma ioThen_cases:
  assumes "ioThen m f w = (r, w')"
  obtains (fail) e where "m w = (Inl e, w')" and "r = Inl e" | (proceed) x w1 where "m w = (Inr x, w1)" and "f x w1 = (r, w')"
  using assms by (auto simp: ioThen_def split: prod.splits sum.splits)

lemma ioThen_assoc: "ioThen (ioThen m f) g = ioThen m (\<lambda>x. ioThen (f x) g)"
  by (rule ext) (simp add: ioThen_def split: prod.split sum.split)

lemma put_file_faults [simp]: "wFaults (put_file q d w) = wFaults w"
  by (simp add: put_file_def)

end
