(* ===== verification/Index.thy ===== *)
theory Index
  imports Events Filesystem
begin

text \<open>
  \<open>src/storage/index.go\<close>: the sparse offset and time indexes of a segment, their 128-byte file
  header and entries, sampling from the batch map, validation of a sidecar file against the batch
  map, and the publication of sidecar files. The segment record of \<open>src/storage/partition.go\<close> is
  here because both the indexes and the partition use it. File sizes and positions are natural
  numbers; the source's \<open>int64\<close> holds them because files are far smaller than \<open>2^63\<close> bytes.
\<close>

section \<open>Constants and records\<close>

definition IndexMagic :: bytes where
  "IndexMagic = [0x49, 0x45, 0x4C, 0x49, 0x44, 0x58, 0x30, 0x30]"

definition IndexHeaderBytes :: uint16 where [simp]: "IndexHeaderBytes = 128"
definition OffsetIndexEntryBytes :: uint16 where [simp]: "OffsetIndexEntryBytes = 32"
definition TimeIndexEntryBytes :: uint16 where [simp]: "TimeIndexEntryBytes = 40"
definition MaxIndexFileBytes :: uint32 where [simp]: "MaxIndexFileBytes = 67108864"

record batchInfo =
  biBase :: uint64
  biPosition :: nat
  biBytes :: uint32
  biRecords :: uint32
  biMaxTime :: uint64

record offsetIndexEntry =
  oiBase :: uint64
  oiPosition :: uint64
  oiBytes :: uint32
  oiRecords :: uint32

record timeIndexEntry =
  tiPrefixMax :: uint64
  tiBase :: uint64
  tiPosition :: uint64
  tiBytes :: uint32
  tiRecords :: uint32

record indexHeader =
  ihKind :: uint16
  ihEntryBytes :: uint16
  ihStoreID :: StoreID
  ihTopic :: id16
  ihPartition :: uint32
  ihSegmentID :: id16
  ihBase :: uint64
  ihHeaderHash :: hash32
  ihStride :: uint32

text \<open>\<open>sgOpen\<close> tells whether the segment keeps a file handle; a nil index is \<open>None\<close>.\<close>

record segment =
  sgPath :: path
  sgOpen :: bool
  sgHeader :: SegmentHeader
  sgEnd :: uint64
  sgSize :: nat
  sgRecords :: uint64
  sgMaxTime :: uint64
  sgHeaderHash :: hash32
  sgBatches :: "batchInfo list"
  sgOffsetIndex :: "offsetIndexEntry list option"
  sgTimeIndex :: "timeIndexEntry list option"
  sgIndexDirty :: bool

definition storeIDForIdentity :: "uint64 \<Rightarrow> uint64 \<Rightarrow> StoreID" where
  "storeIDForIdentity device inode =
     (let digest = sha256_Sum256
            ([0x69, 0x6D, 0x6D, 0x75, 0x6C, 0x6F, 0x67, 0x2D, 0x73, 0x74, 0x6F, 0x72, 0x65, 0x2D, 0x69,
              0x64, 0x2D, 0x76, 0x31, 0x00] @ PutUint64 device @ PutUint64 inode);
          i = bytes_id (take 16 (hash_bytes digest))
      in if i = 0 then bytes_id ((id_bytes i)[15 := 1]) else i)"

definition segmentHeaderHash :: "bytes \<Rightarrow> hash32" where
  "segmentHeaderHash encoded = sha256_Sum256 (slice 0 (unat SegmentHeaderBytes) encoded)"

section \<open>Index headers and entries\<close>

definition newIndexHeader :: "uint16 \<Rightarrow> uint16 \<Rightarrow> StoreID \<Rightarrow> segment \<Rightarrow> uint64 \<Rightarrow> indexHeader" where
  "newIndexHeader kind entryBytes storeID sg stride =
     (let stride = (if stride = 0 then DefaultIndexStride else stride);
          stride = (if stride > 0xFFFFFFFF then 0xFFFFFFFF else stride)
      in \<lparr>ihKind = kind, ihEntryBytes = entryBytes, ihStoreID = storeID,
          ihTopic = sTopic (sgHeader sg), ihPartition = sPartition (sgHeader sg),
          ihSegmentID = sID (sgHeader sg), ihBase = sBaseOffset (sgHeader sg),
          ihHeaderHash = sgHeaderHash sg, ihStride = ucast stride\<rparr>)"

definition encodeIndexHeader :: "indexHeader \<Rightarrow> bytes" where
  "encodeIndexHeader header =
     (let data = replicate (unat IndexHeaderBytes) 0;
          data = put_at 0 IndexMagic data;
          data = put_at 8 (PutUint16 FormatVersion) data;
          data = put_at 10 (PutUint16 IndexHeaderBytes) data;
          data = put_at 12 (PutUint16 (ihKind header)) data;
          data = put_at 14 (PutUint16 (ihEntryBytes header)) data;
          data = put_at 24 (id_bytes (ihStoreID header)) data;
          data = put_at 40 (id_bytes (ihTopic header)) data;
          data = put_at 56 (PutUint32 (ihPartition header)) data;
          data = put_at 64 (id_bytes (ihSegmentID header)) data;
          data = put_at 80 (PutUint64 (ihBase header)) data;
          data = put_at 88 (hash_bytes (ihHeaderHash header)) data;
          data = put_at 120 (PutUint32 (ihStride header)) data
      in put_at 124 (PutUint32 (CRC32C (slice 0 124 data))) data)"

definition decodeIndexHeader :: "bytes \<Rightarrow> indexHeader result" where
  "decodeIndexHeader data =
     (if length data < unat IndexHeaderBytes then Inl [ErrNew]
      else if slice 0 8 data \<noteq> IndexMagic then Inl [ErrNew]
      else if Uint16 (slice 10 12 data) \<noteq> IndexHeaderBytes then Inl [ErrNew]
      else if Uint32 (slice 124 128 data) \<noteq> CRC32C (slice 0 124 data) then Inl [ErrNew]
      else if Uint16 (slice 8 10 data) \<noteq> FormatVersion then Inl [ErrNew]
      else if Uint32 (slice 16 20 data) \<noteq> 0 \<or> Uint32 (slice 20 24 data) \<noteq> 0
           \<or> Uint32 (slice 60 64 data) \<noteq> 0
      then Inl [ErrNew]
      else
        let header =
              \<lparr>ihKind = Uint16 (slice 12 14 data), ihEntryBytes = Uint16 (slice 14 16 data),
               ihStoreID = bytes_id (slice 24 40 data), ihTopic = bytes_id (slice 40 56 data),
               ihPartition = Uint32 (slice 56 60 data), ihSegmentID = bytes_id (slice 64 80 data),
               ihBase = Uint64 (slice 80 88 data), ihHeaderHash = bytes_hash (slice 88 120 data),
               ihStride = Uint32 (slice 120 124 data)\<rparr>
        in if ihKind header \<noteq> 1 \<and> ihKind header \<noteq> 2 then Inl [ErrNew]
           else
             let wantEntryBytes =
                   (if ihKind header = 2 then TimeIndexEntryBytes else OffsetIndexEntryBytes)
             in if ihEntryBytes header \<noteq> wantEntryBytes \<or> ihStride header = 0 then Inl [ErrNew]
                else Inr header)"

definition encodeOffsetIndexEntry :: "offsetIndexEntry \<Rightarrow> bytes" where
  "encodeOffsetIndexEntry entry =
     (let data = replicate (unat OffsetIndexEntryBytes) 0;
          data = put_at 0 (PutUint64 (oiBase entry)) data;
          data = put_at 8 (PutUint64 (oiPosition entry)) data;
          data = put_at 16 (PutUint32 (oiBytes entry)) data;
          data = put_at 20 (PutUint32 (oiRecords entry)) data
      in put_at 28 (PutUint32 (CRC32C (slice 0 28 data))) data)"

definition decodeOffsetIndexEntry :: "bytes \<Rightarrow> offsetIndexEntry result" where
  "decodeOffsetIndexEntry data =
     (if length data \<noteq> unat OffsetIndexEntryBytes then Inl [ErrNew]
      else if Uint32 (slice 24 28 data) \<noteq> 0 \<or> Uint32 (slice 28 32 data) \<noteq> CRC32C (slice 0 28 data)
      then Inl [ErrNew]
      else Inr \<lparr>oiBase = Uint64 (slice 0 8 data), oiPosition = Uint64 (slice 8 16 data),
                oiBytes = Uint32 (slice 16 20 data), oiRecords = Uint32 (slice 20 24 data)\<rparr>)"

definition encodeTimeIndexEntry :: "timeIndexEntry \<Rightarrow> bytes" where
  "encodeTimeIndexEntry entry =
     (let data = replicate (unat TimeIndexEntryBytes) 0;
          data = put_at 0 (PutUint64 (tiPrefixMax entry)) data;
          data = put_at 8 (PutUint64 (tiBase entry)) data;
          data = put_at 16 (PutUint64 (tiPosition entry)) data;
          data = put_at 24 (PutUint32 (tiBytes entry)) data;
          data = put_at 28 (PutUint32 (tiRecords entry)) data
      in put_at 36 (PutUint32 (CRC32C (slice 0 36 data))) data)"

definition decodeTimeIndexEntry :: "bytes \<Rightarrow> timeIndexEntry result" where
  "decodeTimeIndexEntry data =
     (if length data \<noteq> unat TimeIndexEntryBytes then Inl [ErrNew]
      else if Uint32 (slice 32 36 data) \<noteq> 0 \<or> Uint32 (slice 36 40 data) \<noteq> CRC32C (slice 0 36 data)
      then Inl [ErrNew]
      else Inr \<lparr>tiPrefixMax = Uint64 (slice 0 8 data), tiBase = Uint64 (slice 8 16 data),
                tiPosition = Uint64 (slice 16 24 data), tiBytes = Uint32 (slice 24 28 data),
                tiRecords = Uint32 (slice 28 32 data)\<rparr>)"

section \<open>Sampling\<close>

definition maxOffsetEntries :: nat where
  "maxOffsetEntries = (unat MaxIndexFileBytes - unat IndexHeaderBytes) div unat OffsetIndexEntryBytes"

definition maxTimeEntries :: nat where
  "maxTimeEntries = (unat MaxIndexFileBytes - unat IndexHeaderBytes) div unat TimeIndexEntryBytes"

text \<open>The loop of \<open>sampleBatchIndexes\<close>, with the loop's variables as arguments.\<close>

fun sampleLoop ::
  "uint64 \<Rightarrow> nat \<Rightarrow> nat \<Rightarrow> uint64 \<Rightarrow> batchInfo list \<Rightarrow> offsetIndexEntry list \<Rightarrow> timeIndexEntry list
     \<Rightarrow> offsetIndexEntry list \<times> timeIndexEntry list" where
  "sampleLoop stride index lastPosition prefixMax [] offsetEntries timeEntries =
     (offsetEntries, timeEntries)"
| "sampleLoop stride index lastPosition prefixMax (b # bs) offsetEntries timeEntries =
     (let prefixMax = (if sint (biMaxTime b) > sint prefixMax then biMaxTime b else prefixMax)
      in if \<not> (index = 0 \<or> of_nat (biPosition b) - of_nat lastPosition \<ge> stride)
         then sampleLoop stride (Suc index) lastPosition prefixMax bs offsetEntries timeEntries
         else
           let offsetEntries' =
                 (if length offsetEntries < maxOffsetEntries then
                    offsetEntries @ [\<lparr>oiBase = biBase b, oiPosition = of_nat (biPosition b),
                                      oiBytes = biBytes b, oiRecords = biRecords b\<rparr>]
                  else offsetEntries);
               timeEntries' =
                 (if length timeEntries < maxTimeEntries then
                    timeEntries @ [\<lparr>tiPrefixMax = prefixMax, tiBase = biBase b,
                                    tiPosition = of_nat (biPosition b), tiBytes = biBytes b,
                                    tiRecords = biRecords b\<rparr>]
                  else timeEntries)
           in sampleLoop stride (Suc index) (biPosition b) prefixMax bs offsetEntries' timeEntries')"

definition sampleBatchIndexes ::
  "batchInfo list \<Rightarrow> uint64 \<Rightarrow> offsetIndexEntry list \<times> timeIndexEntry list" where
  "sampleBatchIndexes batches stride =
     (let stride = (if stride = 0 then DefaultIndexStride else stride)
      in sampleLoop stride 0 0 MinInt64 batches [] [])"

section \<open>Validation of a sidecar file\<close>

definition batchMap :: "batchInfo list \<Rightarrow> uint64 \<rightharpoonup> batchInfo" where
  "batchMap batches = map_of (rev (map (\<lambda>b. (biBase b, b)) batches))"

definition validateIndexHeader :: "indexHeader \<Rightarrow> segment \<Rightarrow> StoreID \<Rightarrow> bool \<Rightarrow> unit result" where
  "validateIndexHeader header sg storeID time =
     (let wantKind = (if time then 2 else 1);
          wantEntryBytes = (if time then TimeIndexEntryBytes else OffsetIndexEntryBytes)
      in if ihKind header \<noteq> wantKind \<or> ihEntryBytes header \<noteq> wantEntryBytes
            \<or> ihStoreID header \<noteq> storeID \<or> ihPartition header \<noteq> sPartition (sgHeader sg)
            \<or> ihBase header \<noteq> sBaseOffset (sgHeader sg) \<or> ihHeaderHash header \<noteq> sgHeaderHash sg
         then Inl [ErrNew]
         else if ihTopic header \<noteq> sTopic (sgHeader sg) \<or> ihSegmentID header \<noteq> sID (sgHeader sg)
         then Inl [ErrNew]
         else Inr ())"

text \<open>The entry loops read fixed-size entries up to the end of the file.\<close>

function offsetEntryLoop ::
  "(uint64 \<rightharpoonup> batchInfo) \<Rightarrow> bytes \<Rightarrow> nat \<Rightarrow> offsetIndexEntry list \<Rightarrow> uint64 \<Rightarrow> uint64
     \<Rightarrow> offsetIndexEntry list result" where
  "offsetEntryLoop batches data position entries previousBase previousPosition =
     (if \<not> position < length data then Inr entries
      else
        andThen (decodeOffsetIndexEntry (slice position (position + 32) data)) (\<lambda>entry.
          case batches (oiBase entry) of
            None \<Rightarrow> Inl [ErrNew]
          | Some b \<Rightarrow>
              if oiPosition entry \<noteq> of_nat (biPosition b) \<or> oiBytes entry \<noteq> biBytes b
                 \<or> oiRecords entry \<noteq> biRecords b \<or> \<not> validOffsetRange (oiBase entry) (oiRecords entry)
              then Inl [ErrNew]
              else if length entries > 0 \<and>
                      (oiBase entry \<le> previousBase \<or> oiPosition entry \<le> previousPosition)
              then Inl [ErrNew]
              else offsetEntryLoop batches data (position + 32) (entries @ [entry])
                     (oiBase entry) (oiPosition entry)))"
  by pat_completeness auto
termination
  by (relation "measure (\<lambda>(batches, data, position, _). length data - position)") auto

declare offsetEntryLoop.simps [simp del]

definition validateOffsetIndex :: "bytes \<Rightarrow> segment \<Rightarrow> StoreID \<Rightarrow> offsetIndexEntry list result" where
  "validateOffsetIndex data sg storeID =
     andThen (decodeIndexHeader data) (\<lambda>header.
     andThen (validateIndexHeader header sg storeID False) (\<lambda>_.
       if (length data - unat IndexHeaderBytes) mod unat OffsetIndexEntryBytes \<noteq> 0 then Inl [ErrNew]
       else offsetEntryLoop (batchMap (sgBatches sg)) data (unat IndexHeaderBytes) [] 0 0))"

text \<open>The inner loop of \<open>validateTimeIndex\<close> moves the batch cursor to the entry's base.\<close>

fun advanceCursor :: "batchInfo list \<Rightarrow> uint64 \<Rightarrow> uint64 \<Rightarrow> batchInfo list \<times> uint64" where
  "advanceCursor [] base prefixMax = ([], prefixMax)"
| "advanceCursor (b # bs) base prefixMax =
     (if biBase b \<le> base
      then advanceCursor bs base (if sint (biMaxTime b) > sint prefixMax then biMaxTime b else prefixMax)
      else (b # bs, prefixMax))"

function timeEntryLoop ::
  "(uint64 \<rightharpoonup> batchInfo) \<Rightarrow> bytes \<Rightarrow> nat \<Rightarrow> timeIndexEntry list \<Rightarrow> uint64 \<Rightarrow> uint64
     \<Rightarrow> batchInfo list \<Rightarrow> uint64 \<Rightarrow> timeIndexEntry list result" where
  "timeEntryLoop batches data position entries previousBase previousPosition cursor prefixMax =
     (if \<not> position < length data then Inr entries
      else
        andThen (decodeTimeIndexEntry (slice position (position + 40) data)) (\<lambda>entry.
          case batches (tiBase entry) of
            None \<Rightarrow> Inl [ErrNew]
          | Some b \<Rightarrow>
              if tiPosition entry \<noteq> of_nat (biPosition b) \<or> tiBytes entry \<noteq> biBytes b
                 \<or> tiRecords entry \<noteq> biRecords b \<or> \<not> validOffsetRange (tiBase entry) (tiRecords entry)
              then Inl [ErrNew]
              else
                case advanceCursor cursor (tiBase entry) prefixMax of
                  (cursor', prefixMax') \<Rightarrow>
                    if tiPrefixMax entry \<noteq> prefixMax' \<or>
                       (length entries > 0 \<and>
                        (sint (tiPrefixMax entry) < sint (tiPrefixMax (last entries))
                         \<or> tiBase entry \<le> previousBase \<or> tiPosition entry \<le> previousPosition))
                    then Inl [ErrNew]
                    else timeEntryLoop batches data (position + 40) (entries @ [entry])
                           (tiBase entry) (tiPosition entry) cursor' prefixMax'))"
  by pat_completeness auto
termination
  by (relation "measure (\<lambda>(batches, data, position, _). length data - position)") auto

declare timeEntryLoop.simps [simp del]

definition validateTimeIndex :: "bytes \<Rightarrow> segment \<Rightarrow> StoreID \<Rightarrow> timeIndexEntry list result" where
  "validateTimeIndex data sg storeID =
     andThen (decodeIndexHeader data) (\<lambda>header.
     andThen (validateIndexHeader header sg storeID True) (\<lambda>_.
       if (length data - unat IndexHeaderBytes) mod unat TimeIndexEntryBytes \<noteq> 0 then Inl [ErrNew]
       else timeEntryLoop (batchMap (sgBatches sg)) data (unat IndexHeaderBytes) [] 0 0
              (sgBatches sg) MinInt64))"

section \<open>Sidecar files\<close>

text \<open>\<open>readFile\<close> of \<open>src/storage/partition.go\<close>.\<close>

definition readFile :: "path \<Rightarrow> nat \<Rightarrow> bytes io" where
  "readFile path n w =
     (case fileReadAt path n 0 w of
        ((data, err), w) \<Rightarrow>
          if err \<noteq> [] \<and> ErrEOF \<notin> set err then (Inl err, w)
          else if length data \<noteq> n then (Inl [ErrUnexpectedEOF], w)
          else (Inr data, w))"

definition readIndexFile :: "path \<Rightarrow> bytes io" where
  "readIndexFile path =
     ioThen (fsOpen path) (\<lambda>_ w.
       case ioThen (fsStat path) (\<lambda>n.
              if n < unat IndexHeaderBytes \<or> n > unat MaxIndexFileBytes then ioReturn (Inl [ErrNew])
              else readFile path n) w of
         (r, w) \<Rightarrow> (r, snd (fileClose path w)))"

text \<open>\<open>indexPath\<close> replaces the extension \<open>.log\<close> of a segment path.\<close>

definition indexPath :: "path \<Rightarrow> bool \<Rightarrow> path" where
  "indexPath segmentPath time =
     take (length segmentPath - 4) segmentPath
     @ (if time then [0x2E, 0x74, 0x69, 0x6D, 0x65, 0x69, 0x6E, 0x64, 0x65, 0x78]
        else [0x2E, 0x69, 0x6E, 0x64, 0x65, 0x78])"

definition writePiece :: "path \<Rightarrow> bytes \<Rightarrow> unit io" where
  "writePiece path data w =
     (case fileWrite path data w of
        ((count, err), w) \<Rightarrow>
          if err \<noteq> [] then (Inl err, w)
          else if count \<noteq> length data then (Inl [ErrShortWrite], w)
          else (Inr (), w))"

primrec writePieces :: "path \<Rightarrow> bytes list \<Rightarrow> unit io" where
  "writePieces path [] = ioReturn (Inr ())"
| "writePieces path (d # ds) = ioThen (writePiece path d) (\<lambda>_. writePieces path ds)"

text \<open>\<open>temporary\<close> is the name that \<open>os.CreateTemp\<close> chooses; it is removed on every failure.\<close>

definition writeIndexFile :: "path \<Rightarrow> path \<Rightarrow> indexHeader \<Rightarrow> bytes list \<Rightarrow> unit io" where
  "writeIndexFile temporary path header entries =
     ioThen (fsCreate temporary) (\<lambda>_ w.
       case ioThen (writePieces temporary (encodeIndexHeader header # entries))
              (\<lambda>_. fileSync temporary) w of
         (Inl e, w) \<Rightarrow> ioDiscard (fileClose temporary)
                        (ioDiscard (fsRemove temporary) (ioReturn (Inl e))) w
       | (Inr _, w) \<Rightarrow>
           (case ioThen (fileClose temporary) (\<lambda>_. fsRename temporary path) w of
              (Inl e, w) \<Rightarrow> ioDiscard (fsRemove temporary) (ioReturn (Inl e)) w
            | (Inr _, w) \<Rightarrow> syncDir path w))"

definition installSegmentIndexes ::
  "path \<times> path \<Rightarrow> segment \<Rightarrow> StoreID \<Rightarrow> uint64 \<Rightarrow> world \<Rightarrow> unit result \<times> segment \<times> world" where
  "installSegmentIndexes temporaries sg storeID stride w =
     (case sampleBatchIndexes (sgBatches sg) stride of
        (offsetEntries, timeEntries) \<Rightarrow>
          let offsetHeader = newIndexHeader 1 OffsetIndexEntryBytes storeID sg stride;
              timeHeader = newIndexHeader 2 TimeIndexEntryBytes storeID sg stride
          in case writeIndexFile (fst temporaries) (indexPath (sgPath sg) False) offsetHeader
                    (map encodeOffsetIndexEntry offsetEntries) w of
               (Inl e, w) \<Rightarrow> (Inl (errorf e), sg, w)
             | (Inr _, w) \<Rightarrow>
                 (case writeIndexFile (snd temporaries) (indexPath (sgPath sg) True) timeHeader
                         (map encodeTimeIndexEntry timeEntries) w of
                    (Inl e, w) \<Rightarrow> (Inl (errorf e), sg, w)
                  | (Inr _, w) \<Rightarrow>
                      (Inr (), sg\<lparr>sgOffsetIndex := Some offsetEntries, sgTimeIndex := Some timeEntries,
                                  sgIndexDirty := False\<rparr>, w)))"

definition loadOrBuildIndexes :: "segment \<Rightarrow> StoreID \<Rightarrow> uint64 \<Rightarrow> world \<Rightarrow> segment \<times> world" where
  "loadOrBuildIndexes sg storeID stride w =
     (case readIndexFile (indexPath (sgPath sg) False) w of
        (offsetData, w) \<Rightarrow>
          (case readIndexFile (indexPath (sgPath sg) True) w of
             (timeData, w) \<Rightarrow>
               let sg1 = (case andThen offsetData (\<lambda>d. validateOffsetIndex d sg storeID) of
                            Inl _ \<Rightarrow> sg | Inr es \<Rightarrow> sg\<lparr>sgOffsetIndex := Some es\<rparr>);
                   sg2 = (case andThen timeData (\<lambda>d. validateTimeIndex d sg1 storeID) of
                            Inl _ \<Rightarrow> sg1 | Inr es \<Rightarrow> sg1\<lparr>sgTimeIndex := Some es\<rparr>)
               in if sgOffsetIndex sg2 = None \<or> sgTimeIndex sg2 = None then
                    (case sampleBatchIndexes (sgBatches sg2) stride of
                       (offsetEntries, timeEntries) \<Rightarrow>
                         let sg3 = (if sgOffsetIndex sg2 = None
                                    then sg2\<lparr>sgOffsetIndex := Some offsetEntries\<rparr> else sg2);
                             sg4 = (if sgTimeIndex sg3 = None
                                    then sg3\<lparr>sgTimeIndex := Some timeEntries\<rparr> else sg3)
                         in (sg4\<lparr>sgIndexDirty := True\<rparr>, w))
                  else (sg2, w)))"

definition refreshSegmentIndexes :: "segment \<Rightarrow> StoreID \<Rightarrow> uint64 \<Rightarrow> segment" where
  "refreshSegmentIndexes sg storeID stride =
     (case sampleBatchIndexes (sgBatches sg) stride of
        (offsetEntries, timeEntries) \<Rightarrow>
          sg\<lparr>sgOffsetIndex := Some offsetEntries, sgTimeIndex := Some timeEntries,
             sgIndexDirty := True\<rparr>)"

section \<open>Encoded headers and entries as their fields\<close>

definition index_fields :: "indexHeader \<Rightarrow> bytes" where
  "index_fields h =
     IndexMagic @ PutUint16 FormatVersion @ PutUint16 IndexHeaderBytes @ PutUint16 (ihKind h)
     @ PutUint16 (ihEntryBytes h) @ replicate 8 0 @ id_bytes (ihStoreID h) @ id_bytes (ihTopic h)
     @ PutUint32 (ihPartition h) @ replicate 4 0 @ id_bytes (ihSegmentID h) @ PutUint64 (ihBase h)
     @ hash_bytes (ihHeaderHash h) @ PutUint32 (ihStride h)"

definition offset_fields :: "offsetIndexEntry \<Rightarrow> bytes" where
  "offset_fields e =
     PutUint64 (oiBase e) @ PutUint64 (oiPosition e) @ PutUint32 (oiBytes e)
     @ PutUint32 (oiRecords e) @ replicate 4 0"

definition time_fields :: "timeIndexEntry \<Rightarrow> bytes" where
  "time_fields e =
     PutUint64 (tiPrefixMax e) @ PutUint64 (tiBase e) @ PutUint64 (tiPosition e)
     @ PutUint32 (tiBytes e) @ PutUint32 (tiRecords e) @ replicate 4 0"

lemma Uint32_zeros [simp]: "Uint32 (replicate 4 0) = 0"
  by (simp add: word_of_bytes_eq_iff le_bytes_zero)

lemma length_IndexMagic [simp]: "length IndexMagic = 8"
  by (simp add: IndexMagic_def)

lemma length_index_fields [simp]:
  "length (index_fields h) = 124" "length (offset_fields e) = 28" "length (time_fields t) = 36"
  by (simp_all add: index_fields_def offset_fields_def time_fields_def)

lemma encodeIndexHeader_fields:
  "encodeIndexHeader h = index_fields h @ PutUint32 (CRC32C (index_fields h))"
  by (simp add: encodeIndexHeader_def Let_def put_at_replicate put_at_buf slice_buf index_fields_def)

lemma encodeOffsetIndexEntry_fields:
  "encodeOffsetIndexEntry e = offset_fields e @ PutUint32 (CRC32C (offset_fields e))"
  by (simp add: encodeOffsetIndexEntry_def Let_def put_at_replicate put_at_buf slice_buf
      offset_fields_def)

lemma encodeTimeIndexEntry_fields:
  "encodeTimeIndexEntry e = time_fields e @ PutUint32 (CRC32C (time_fields e))"
  by (simp add: encodeTimeIndexEntry_def Let_def put_at_replicate put_at_buf slice_buf
      time_fields_def)

lemma length_encoded_index [simp]:
  "length (encodeIndexHeader h) = 128" "length (encodeOffsetIndexEntry e) = 32"
  "length (encodeTimeIndexEntry t) = 40"
  by (simp_all add: encodeIndexHeader_fields encodeOffsetIndexEntry_fields
      encodeTimeIndexEntry_fields)

definition index_header_ok :: "indexHeader \<Rightarrow> bool" where
  "index_header_ok h \<longleftrightarrow>
     (ihKind h = 1 \<and> ihEntryBytes h = 32 \<or> ihKind h = 2 \<and> ihEntryBytes h = 40) \<and> ihStride h \<noteq> 0"

lemma decodeOffsetIndexEntry_Inr_iff:
  "decodeOffsetIndexEntry data = Inr e \<longleftrightarrow> data = encodeOffsetIndexEntry e"
proof
  assume a: "decodeOffsetIndexEntry data = Inr e"
  then have l: "length data = 32" by (simp add: decodeOffsetIndexEntry_def split: if_splits)
  have f: "slice 0 8 data = PutUint64 (oiBase e)" "slice 8 16 data = PutUint64 (oiPosition e)"
    "slice 16 20 data = PutUint32 (oiBytes e)" "slice 20 24 data = PutUint32 (oiRecords e)"
    "slice 24 28 data = replicate 4 0"
    and c: "slice 28 32 data = PutUint32 (CRC32C (slice 0 28 data))"
    using a l by (auto simp: decodeOffsetIndexEntry_def word_of_bytes_eq_iff le_bytes_zero
        split: if_splits)
  have j: "slice 0 8 data @ slice 8 16 data @ slice 16 20 data @ slice 20 24 data @ slice 24 28 data
      = slice 0 28 data" using l by (simp add: join_slices)
  have "offset_fields e = slice 0 28 data"
    unfolding j [symmetric] f offset_fields_def by simp
  moreover have "data = slice 0 28 data @ slice 28 32 data" using l by (simp add: join_slices)
  ultimately show "data = encodeOffsetIndexEntry e" using c by (simp add: encodeOffsetIndexEntry_fields)
next
  let ?d = "encodeOffsetIndexEntry e"
  assume "data = ?d"
  moreover have "slice 0 8 ?d = PutUint64 (oiBase e)" "slice 8 16 ?d = PutUint64 (oiPosition e)"
    "slice 16 20 ?d = PutUint32 (oiBytes e)" "slice 20 24 ?d = PutUint32 (oiRecords e)"
    "slice 24 28 ?d = replicate 4 0"
    by (simp_all add: encodeOffsetIndexEntry_fields offset_fields_def field_slices)
  moreover have "slice 0 28 ?d = offset_fields e" "slice 28 32 ?d = PutUint32 (CRC32C (offset_fields e))"
    by (simp_all add: encodeOffsetIndexEntry_fields field_slices)
  ultimately show "decodeOffsetIndexEntry data = Inr e"
    by (simp add: decodeOffsetIndexEntry_def)
qed

lemma decodeTimeIndexEntry_Inr_iff:
  "decodeTimeIndexEntry data = Inr e \<longleftrightarrow> data = encodeTimeIndexEntry e"
proof
  assume a: "decodeTimeIndexEntry data = Inr e"
  then have l: "length data = 40" by (simp add: decodeTimeIndexEntry_def split: if_splits)
  have f: "slice 0 8 data = PutUint64 (tiPrefixMax e)" "slice 8 16 data = PutUint64 (tiBase e)"
    "slice 16 24 data = PutUint64 (tiPosition e)"
    "slice 24 28 data = PutUint32 (tiBytes e)" "slice 28 32 data = PutUint32 (tiRecords e)"
    "slice 32 36 data = replicate 4 0"
    and c: "slice 36 40 data = PutUint32 (CRC32C (slice 0 36 data))"
    using a l by (auto simp: decodeTimeIndexEntry_def word_of_bytes_eq_iff le_bytes_zero
        split: if_splits)
  have j: "slice 0 8 data @ slice 8 16 data @ slice 16 24 data @ slice 24 28 data @ slice 28 32 data
      @ slice 32 36 data = slice 0 36 data" using l by (simp add: join_slices)
  have "time_fields e = slice 0 36 data"
    unfolding j [symmetric] f time_fields_def by simp
  moreover have "data = slice 0 36 data @ slice 36 40 data" using l by (simp add: join_slices)
  ultimately show "data = encodeTimeIndexEntry e" using c by (simp add: encodeTimeIndexEntry_fields)
next
  let ?d = "encodeTimeIndexEntry e"
  assume "data = ?d"
  moreover have "slice 0 8 ?d = PutUint64 (tiPrefixMax e)" "slice 8 16 ?d = PutUint64 (tiBase e)"
    "slice 16 24 ?d = PutUint64 (tiPosition e)"
    "slice 24 28 ?d = PutUint32 (tiBytes e)" "slice 28 32 ?d = PutUint32 (tiRecords e)"
    "slice 32 36 ?d = replicate 4 0"
    by (simp_all add: encodeTimeIndexEntry_fields time_fields_def field_slices)
  moreover have "slice 0 36 ?d = time_fields e" "slice 36 40 ?d = PutUint32 (CRC32C (time_fields e))"
    by (simp_all add: encodeTimeIndexEntry_fields field_slices)
  ultimately show "decodeTimeIndexEntry data = Inr e"
    by (simp add: decodeTimeIndexEntry_def)
qed

lemma decodeIndexHeader_Inr_iff:
  "decodeIndexHeader data = Inr h \<longleftrightarrow> (\<exists>r. data = encodeIndexHeader h @ r) \<and> index_header_ok h"
proof
  assume a: "decodeIndexHeader data = Inr h"
  then have l: "128 \<le> length data" by (simp add: decodeIndexHeader_def split: if_splits)
  have f: "slice 0 8 data = IndexMagic" "slice 8 10 data = PutUint16 1" "slice 10 12 data = PutUint16 128"
    "slice 12 14 data = PutUint16 (ihKind h)" "slice 14 16 data = PutUint16 (ihEntryBytes h)"
    "slice 16 20 data = replicate 4 0" "slice 20 24 data = replicate 4 0"
    "slice 24 40 data = id_bytes (ihStoreID h)" "slice 40 56 data = id_bytes (ihTopic h)"
    "slice 56 60 data = PutUint32 (ihPartition h)" "slice 60 64 data = replicate 4 0"
    "slice 64 80 data = id_bytes (ihSegmentID h)" "slice 80 88 data = PutUint64 (ihBase h)"
    "slice 88 120 data = hash_bytes (ihHeaderHash h)" "slice 120 124 data = PutUint32 (ihStride h)"
    and c: "slice 124 128 data = PutUint32 (CRC32C (slice 0 124 data))"
    and ok: "index_header_ok h"
    using a l by (auto simp: decodeIndexHeader_def Let_def word_of_bytes_eq_iff le_bytes_zero
        index_header_ok_def split: if_splits)
  have j: "slice 0 8 data @ slice 8 10 data @ slice 10 12 data @ slice 12 14 data @ slice 14 16 data
      @ (slice 16 20 data @ slice 20 24 data) @ slice 24 40 data @ slice 40 56 data @ slice 56 60 data
      @ slice 60 64 data @ slice 64 80 data @ slice 80 88 data @ slice 88 120 data @ slice 120 124 data
      = slice 0 124 data" using l by (simp add: join_slices)
  have "index_fields h = slice 0 124 data"
    unfolding j [symmetric] f index_fields_def by (simp flip: replicate_add)
  moreover have "slice 0 124 data @ slice 124 128 data = slice 0 128 data" using l by (simp add: join_slices)
  moreover have "data = slice 0 128 data @ drop 128 data" using l by (simp add: list_split_at)
  ultimately have "data = encodeIndexHeader h @ drop 128 data"
    using c by (simp add: encodeIndexHeader_fields)
  with ok show "(\<exists>r. data = encodeIndexHeader h @ r) \<and> index_header_ok h" by blast
next
  assume "(\<exists>r. data = encodeIndexHeader h @ r) \<and> index_header_ok h"
  then obtain r where d: "data = encodeIndexHeader h @ r" and ok: "index_header_ok h" by blast
  let ?d = "encodeIndexHeader h @ r"
  have z: "(replicate 8 0 :: bytes) = replicate 4 0 @ replicate 4 0" by (simp flip: replicate_add)
  have "slice 0 8 ?d = IndexMagic" "slice 8 10 ?d = PutUint16 1" "slice 10 12 ?d = PutUint16 128"
    "slice 12 14 ?d = PutUint16 (ihKind h)" "slice 14 16 ?d = PutUint16 (ihEntryBytes h)"
    "slice 16 20 ?d = replicate 4 0" "slice 20 24 ?d = replicate 4 0"
    "slice 24 40 ?d = id_bytes (ihStoreID h)" "slice 40 56 ?d = id_bytes (ihTopic h)"
    "slice 56 60 ?d = PutUint32 (ihPartition h)" "slice 60 64 ?d = replicate 4 0"
    "slice 64 80 ?d = id_bytes (ihSegmentID h)" "slice 80 88 ?d = PutUint64 (ihBase h)"
    "slice 88 120 ?d = hash_bytes (ihHeaderHash h)" "slice 120 124 ?d = PutUint32 (ihStride h)"
    unfolding encodeIndexHeader_fields index_fields_def z by (simp_all add: field_slices)
  moreover have "slice 0 124 ?d = index_fields h" "slice 124 128 ?d = PutUint32 (CRC32C (index_fields h))"
    unfolding encodeIndexHeader_fields by (simp_all add: field_slices)
  ultimately show "decodeIndexHeader data = Inr h"
    using ok unfolding d by (simp add: decodeIndexHeader_def index_header_ok_def) auto
qed

section \<open>The entry loops\<close>

text \<open>
  Both sidecar files are a header and a sequence of fixed-size entries, and both loops decode an
  entry, check it against the loop's state and go on. The locale is what the two have in common; a
  file is accepted exactly when it is the encoding of entries the checks let through.
\<close>

primrec run_steps :: "('s \<Rightarrow> 'e \<Rightarrow> 's option) \<Rightarrow> 's \<Rightarrow> 'e list \<Rightarrow> 's option" where
  "run_steps step s [] = Some s"
| "run_steps step s (e # es) =
     (case step s e of None \<Rightarrow> None | Some s' \<Rightarrow> run_steps step s' es)"

locale entry_file =
  fixes dec :: "bytes \<Rightarrow> 'e result" and enc :: "'e \<Rightarrow> bytes" and width :: nat
    and step :: "'s \<Rightarrow> 'e \<Rightarrow> 's option" and loop :: "bytes \<Rightarrow> nat \<Rightarrow> 's \<Rightarrow> 'r result"
    and out :: "'s \<Rightarrow> 'r"
  assumes dec_iff: "dec d = Inr e \<longleftrightarrow> d = enc e"
    and length_enc: "length (enc e) = width"
    and width_pos: "0 < width"
    and loop_unfold: "loop data pos s =
      (if \<not> pos < length data then Inr (out s)
       else andThen (dec (slice pos (pos + width) data)) (\<lambda>e.
              case step s e of None \<Rightarrow> Inl [ErrNew] | Some s' \<Rightarrow> loop data (pos + width) s'))"
begin

lemma concat_enc_Nil: "concat (map enc es) = [] \<longleftrightarrow> es = []"
  using length_enc width_pos by (cases es) (auto simp flip: length_0_conv)

lemma loop_Inr_iff:
  "loop data pos s = Inr r \<longleftrightarrow>
     (\<exists>es s'. drop pos data = concat (map enc es) \<and> run_steps step s es = Some s' \<and> r = out s')"
proof (induction "length data - pos" arbitrary: pos s rule: less_induct)
  case less
  show ?case
  proof (cases "pos < length data")
    case False
    then have "drop pos data = []" by simp
    moreover have "[] = concat (map enc es) \<longleftrightarrow> es = []" for es
      using concat_enc_Nil [of es] by metis
    ultimately show ?thesis using False by (auto simp: loop_unfold [of data pos])
  next
    case True
    have split: "drop pos data = slice pos (pos + width) data @ drop (pos + width) data"
      by (simp add: drop_eq_slice_append)
    have IH: "loop data (pos + width) s' = Inr r \<longleftrightarrow> (\<exists>es s''. drop (pos + width) data =
        concat (map enc es) \<and> run_steps step s' es = Some s'' \<and> r = out s'')" for s'
      using less [of "pos + width" s'] True width_pos by simp
    show ?thesis
    proof
      assume "loop data pos s = Inr r"
      then obtain e s' where d: "slice pos (pos + width) data = enc e" and st: "step s e = Some s'"
        and l: "loop data (pos + width) s' = Inr r"
        using True by (auto simp: loop_unfold [of data pos] andThen_Inr_iff dec_iff
            split: option.splits)
      then obtain es s'' where "drop (pos + width) data = concat (map enc es)"
        "run_steps step s' es = Some s''" "r = out s''" using IH by blast
      then have "drop pos data = concat (map enc (e # es))" "run_steps step s (e # es) = Some s''"
        "r = out s''" using split d st by simp_all
      then show "\<exists>es s'. drop pos data = concat (map enc es) \<and> run_steps step s es = Some s' \<and> r = out s'"
        by blast
    next
      assume "\<exists>es s'. drop pos data = concat (map enc es) \<and> run_steps step s es = Some s' \<and> r = out s'"
      then obtain es s'' where d: "drop pos data = concat (map enc es)"
        and run: "run_steps step s es = Some s''" and r: "r = out s''" by blast
      moreover have "drop pos data \<noteq> []" using True by simp
      ultimately obtain e es' where es: "es = e # es'" using concat_enc_Nil by (cases es) auto
      have "drop pos data = enc e @ concat (map enc es')" using d es by simp
      then have "slice pos (pos + width) data = enc e" "drop (pos + width) data = concat (map enc es')"
        using length_enc [of e] drop_drop [of width pos data] by (simp_all add: slice_def add.commute)
      moreover obtain s' where "step s e = Some s'" "run_steps step s' es' = Some s''"
        using run es by (auto split: option.splits)
      moreover have "dec (enc e) = Inr e" by (simp add: dec_iff)
      moreover have "loop data (pos + width) s' = Inr r" using IH r calculation by blast
      ultimately show "loop data pos s = Inr r"
        using True by (simp add: loop_unfold [of data pos s])
    qed
  qed
qed

end

text \<open>The checks of the two loops, as steps of their states.\<close>

definition offsetStep ::
  "(uint64 \<rightharpoonup> batchInfo) \<Rightarrow> offsetIndexEntry list \<times> uint64 \<times> uint64 \<Rightarrow> offsetIndexEntry
     \<Rightarrow> (offsetIndexEntry list \<times> uint64 \<times> uint64) option" where
  "offsetStep batches s entry =
     (case s of (entries, previousBase, previousPosition) \<Rightarrow>
        case batches (oiBase entry) of
          None \<Rightarrow> None
        | Some b \<Rightarrow>
            if oiPosition entry \<noteq> of_nat (biPosition b) \<or> oiBytes entry \<noteq> biBytes b
               \<or> oiRecords entry \<noteq> biRecords b \<or> \<not> validOffsetRange (oiBase entry) (oiRecords entry)
               \<or> length entries > 0 \<and>
                 (oiBase entry \<le> previousBase \<or> oiPosition entry \<le> previousPosition)
            then None
            else Some (entries @ [entry], oiBase entry, oiPosition entry))"

definition timeStep ::
  "(uint64 \<rightharpoonup> batchInfo) \<Rightarrow> timeIndexEntry list \<times> uint64 \<times> uint64 \<times> batchInfo list \<times> uint64
     \<Rightarrow> timeIndexEntry
     \<Rightarrow> (timeIndexEntry list \<times> uint64 \<times> uint64 \<times> batchInfo list \<times> uint64) option" where
  "timeStep batches s entry =
     (case s of (entries, previousBase, previousPosition, cursor, prefixMax) \<Rightarrow>
        case batches (tiBase entry) of
          None \<Rightarrow> None
        | Some b \<Rightarrow>
            let (cursor', prefixMax') = advanceCursor cursor (tiBase entry) prefixMax
            in if tiPosition entry \<noteq> of_nat (biPosition b) \<or> tiBytes entry \<noteq> biBytes b
                  \<or> tiRecords entry \<noteq> biRecords b \<or> \<not> validOffsetRange (tiBase entry) (tiRecords entry)
                  \<or> tiPrefixMax entry \<noteq> prefixMax'
                  \<or> length entries > 0 \<and>
                    (sint (tiPrefixMax entry) < sint (tiPrefixMax (last entries))
                     \<or> tiBase entry \<le> previousBase \<or> tiPosition entry \<le> previousPosition)
               then None
               else Some (entries @ [entry], tiBase entry, tiPosition entry, cursor', prefixMax'))"

interpretation offset_file: entry_file decodeOffsetIndexEntry encodeOffsetIndexEntry 32
    "offsetStep batches"
    "\<lambda>data pos (entries, base, position). offsetEntryLoop batches data pos entries base position" fst
  for batches
proof (unfold_locales, goal_cases)
  case (4 data pos s)
  obtain entries base position where "s = (entries, base, position)" by (cases s) auto
  then show ?case
    by (simp add: offsetEntryLoop.simps [of batches data pos] offsetStep_def Let_def
        cong: if_cong option.case_cong)
      (auto simp: andThen_def split: sum.splits option.splits)
qed (simp_all add: decodeOffsetIndexEntry_Inr_iff)

interpretation time_file: entry_file decodeTimeIndexEntry encodeTimeIndexEntry 40
    "timeStep batches"
    "\<lambda>data pos (entries, base, position, cursor, prefixMax).
       timeEntryLoop batches data pos entries base position cursor prefixMax" fst
  for batches
proof (unfold_locales, goal_cases)
  case (4 data pos s)
  obtain entries base position cursor prefixMax
    where "s = (entries, base, position, cursor, prefixMax)" by (cases s) auto
  then show ?case
    by (simp add: timeEntryLoop.simps [of batches data pos] timeStep_def Let_def
        cong: if_cong option.case_cong)
      (auto simp: andThen_def split: sum.splits option.splits prod.splits)
qed (simp_all add: decodeTimeIndexEntry_Inr_iff)

section \<open>Sampled indexes are accepted\<close>

definition batch_before :: "batchInfo \<Rightarrow> batchInfo \<Rightarrow> bool" where
  "batch_before a b \<longleftrightarrow> biBase a < biBase b \<and> biPosition a < biPosition b"

text \<open>The batch map of a segment: bases and positions increase and every batch has a valid range.\<close>

definition batches_ok :: "batchInfo list \<Rightarrow> bool" where
  "batches_ok bs \<longleftrightarrow>
     sorted_wrt batch_before bs \<and>
     (\<forall>b \<in> set bs. biPosition b < 2 ^ 63 \<and> validOffsetRange (biBase b) (biRecords b))"

definition prefix_max :: "uint64 \<Rightarrow> batchInfo list \<Rightarrow> uint64" where
  "prefix_max = foldl (\<lambda>m b. if sint (biMaxTime b) > sint m then biMaxTime b else m)"

lemma prefix_max_simps [simp]:
  "prefix_max m [] = m"
  "prefix_max m (b # bs) = prefix_max (if sint (biMaxTime b) > sint m then biMaxTime b else m) bs"
  "prefix_max m (bs @ cs) = prefix_max (prefix_max m bs) cs"
  by (simp_all add: prefix_max_def)

lemma prefix_max_ge: "sint m \<le> sint (prefix_max m bs)"
proof (induction bs arbitrary: m)
  case (Cons b bs)
  show ?case using Cons [of m] Cons [of "biMaxTime b"] by simp
qed simp

lemma batchMap_Some:
  assumes "sorted_wrt batch_before bs" and "b \<in> set bs"
  shows "batchMap bs (biBase b) = Some b"
proof -
  have "distinct (map biBase bs)"
    using assms(1) by (induction bs) (auto simp: batch_before_def)
  moreover have "map fst (rev (map (\<lambda>b. (biBase b, b)) bs)) = rev (map biBase bs)"
    by (simp add: rev_map comp_def)
  ultimately show ?thesis using assms(2) by (simp add: batchMap_def)
qed

lemma batchMap_SomeD: "batchMap bs base = Some b \<Longrightarrow> b \<in> set bs \<and> biBase b = base"
  by (auto simp: batchMap_def dest!: map_of_SomeD)

lemma advanceCursor_prefix:
  assumes "\<forall>b \<in> set xs. biBase b \<le> base"
  shows "advanceCursor (xs @ ys) base m = advanceCursor ys base (prefix_max m xs)"
  using assms by (induction xs arbitrary: m) auto

lemma advanceCursor_stop:
  assumes "\<forall>b \<in> set ys. base < biBase b"
  shows "advanceCursor ys base m = (ys, m)"
  using assms by (cases ys) (auto simp: not_le)

lemma position_word_less:
  assumes "i < j" and "j < 2 ^ 63" shows "(of_nat i :: uint64) < of_nat j"
  using assms by (simp add: word_less_nat_alt)

lemma sampled_offsets_run:
  assumes "sorted_wrt batch_before bs"
    and "\<forall>b \<in> set bs. bm (biBase b) = Some b \<and> biPosition b < 2 ^ 63
           \<and> validOffsetRange (biBase b) (biRecords b)"
    and "acc \<noteq> [] \<longrightarrow> (\<forall>b \<in> set bs. base < biBase b \<and> position < of_nat (biPosition b))"
  shows "\<exists>es s. fst (sampleLoop stride n lp m bs acc tacc) = acc @ es
    \<and> run_steps (offsetStep bm) (acc, base, position) es = Some s \<and> fst s = acc @ es"
  using assms
proof (induction bs arbitrary: n lp m acc tacc base position)
  case (Cons b bs)
  let ?e = "\<lparr>oiBase = biBase b, oiPosition = of_nat (biPosition b), oiBytes = biBytes b, oiRecords = biRecords b\<rparr>"
  show ?case
  proof (cases "\<not> (n = 0 \<or> of_nat (biPosition b) - of_nat lp \<ge> stride) \<or> \<not> length acc < maxOffsetEntries")
    case True
    then show ?thesis
      using Cons.IH [of acc base position] Cons.prems by (auto simp: Let_def)
  next
    case False
    have later: "\<forall>c \<in> set bs. biBase b < biBase c \<and> (of_nat (biPosition b) :: uint64) < of_nat (biPosition c)"
      using Cons.prems by (auto simp: batch_before_def intro: position_word_less)
    have step: "offsetStep bm (acc, base, position) ?e = Some (acc @ [?e], biBase b, of_nat (biPosition b))"
      using Cons.prems by (auto simp: offsetStep_def not_le)
    have "\<exists>m' lp' tacc'. sampleLoop stride n lp m (b # bs) acc tacc
        = sampleLoop stride (Suc n) lp' m' bs (acc @ [?e]) tacc'"
      using False by (intro exI, subst sampleLoop.simps) (simp add: Let_def)
    then obtain m' lp' tacc' where loop: "sampleLoop stride n lp m (b # bs) acc tacc
        = sampleLoop stride (Suc n) lp' m' bs (acc @ [?e]) tacc'" by (elim exE) (rule that)
    have "\<exists>es s. fst (sampleLoop stride (Suc n) lp' m' bs (acc @ [?e]) tacc') = (acc @ [?e]) @ es
      \<and> run_steps (offsetStep bm) (acc @ [?e], biBase b, of_nat (biPosition b)) es = Some s
      \<and> fst s = (acc @ [?e]) @ es"
      using Cons.prems later by (intro Cons.IH) auto
    then obtain es s where "fst (sampleLoop stride (Suc n) lp' m' bs (acc @ [?e]) tacc') = (acc @ [?e]) @ es"
      "run_steps (offsetStep bm) (acc @ [?e], biBase b, of_nat (biPosition b)) es = Some s"
      "fst s = (acc @ [?e]) @ es" by (elim exE conjE) (rule that)
    then show ?thesis using loop step by (intro exI [of _ "?e # es"] exI [of _ s]) simp
  qed
qed simp

lemma sampled_times_run:
  assumes "sorted_wrt batch_before (skipped @ bs)"
    and "\<forall>b \<in> set bs. bm (biBase b) = Some b \<and> biPosition b < 2 ^ 63
           \<and> validOffsetRange (biBase b) (biRecords b)"
    and "acc \<noteq> [] \<longrightarrow> sint (tiPrefixMax (last acc)) \<le> sint v
           \<and> (\<forall>b \<in> set bs. base < biBase b \<and> position < of_nat (biPosition b))"
    and "m = prefix_max v skipped"
  shows "\<exists>es s. snd (sampleLoop stride n lp m bs oacc acc) = acc @ es
    \<and> run_steps (timeStep bm) (acc, base, position, skipped @ bs, v) es = Some s \<and> fst s = acc @ es"
  using assms
proof (induction bs arbitrary: n lp m oacc acc base position skipped v)
  case (Cons b bs)
  define m' where "m' = (if sint (biMaxTime b) > sint m then biMaxTime b else m)"
  let ?e = "\<lparr>tiPrefixMax = m', tiBase = biBase b, tiPosition = of_nat (biPosition b), tiBytes = biBytes b, tiRecords = biRecords b\<rparr>"
  show ?case
  proof (cases "\<not> (n = 0 \<or> of_nat (biPosition b) - of_nat lp \<ge> stride) \<or> \<not> length acc < maxTimeEntries")
    case True
    then have "\<exists>n' lp' oacc'. sampleLoop stride n lp m (b # bs) oacc acc
        = sampleLoop stride n' lp' m' bs oacc' acc"
      by (cases "n = 0 \<or> of_nat (biPosition b) - of_nat lp \<ge> stride"; intro exI, subst sampleLoop.simps)
        (simp_all add: Let_def flip: m'_def)
    then obtain n' lp' oacc' where "sampleLoop stride n lp m (b # bs) oacc acc
        = sampleLoop stride n' lp' m' bs oacc' acc" by (elim exE) (rule that)
    then show ?thesis
      using Cons.IH [of "skipped @ [b]" acc v base position m'] Cons.prems by (auto simp: m'_def)
  next
    case False
    have later: "\<forall>c \<in> set bs. biBase b < biBase c \<and> (of_nat (biPosition b) :: uint64) < of_nat (biPosition c)"
      using Cons.prems by (auto simp: batch_before_def sorted_wrt_append intro: position_word_less)
    have "advanceCursor ((skipped @ [b]) @ bs) (biBase b) v = (bs, m')"
      using Cons.prems later
      by (subst advanceCursor_prefix)
        (auto simp: sorted_wrt_append batch_before_def advanceCursor_stop m'_def less_imp_le)
    moreover have "sint v \<le> sint m'" using prefix_max_ge [of v "skipped @ [b]"] Cons.prems
      by (simp add: m'_def split: if_splits)
    ultimately have step: "timeStep bm (acc, base, position, skipped @ b # bs, v) ?e
        = Some (acc @ [?e], biBase b, of_nat (biPosition b), bs, m')"
      using Cons.prems by (auto simp: timeStep_def not_le)
    have "\<exists>lp' oacc'. sampleLoop stride n lp m (b # bs) oacc acc
        = sampleLoop stride (Suc n) lp' m' bs oacc' (acc @ [?e])"
      using False by (intro exI, subst sampleLoop.simps) (simp add: Let_def flip: m'_def)
    then obtain lp' oacc' where loop: "sampleLoop stride n lp m (b # bs) oacc acc
        = sampleLoop stride (Suc n) lp' m' bs oacc' (acc @ [?e])" by (elim exE) (rule that)
    have "sorted_wrt batch_before bs" using Cons.prems by (simp add: sorted_wrt_append)
    then have "\<exists>es s. snd (sampleLoop stride (Suc n) lp' m' bs oacc' (acc @ [?e])) = (acc @ [?e]) @ es
      \<and> run_steps (timeStep bm) (acc @ [?e], biBase b, of_nat (biPosition b), [] @ bs, m') es = Some s
      \<and> fst s = (acc @ [?e]) @ es"
      using Cons.prems later by (intro Cons.IH) auto
    then obtain es s where "snd (sampleLoop stride (Suc n) lp' m' bs oacc' (acc @ [?e])) = (acc @ [?e]) @ es"
      "run_steps (timeStep bm) (acc @ [?e], biBase b, of_nat (biPosition b), bs, m') es = Some s"
      "fst s = (acc @ [?e]) @ es" by (elim exE conjE) (simp add: that)
    then show ?thesis using loop step by (intro exI [of _ "?e # es"] exI [of _ s]) simp
  qed
qed simp

lemma sampleLoop_lengths:
  "length acc \<le> maxOffsetEntries \<Longrightarrow> length tacc \<le> maxTimeEntries \<Longrightarrow>
     length (fst (sampleLoop stride n lp m bs acc tacc)) \<le> maxOffsetEntries
     \<and> length (snd (sampleLoop stride n lp m bs acc tacc)) \<le> maxTimeEntries"
  by (induction bs arbitrary: n lp m acc tacc) (simp_all add: Let_def)

section \<open>Accepted indexes are true\<close>

definition offset_entry :: "batchInfo \<Rightarrow> offsetIndexEntry" where
  "offset_entry b = \<lparr>oiBase = biBase b, oiPosition = of_nat (biPosition b), oiBytes = biBytes b,
     oiRecords = biRecords b\<rparr>"

definition time_entry :: "batchInfo list \<Rightarrow> batchInfo \<Rightarrow> timeIndexEntry" where
  "time_entry bs b = \<lparr>
     tiPrefixMax = prefix_max MinInt64 (takeWhile (\<lambda>c. biBase c \<le> biBase b) bs),
     tiBase = biBase b, tiPosition = of_nat (biPosition b), tiBytes = biBytes b,
     tiRecords = biRecords b\<rparr>"

text \<open>An index tells the truth about a batch map: every entry is the entry of a batch, and bases and
  positions increase.\<close>

definition true_offset_index :: "batchInfo list \<Rightarrow> offsetIndexEntry list \<Rightarrow> bool" where
  "true_offset_index bs es \<longleftrightarrow>
     set es \<subseteq> offset_entry ` set bs \<and>
     sorted_wrt (\<lambda>a b. oiBase a < oiBase b \<and> oiPosition a < oiPosition b) es"

definition true_time_index :: "batchInfo list \<Rightarrow> timeIndexEntry list \<Rightarrow> bool" where
  "true_time_index bs es \<longleftrightarrow>
     set es \<subseteq> time_entry bs ` set bs \<and>
     sorted_wrt (\<lambda>a b. tiBase a < tiBase b \<and> tiPosition a < tiPosition b) es"

lemma offsetStep_Some_iff:
  "offsetStep (batchMap bs) (acc, base, position) e = Some s \<longleftrightarrow>
     (\<exists>b. batchMap bs (oiBase e) = Some b \<and> e = offset_entry b
        \<and> validOffsetRange (biBase b) (biRecords b)
        \<and> (acc \<noteq> [] \<longrightarrow> base < oiBase e \<and> position < oiPosition e)
        \<and> s = (acc @ [e], oiBase e, oiPosition e))"
  by (auto simp: offsetStep_def offset_entry_def not_le dest: batchMap_SomeD
      split: option.splits if_splits intro!: offsetIndexEntry.equality)

lemma run_offset_sound:
  assumes "run_steps (offsetStep (batchMap bs)) (acc, base, position) es = Some s"
  shows "fst s = acc @ es \<and> true_offset_index bs es
    \<and> (acc \<noteq> [] \<longrightarrow> (\<forall>e \<in> set es. base < oiBase e \<and> position < oiPosition e))"
  using assms
proof (induction es arbitrary: acc base position)
  case (Cons e es)
  then obtain s' where st: "offsetStep (batchMap bs) (acc, base, position) e = Some s'"
    and run: "run_steps (offsetStep (batchMap bs)) s' es = Some s" by (auto split: option.splits)
  then obtain b where b: "batchMap bs (oiBase e) = Some b" "e = offset_entry b"
    "acc \<noteq> [] \<longrightarrow> base < oiBase e \<and> position < oiPosition e"
    and s': "s' = (acc @ [e], oiBase e, oiPosition e)" by (auto simp: offsetStep_Some_iff)
  have "fst s = (acc @ [e]) @ es \<and> true_offset_index bs es
      \<and> (acc @ [e] \<noteq> [] \<longrightarrow> (\<forall>x \<in> set es. oiBase e < oiBase x \<and> oiPosition e < oiPosition x))"
    using run unfolding s' by (rule Cons.IH)
  moreover have "b \<in> set bs" using b batchMap_SomeD by blast
  ultimately show ?case using b
    by (auto simp: true_offset_index_def simp del: One_nat_def intro: less_trans)
qed (auto simp: true_offset_index_def)

lemma advanceCursor_eq:
  "advanceCursor cs base m =
     (dropWhile (\<lambda>c. biBase c \<le> base) cs, prefix_max m (takeWhile (\<lambda>c. biBase c \<le> base) cs))"
  by (induction cs arbitrary: m) auto

lemma timeStep_SomeD:
  assumes "timeStep (batchMap bs) (acc, base, position, cursor, v) e = Some s"
    and "bs = pre @ cursor" and "v = prefix_max MinInt64 pre"
    and "\<forall>c \<in> set pre. acc \<noteq> [] \<and> biBase c \<le> base"
  shows "\<exists>b \<in> set bs. e = time_entry bs b"
    and "acc \<noteq> [] \<longrightarrow> base < tiBase e \<and> position < tiPosition e"
    and "\<exists>pre' cursor'. s = (acc @ [e], tiBase e, tiPosition e, cursor', prefix_max MinInt64 pre')
           \<and> bs = pre' @ cursor' \<and> (\<forall>c \<in> set pre'. biBase c \<le> tiBase e)"
proof -
  let ?P = "\<lambda>c. biBase c \<le> tiBase e"
  obtain b where b: "batchMap bs (tiBase e) = Some b" "tiPosition e = of_nat (biPosition b)"
    "tiBytes e = biBytes b" "tiRecords e = biRecords b"
    and m: "tiPrefixMax e = prefix_max v (takeWhile ?P cursor)"
    and after: "acc \<noteq> [] \<longrightarrow> base < tiBase e \<and> position < tiPosition e"
    and s: "s = (acc @ [e], tiBase e, tiPosition e, dropWhile ?P cursor,
              prefix_max v (takeWhile ?P cursor))"
    using assms(1) by (auto simp: timeStep_def advanceCursor_eq not_le split: option.splits if_splits)
  have pre: "\<forall>c \<in> set pre. ?P c" using assms(4) after by fastforce
  then have tw: "takeWhile ?P bs = pre @ takeWhile ?P cursor" using assms(2) by simp
  have "b \<in> set bs" "biBase b = tiBase e" using b batchMap_SomeD by blast+
  moreover have "e = time_entry bs b"
    using b m tw assms(3) \<open>biBase b = tiBase e\<close> by (simp add: time_entry_def)
  ultimately show "\<exists>b \<in> set bs. e = time_entry bs b" by blast
  show "acc \<noteq> [] \<longrightarrow> base < tiBase e \<and> position < tiPosition e" by (fact after)
  show "\<exists>pre' cursor'. s = (acc @ [e], tiBase e, tiPosition e, cursor', prefix_max MinInt64 pre')
      \<and> bs = pre' @ cursor' \<and> (\<forall>c \<in> set pre'. biBase c \<le> tiBase e)"
    using s assms(2,3) tw pre
    by (intro exI [of _ "takeWhile ?P bs"] exI [of _ "dropWhile ?P cursor"])
      (auto dest: set_takeWhileD)
qed

lemma run_time_sound:
  assumes "run_steps (timeStep (batchMap bs)) (acc, base, position, cursor, v) es = Some s"
    and "bs = pre @ cursor" and "v = prefix_max MinInt64 pre"
    and "\<forall>c \<in> set pre. acc \<noteq> [] \<and> biBase c \<le> base"
  shows "fst s = acc @ es \<and> true_time_index bs es
    \<and> (acc \<noteq> [] \<longrightarrow> (\<forall>e \<in> set es. base < tiBase e \<and> position < tiPosition e))"
  using assms
proof (induction es arbitrary: acc base position cursor v pre)
  case (Cons e es)
  then obtain s' where st: "timeStep (batchMap bs) (acc, base, position, cursor, v) e = Some s'"
    and run: "run_steps (timeStep (batchMap bs)) s' es = Some s" by (auto split: option.splits)
  note d = timeStep_SomeD [OF st Cons.prems(2-4)]
  obtain pre' cursor' where s': "s' = (acc @ [e], tiBase e, tiPosition e, cursor', prefix_max MinInt64 pre')"
    and c: "bs = pre' @ cursor'" "\<forall>c \<in> set pre'. acc @ [e] \<noteq> [] \<and> biBase c \<le> tiBase e"
    using d(3) by auto
  have "fst s = (acc @ [e]) @ es \<and> true_time_index bs es
      \<and> (acc @ [e] \<noteq> [] \<longrightarrow> (\<forall>x \<in> set es. tiBase e < tiBase x \<and> tiPosition e < tiPosition x))"
    using run c unfolding s' by (intro Cons.IH) auto
  then show ?case using d(1,2) by (auto simp: true_time_index_def intro: less_trans)
qed (auto simp: true_time_index_def)

lemma offset_file_sound:
  "offsetEntryLoop (batchMap bs) data pos [] 0 0 = Inr es \<Longrightarrow> true_offset_index bs es"
  using offset_file.loop_Inr_iff [of "batchMap bs" data pos "([], 0, 0)" es] run_offset_sound
  by fastforce

lemma time_file_sound:
  "timeEntryLoop (batchMap bs) data pos [] 0 0 bs MinInt64 = Inr es \<Longrightarrow> true_time_index bs es"
  using time_file.loop_Inr_iff [of "batchMap bs" data pos "([], 0, 0, bs, MinInt64)" es]
    run_time_sound [of bs "[]" 0 0 bs MinInt64 _ _ "[]"]
  by fastforce

lemma validateOffsetIndex_sound:
  "validateOffsetIndex data sg storeID = Inr es \<Longrightarrow> true_offset_index (sgBatches sg) es"
  by (auto simp: validateOffsetIndex_def andThen_Inr_iff intro: offset_file_sound split: if_splits)

lemma validateTimeIndex_sound:
  "validateTimeIndex data sg storeID = Inr es \<Longrightarrow> true_time_index (sgBatches sg) es"
  by (auto simp: validateTimeIndex_def andThen_Inr_iff intro: time_file_sound split: if_splits)

lemma sampleBatchIndexes_run:
  assumes "batches_ok bs"
  shows "\<exists>s. run_steps (offsetStep (batchMap bs)) ([], 0, 0) (fst (sampleBatchIndexes bs stride)) = Some s
           \<and> fst s = fst (sampleBatchIndexes bs stride)"
    and "\<exists>s. run_steps (timeStep (batchMap bs)) ([], 0, 0, bs, MinInt64)
               (snd (sampleBatchIndexes bs stride)) = Some s
           \<and> fst s = snd (sampleBatchIndexes bs stride)"
proof -
  have a: "sorted_wrt batch_before bs" "\<forall>b \<in> set bs. batchMap bs (biBase b) = Some b
      \<and> biPosition b < 2 ^ 63 \<and> validOffsetRange (biBase b) (biRecords b)"
    using assms batchMap_Some by (auto simp: batches_ok_def)
  show "\<exists>s. run_steps (offsetStep (batchMap bs)) ([], 0, 0) (fst (sampleBatchIndexes bs stride)) = Some s
      \<and> fst s = fst (sampleBatchIndexes bs stride)"
    using sampled_offsets_run [OF a, of "[]" 0 0 "if stride = 0 then DefaultIndexStride else stride"
        0 0 MinInt64 "[]"] by (auto simp: sampleBatchIndexes_def)
  show "\<exists>s. run_steps (timeStep (batchMap bs)) ([], 0, 0, bs, MinInt64)
        (snd (sampleBatchIndexes bs stride)) = Some s
      \<and> fst s = snd (sampleBatchIndexes bs stride)"
    using sampled_times_run [of "[]" bs "batchMap bs" "[]" MinInt64 0 0 MinInt64
        "if stride = 0 then DefaultIndexStride else stride" 0 0 "[]"] a
    by (auto simp: sampleBatchIndexes_def)
qed

lemma sampleBatchIndexes_true:
  assumes "batches_ok bs"
  shows "true_offset_index bs (fst (sampleBatchIndexes bs stride))"
    and "true_time_index bs (snd (sampleBatchIndexes bs stride))"
  using sampleBatchIndexes_run [OF assms, of stride] run_offset_sound
    run_time_sound [of bs "[]" 0 0 bs MinInt64 _ _ "[]"] by fastforce+

section \<open>Publication of a sidecar file\<close>

lemma writePiece_other: "writePiece p d w = (r, w') \<Longrightarrow> q \<noteq> p \<Longrightarrow> content w' q = content w q"
  by (auto simp: writePiece_def dest: fileWrite_other split: prod.splits if_splits)

lemma writePiece_done:
  assumes "writePiece p d w = (Inr u, w')" and "content w p = Some old"
  shows "content w' p = Some (old @ d)"
proof -
  have "fileWriteAt p d (length old) w = ((length d, []), w')"
    using assms by (auto simp: writePiece_def fileWrite_def split: prod.splits if_splits)
  then show ?thesis using assms(2) fileWriteAt_full write_at_end by fastforce
qed

lemma writePieces_other: "writePieces p ds w = (r, w') \<Longrightarrow> q \<noteq> p \<Longrightarrow> content w' q = content w q"
proof (induction ds arbitrary: w)
  case (Cons d ds)
  then show ?case
    by (auto simp: ioThen_def dest!: writePiece_other [of p d w _ _ q] split: prod.splits sum.splits)
qed (simp add: ioReturn_def)

lemma writePieces_done:
  "writePieces p ds w = (Inr u, w') \<Longrightarrow> content w p = Some old \<Longrightarrow>
     content w' p = Some (old @ concat ds)"
proof (induction ds arbitrary: w old)
  case (Cons d ds)
  then obtain u' w'' where "writePiece p d w = (Inr u', w'')" "writePieces p ds w'' = (Inr u, w')"
    by (auto simp: ioThen_Inr_iff)
  then show ?case using writePiece_done Cons by fastforce
qed (simp add: ioReturn_def)

lemma writeIndexFile_effect:
  assumes "writeIndexFile t p h es w = (r, w')" and "t \<noteq> p"
  shows "q \<noteq> p \<Longrightarrow> q \<noteq> t \<Longrightarrow> content w' q = content w q"
    and "content w' p = content w p \<or> content w' p = Some (encodeIndexHeader h @ concat es)"
    and "r = Inr u \<Longrightarrow> content w' p = Some (encodeIndexHeader h @ concat es) \<and> content w' t = None"
proof -
  let ?pieces = "encodeIndexHeader h # es"
  let ?fill = "ioThen (writePieces t ?pieces) (\<lambda>_. fileSync t)"
  let ?publish = "ioThen (fileClose t) (\<lambda>_. fsRename t p)"
  obtain r1 w1 where cr: "fsCreate t w = (r1, w1)" by fastforce
  have all: "(q \<noteq> p \<longrightarrow> q \<noteq> t \<longrightarrow> content w' q = content w q)
    \<and> (content w' p = content w p \<or> content w' p = Some (concat ?pieces))
    \<and> (r = Inr u \<longrightarrow> content w' p = Some (concat ?pieces) \<and> content w' t = None)"
  proof (cases r1)
    case (Inl e)
    then have "r = Inl e" "w' = w1" using assms(1) cr by (auto simp: writeIndexFile_def)
    then show ?thesis using fsCreate_failed [of t w] cr Inl by auto
  next
    case (Inr v)
    have o1: "x \<noteq> t \<Longrightarrow> content w1 x = content w x" for x using fsCreate_other cr by blast
    have n1: "content w1 t = Some []" using fsCreate_new cr Inr by blast
    obtain r2 w2 where fill: "?fill w1 = (r2, w2)" by fastforce
    have o2: "x \<noteq> t \<Longrightarrow> content w2 x = content w x" for x
      using fill o1 [of x] writePieces_other [of t ?pieces w1 _ _ x] effect_content(1) [of t _ _ _ x]
      by (auto simp: ioThen_def split: prod.splits sum.splits)
    show ?thesis
    proof (cases r2)
      case (Inl e)
      then have "w' = snd (fsRemove t (snd (fileClose t w2)))" "r = Inl e"
        using assms(1) cr fill Inr by (auto simp: writeIndexFile_def ioDiscard_def ioReturn_def)
      then show ?thesis
        using o2 [of q] o2 [of p] assms(2) fsRemove_other [of t "snd (fileClose t w2)" _ w']
        by (auto simp: prod_eq_iff)
    next
      case filled: (Inr v')
      have n2: "content w2 t = Some (concat ?pieces)"
        using fill n1 filled writePieces_done [of t ?pieces w1 _ _ "[]"] effect_content(1) [of t _ _ _ t]
        by (auto simp: ioThen_Inr_iff simp del: writePieces.simps)
      obtain r3 w3 where pub: "?publish w2 = (r3, w3)" by fastforce
      show ?thesis
      proof (cases r3)
        case (Inl e)
        then have w3: "x \<noteq> t \<Longrightarrow> content w3 x = content w x" for x
          using pub o2 [of x] fsRename_failed [of t p _ _ w3 x] effect_content(2) [of t w2 _ _ x]
          by (auto simp: ioThen_def split: prod.splits sum.splits)
        have "w' = snd (fsRemove t w3)" "r = Inl e"
          using assms(1) cr fill Inr filled pub Inl
          by (auto simp: writeIndexFile_def ioDiscard_def ioReturn_def)
        then show ?thesis
          using w3 assms(2) fsRemove_other [of t w3 _ w'] by (auto simp: prod_eq_iff)
      next
        case (Inr v'')
        then obtain w2' u' where c: "fileClose t w2 = (Inr u', w2')" "fsRename t p w2' = (Inr v'', w3)"
          using pub by (auto simp: ioThen_Inr_iff)
        have w3: "content w3 x = (if x = p then Some (concat ?pieces) else if x = t then None else content w x)"
          for x using fsRename_done [OF c(2) assms(2), of x] effect_content(2) [OF c(1)] n2 o2 [of x]
          by auto
        have "syncDir p w3 = (r, w')"
          using assms(1) cr fill \<open>r1 = Inr v\<close> filled pub Inr by (auto simp: writeIndexFile_def)
        then show ?thesis using w3 effect_content(3) [of p w3 r w'] assms(2) by auto
      qed
    qed
  qed
  show "q \<noteq> p \<Longrightarrow> q \<noteq> t \<Longrightarrow> content w' q = content w q"
    and "content w' p = content w p \<or> content w' p = Some (encodeIndexHeader h @ concat es)"
    and "r = Inr u \<Longrightarrow> content w' p = Some (encodeIndexHeader h @ concat es) \<and> content w' t = None"
    using all by auto
qed

section \<open>Reloading published indexes\<close>

lemma newIndexHeader_stride: "ihStride (newIndexHeader k n sid sg stride) \<noteq> 0"
proof -
  have "ucast s \<noteq> (0 :: uint32)" if "s \<noteq> 0" "s \<le> 0xFFFFFFFF" for s :: uint64
    using that ucast_64_32_64 [of s] by (auto simp: word_le_nat_alt word_unat_eq_iff)
  then show ?thesis by (auto simp: newIndexHeader_def Let_def)
qed

lemma newIndexHeader_fields [simp]:
  "ihKind (newIndexHeader k n sid sg stride) = k"
  "ihEntryBytes (newIndexHeader k n sid sg stride) = n"
  "ihStoreID (newIndexHeader k n sid sg stride) = sid"
  "ihTopic (newIndexHeader k n sid sg stride) = sTopic (sgHeader sg)"
  "ihPartition (newIndexHeader k n sid sg stride) = sPartition (sgHeader sg)"
  "ihSegmentID (newIndexHeader k n sid sg stride) = sID (sgHeader sg)"
  "ihBase (newIndexHeader k n sid sg stride) = sBaseOffset (sgHeader sg)"
  "ihHeaderHash (newIndexHeader k n sid sg stride) = sgHeaderHash sg"
  by (simp_all add: newIndexHeader_def Let_def)

lemma concat_fixed_length:
  "(\<And>e. length (enc e) = n) \<Longrightarrow> length (concat (map enc es)) = n * length es"
  by (induction es) auto

lemma validateOffsetIndex_published:
  fixes sg :: segment and stride :: uint64
  assumes "batches_ok (sgBatches sg)"
  defines "es \<equiv> fst (sampleBatchIndexes (sgBatches sg) stride)"
  shows "validateOffsetIndex (encodeIndexHeader (newIndexHeader 1 OffsetIndexEntryBytes sid sg stride)
      @ concat (map encodeOffsetIndexEntry es)) sg sid = Inr es"
proof -
  let ?h = "newIndexHeader 1 OffsetIndexEntryBytes sid sg stride"
  let ?d = "encodeIndexHeader ?h @ concat (map encodeOffsetIndexEntry es)"
  have "decodeIndexHeader ?d = Inr ?h"
    using newIndexHeader_stride by (auto simp: decodeIndexHeader_Inr_iff index_header_ok_def)
  moreover have "validateIndexHeader ?h sg sid False = Inr ()"
    by (simp add: validateIndexHeader_def)
  moreover have "length (concat (map encodeOffsetIndexEntry es)) = 32 * length es"
    by (rule concat_fixed_length) simp
  moreover have "drop 128 ?d = concat (map encodeOffsetIndexEntry es)" by simp
  then have "offsetEntryLoop (batchMap (sgBatches sg)) ?d 128 [] 0 0 = Inr es"
    using sampleBatchIndexes_run(1) [OF assms(1), of stride]
      offset_file.loop_Inr_iff [of "batchMap (sgBatches sg)" ?d 128 "([], 0, 0)" es]
    unfolding es_def by fastforce
  ultimately show ?thesis by (simp add: validateOffsetIndex_def)
qed

lemma validateTimeIndex_published:
  fixes sg :: segment and stride :: uint64
  assumes "batches_ok (sgBatches sg)"
  defines "es \<equiv> snd (sampleBatchIndexes (sgBatches sg) stride)"
  shows "validateTimeIndex (encodeIndexHeader (newIndexHeader 2 TimeIndexEntryBytes sid sg stride)
      @ concat (map encodeTimeIndexEntry es)) sg sid = Inr es"
proof -
  let ?h = "newIndexHeader 2 TimeIndexEntryBytes sid sg stride"
  let ?d = "encodeIndexHeader ?h @ concat (map encodeTimeIndexEntry es)"
  have "decodeIndexHeader ?d = Inr ?h"
    using newIndexHeader_stride by (auto simp: decodeIndexHeader_Inr_iff index_header_ok_def)
  moreover have "validateIndexHeader ?h sg sid True = Inr ()"
    by (simp add: validateIndexHeader_def)
  moreover have "length (concat (map encodeTimeIndexEntry es)) = 40 * length es"
    by (rule concat_fixed_length) simp
  moreover have "drop 128 ?d = concat (map encodeTimeIndexEntry es)" by simp
  then have "timeEntryLoop (batchMap (sgBatches sg)) ?d 128 [] 0 0 (sgBatches sg) MinInt64 = Inr es"
    using sampleBatchIndexes_run(2) [OF assms(1), of stride]
      time_file.loop_Inr_iff [of "batchMap (sgBatches sg)" ?d 128 "([], 0, 0, sgBatches sg, MinInt64)" es]
    unfolding es_def by fastforce
  ultimately show ?thesis by (simp add: validateTimeIndex_def)
qed

lemma sampleBatchIndexes_lengths:
  "length (fst (sampleBatchIndexes bs stride)) \<le> maxOffsetEntries"
  "length (snd (sampleBatchIndexes bs stride)) \<le> maxTimeEntries"
  using sampleLoop_lengths [of "[]" "[]"] by (simp_all add: sampleBatchIndexes_def Let_def)

lemma published_sizes:
  "128 + 32 * length (fst (sampleBatchIndexes bs stride)) \<le> 67108864"
  "128 + 40 * length (snd (sampleBatchIndexes bs stride)) \<le> 67108864"
  using sampleBatchIndexes_lengths [of bs stride] by (simp_all add: maxOffsetEntries_def maxTimeEntries_def)

lemma readIndexFile_quiet:
  assumes "content w p = Some d" and "128 \<le> length d" and "length d \<le> 67108864" and "wFaults w = []"
  shows "readIndexFile p w = (Inr d, w)"
  using assms by (simp add: readIndexFile_def ioThen_def fsOpen_def fsStat_def readFile_def
      fileReadAt_def effect_defs fileEffect_quiet slice_all not_less)

lemma indexPath_neq: "indexPath p False \<noteq> indexPath p True"
  by (simp add: indexPath_def)

lemma loadOrBuildIndexes_content:
  "loadOrBuildIndexes sg sid stride w = (sg', w') \<Longrightarrow>
     sgBatches sg' = sgBatches sg \<and> sgPath sg' = sgPath sg"
  by (auto simp: loadOrBuildIndexes_def Let_def split: prod.splits if_splits sum.splits)

lemma loadOrBuildIndexes_true:
  assumes "batches_ok (sgBatches sg)" and "sgOffsetIndex sg = None" and "sgTimeIndex sg = None"
    and "loadOrBuildIndexes sg storeID stride w = (sg', w')"
  shows "\<exists>os ts. sgOffsetIndex sg' = Some os \<and> true_offset_index (sgBatches sg) os
    \<and> sgTimeIndex sg' = Some ts \<and> true_time_index (sgBatches sg) ts"
proof -
  have o: "andThen r (\<lambda>d. validateOffsetIndex d s storeID) = Inr es \<Longrightarrow> sgBatches s = sgBatches sg
      \<Longrightarrow> true_offset_index (sgBatches sg) es" for r s es
    by (auto simp: andThen_Inr_iff dest!: validateOffsetIndex_sound)
  have t: "andThen r (\<lambda>d. validateTimeIndex d s storeID) = Inr es \<Longrightarrow> sgBatches s = sgBatches sg
      \<Longrightarrow> true_time_index (sgBatches sg) es" for r s es
    by (auto simp: andThen_Inr_iff dest!: validateTimeIndex_sound)
  show ?thesis
    using assms(2-4) sampleBatchIndexes_true [OF assms(1), of stride] o t
    by (auto simp: loadOrBuildIndexes_def Let_def split: prod.splits sum.splits)
qed

section \<open>Properties\<close>

text \<open>C30. Publication of a sidecar index is atomic under every pattern of I/O failures, short
  writes included: the file at the target path is either what it was or the complete new index; when
  the call reports success it is the new one and no temporary file is left; and no other file
  changes.\<close>

theorem writeIndexFile_atomic:
  assumes "writeIndexFile temporary path header entries w = (r, w')" and "temporary \<noteq> path"
  shows "(content w' path = content w path
            \<or> content w' path = Some (encodeIndexHeader header @ concat entries))
    \<and> (r = Inr () \<longrightarrow> content w' path = Some (encodeIndexHeader header @ concat entries)
                    \<and> content w' temporary = None)
    \<and> (\<forall>q. q \<noteq> path \<and> q \<noteq> temporary \<longrightarrow> content w' q = content w q)"
  using writeIndexFile_effect [OF assms] by blast

definition example_index_header :: indexHeader where
  "example_index_header = \<lparr>ihKind = 1, ihEntryBytes = 32, ihStoreID = 5, ihTopic = 7, ihPartition = 0,
     ihSegmentID = 9, ihBase = 0, ihHeaderHash = 3, ihStride = 4096\<rparr>"

theorem writeIndexFile_atomic_witness:
  "\<exists>w'. writeIndexFile [1] [2] example_index_header []
      \<lparr>wFiles = [([2], [8])], wFaults = [Done, Fail 5 [ErrNew]]\<rparr> = (Inl [ErrNew], w')
    \<and> (content w' [2] = Some [8]
       \<or> content w' [2] = Some (encodeIndexHeader example_index_header @ concat []))"
proof -
  let ?w = "\<lparr>wFiles = [([2 :: byte], [8])], wFaults = [Done, Fail 5 [ErrNew]]\<rparr>"
  obtain r w' where run: "writeIndexFile [1] [2] example_index_header [] ?w = (r, w')" by fastforce
  moreover have "fst (writeIndexFile [1] [2] example_index_header [] ?w) = Inl [ErrNew]"
    by (simp add: writeIndexFile_def ioThen_def fsCreate_def next_outcome_def content_def put_file_def
        writePiece_def fileWrite_def fileWriteAt_def ioDiscard_def ioReturn_def)
  moreover have "content ?w [2] = Some [8]" by (simp add: content_def)
  ultimately show ?thesis
    using writeIndexFile_atomic [OF run] by auto
qed

text \<open>C31. Whatever the sidecar files of a segment contain and whichever reads fail, loading leaves
  the segment with an offset index and a time index that tell the truth about its batches: every
  entry is the entry of a batch, with the maximum timestamp of all batches up to it in the time index,
  and bases and positions increase strictly.\<close>

theorem loadOrBuildIndexes_sound:
  assumes "batches_ok (sgBatches sg)" and "sgOffsetIndex sg = None" and "sgTimeIndex sg = None"
    and "loadOrBuildIndexes sg storeID stride w = (sg', w')"
  shows "\<exists>os ts. sgOffsetIndex sg' = Some os \<and> true_offset_index (sgBatches sg) os
    \<and> sgTimeIndex sg' = Some ts \<and> true_time_index (sgBatches sg) ts"
  using assms by (rule loadOrBuildIndexes_true)

definition example_segment :: segment where
  "example_segment = \<lparr>sgPath = [0x30, 0x2E, 0x6C, 0x6F, 0x67], sgOpen = True,
     sgHeader = \<lparr>sTopic = 7, sPartition = 0, sBaseOffset = 0, sID = 9\<rparr>, sgEnd = 1, sgSize = 172,
     sgRecords = 1, sgMaxTime = 1000, sgHeaderHash = 3,
     sgBatches = [\<lparr>biBase = 0, biPosition = 72, biBytes = 100, biRecords = 1, biMaxTime = 1000\<rparr>],
     sgOffsetIndex = None, sgTimeIndex = None, sgIndexDirty = False\<rparr>"

lemma example_segment_ok: "batches_ok (sgBatches example_segment)"
  by (simp add: example_segment_def batches_ok_def validOffsetRange_def)

theorem loadOrBuildIndexes_sound_witness:
  "\<exists>os ts. sgOffsetIndex (fst (loadOrBuildIndexes example_segment 5 0 \<lparr>wFiles = [], wFaults = []\<rparr>)) = Some os
     \<and> true_offset_index (sgBatches example_segment) os
     \<and> sgTimeIndex (fst (loadOrBuildIndexes example_segment 5 0 \<lparr>wFiles = [], wFaults = []\<rparr>)) = Some ts
     \<and> true_time_index (sgBatches example_segment) ts"
  using loadOrBuildIndexes_sound [OF example_segment_ok _ _ prod.collapse [symmetric],
      of 5 0 "\<lparr>wFiles = [], wFaults = []\<rparr>"]
  by (simp add: example_segment_def)

text \<open>C32. Indexes that were installed are found again after a restart: when
  \<open>installSegmentIndexes\<close> reports success, loading the sidecar files it wrote gives the same segment,
  marked clean, and not a rebuilt one. The temporary files only have to differ from the two sidecar
  paths.\<close>

theorem installSegmentIndexes_reload:
  assumes "batches_ok (sgBatches sg)"
    and "installSegmentIndexes (t1, t2) sg storeID stride w = (Inr (), sg', w')"
    and "t1 \<noteq> indexPath (sgPath sg) False" and "t2 \<noteq> indexPath (sgPath sg) False"
    and "t2 \<noteq> indexPath (sgPath sg) True"
  shows "loadOrBuildIndexes (sg\<lparr>sgOffsetIndex := None, sgTimeIndex := None, sgIndexDirty := False\<rparr>)
      storeID stride (w'\<lparr>wFaults := []\<rparr>) = (sg', w'\<lparr>wFaults := []\<rparr>)"
proof -
  let ?po = "indexPath (sgPath sg) False" and ?pt = "indexPath (sgPath sg) True"
  let ?os = "fst (sampleBatchIndexes (sgBatches sg) stride)"
  let ?ts = "snd (sampleBatchIndexes (sgBatches sg) stride)"
  let ?do = "encodeIndexHeader (newIndexHeader 1 OffsetIndexEntryBytes storeID sg stride)
      @ concat (map encodeOffsetIndexEntry ?os)"
  let ?dt = "encodeIndexHeader (newIndexHeader 2 TimeIndexEntryBytes storeID sg stride)
      @ concat (map encodeTimeIndexEntry ?ts)"
  let ?sg = "sg\<lparr>sgOffsetIndex := None, sgTimeIndex := None, sgIndexDirty := False\<rparr>"
  obtain w1 where w1: "writeIndexFile t1 ?po (newIndexHeader 1 OffsetIndexEntryBytes storeID sg stride)
        (map encodeOffsetIndexEntry ?os) w = (Inr (), w1)"
    and w2: "writeIndexFile t2 ?pt (newIndexHeader 2 TimeIndexEntryBytes storeID sg stride)
        (map encodeTimeIndexEntry ?ts) w1 = (Inr (), w')"
    and sg': "sg' = sg\<lparr>sgOffsetIndex := Some ?os, sgTimeIndex := Some ?ts, sgIndexDirty := False\<rparr>"
    using assms(2) by (auto simp: installSegmentIndexes_def Let_def split: prod.splits sum.splits)
  have "content w' ?po = Some ?do"
    using writeIndexFile_effect(3) [OF w1 assms(3), of "()"]
      writeIndexFile_effect(1) [OF w2 assms(5), of ?po] assms(4) indexPath_neq by auto
  then have "readIndexFile ?po (w'\<lparr>wFaults := []\<rparr>) = (Inr ?do, w'\<lparr>wFaults := []\<rparr>)"
    using published_sizes(1) [of "sgBatches sg" stride]
    by (intro readIndexFile_quiet)
      (simp_all add: concat_fixed_length [of encodeOffsetIndexEntry 32])
  moreover have "content w' ?pt = Some ?dt"
    using writeIndexFile_effect(3) [OF w2 assms(5), of "()"] by simp
  then have "readIndexFile ?pt (w'\<lparr>wFaults := []\<rparr>) = (Inr ?dt, w'\<lparr>wFaults := []\<rparr>)"
    using published_sizes(2) [of "sgBatches sg" stride]
    by (intro readIndexFile_quiet)
      (simp_all add: concat_fixed_length [of encodeTimeIndexEntry 40])
  moreover have "validateOffsetIndex ?do ?sg storeID = Inr ?os"
    using validateOffsetIndex_published [of ?sg storeID stride] assms(1)
    by (simp add: newIndexHeader_def)
  moreover have "validateTimeIndex ?dt (?sg\<lparr>sgOffsetIndex := Some ?os\<rparr>) storeID = Inr ?ts"
    using validateTimeIndex_published [of "?sg\<lparr>sgOffsetIndex := Some ?os\<rparr>" storeID stride] assms(1)
    by (simp add: newIndexHeader_def)
  ultimately show ?thesis by (simp add: loadOrBuildIndexes_def sg' Let_def)
qed

text \<open>An installation on a file system where every operation succeeds.\<close>

lemma writeIndexFile_quiet:
  assumes "wFaults w = []" and "content w t = None"
  shows "\<exists>w'. writeIndexFile t p h es w = (Inr (), w') \<and> wFaults w' = []
    \<and> (\<forall>q. q \<noteq> p \<longrightarrow> q \<noteq> t \<longrightarrow> content w' q = content w q)"
proof -
  have piece: "writePiece q d v = (Inr (), put_file q (write_at (length c) d c) v)"
    if "wFaults v = []" "content v q = Some c" for q d v c
    using that by (simp add: writePiece_def fileWrite_def fileWriteAt_def)
  have pieces: "\<exists>c' v'. writePieces q ds v = (Inr (), v') \<and> wFaults v' = [] \<and> content v' q = Some c'
      \<and> (\<forall>x. x \<noteq> q \<longrightarrow> content v' x = content v x)"
    if "wFaults v = []" "content v q = Some c" for q ds v c
    using that
  proof (induction ds arbitrary: v c)
    case (Cons d ds)
    then show ?case
      using Cons.IH [of "put_file q (write_at (length c) d c) v"] piece [of v q c d] by auto
  qed (simp add: ioReturn_def)
  have cr: "fsCreate t w = (Inr (), put_file t [] w)" using assms by (simp add: fsCreate_def)
  obtain c' v' where v: "writePieces t (encodeIndexHeader h # es) (put_file t [] w) = (Inr (), v')"
    "wFaults v' = []" "content v' t = Some c'" "\<forall>x. x \<noteq> t \<longrightarrow> content v' x = content w x"
    using pieces [of "put_file t [] w" t "[]" "encodeIndexHeader h # es"] assms
    by (auto simp del: writePieces.simps)
  have "writeIndexFile t p h es w = (Inr (), put_file p c' (drop_file t v'))"
    using cr v by (simp add: writeIndexFile_def ioThen_def effect_defs fileEffect_quiet fsRename_def
        del: writePieces.simps)
  then show ?thesis using v by auto
qed

theorem installSegmentIndexes_reload_witness:
  "\<exists>sg' w'. installSegmentIndexes ([1], [2]) example_segment 5 4096 \<lparr>wFiles = [], wFaults = []\<rparr>
      = (Inr (), sg', w')
    \<and> loadOrBuildIndexes (example_segment\<lparr>sgOffsetIndex := None, sgTimeIndex := None, sgIndexDirty := False\<rparr>)
        5 4096 (w'\<lparr>wFaults := []\<rparr>) = (sg', w'\<lparr>wFaults := []\<rparr>)"
proof -
  let ?w = "\<lparr>wFiles = [], wFaults = []\<rparr> :: world"
  let ?po = "indexPath (sgPath example_segment) False" and ?pt = "indexPath (sgPath example_segment) True"
  have p: "[1] \<noteq> ?po" "[2] \<noteq> ?po" "[2] \<noteq> ?pt" "[1] \<noteq> ([2] :: bytes)"
    by (simp_all add: example_segment_def indexPath_def)
  obtain os ts where s: "sampleBatchIndexes (sgBatches example_segment) 4096 = (os, ts)" by fastforce
  have q: "wFaults ?w = []" "content ?w [1] = None" "content ?w [2] = None" by (simp_all add: content_def)
  obtain w1 where w1: "writeIndexFile [1] ?po (newIndexHeader 1 OffsetIndexEntryBytes 5 example_segment 4096)
      (map encodeOffsetIndexEntry os) ?w = (Inr (), w1)" "wFaults w1 = []" "content w1 [2] = None"
    using writeIndexFile_quiet [OF q(1,2)] q(3) p by metis
  obtain w2 where w2: "writeIndexFile [2] ?pt (newIndexHeader 2 TimeIndexEntryBytes 5 example_segment 4096)
      (map encodeTimeIndexEntry ts) w1 = (Inr (), w2)"
    using writeIndexFile_quiet [OF w1(2,3)] by metis
  have "installSegmentIndexes ([1], [2]) example_segment 5 4096 ?w
      = (Inr (), example_segment\<lparr>sgOffsetIndex := Some os, sgTimeIndex := Some ts, sgIndexDirty := False\<rparr>, w2)"
    using w1 w2 by (simp add: installSegmentIndexes_def s)
  then show ?thesis
    using installSegmentIndexes_reload [OF example_segment_ok _ p(1-3)] by blast
qed

end
