(* ===== verification/Segment_Files.thy ===== *)
theory Segment_Files
  imports Filesystem "HOL-Library.Multiset"
begin

text \<open>
  \<open>src/storage/segment_files.go\<close>: the bounded cache of read handles for sealed segments. An entry is
  known by its path; the Go map is an association list, and the map's iteration order, which Go leaves
  open, only breaks ties between equal clock readings, which do not occur (\<open>cache_ok\<close>). The clock
  counts acquisitions, far fewer than \<open>2^64\<close>, and is a natural number.
\<close>

record segmentFileEntry =
  seRefs :: nat
  seUsed :: nat

record segmentFileCache =
  fcLimit :: nat
  fcClock :: nat
  fcEntries :: "(path \<times> segmentFileEntry) list"

definition newSegmentFileCache :: "uint32 \<Rightarrow> segmentFileCache" where
  "newSegmentFileCache limit = \<lparr>fcLimit = unat limit, fcClock = 0, fcEntries = []\<rparr>"

text \<open>The inner loop of \<open>evictLocked\<close>: the unpinned entry that was used longest ago.\<close>

fun findVictim ::
  "(path \<times> segmentFileEntry) list \<Rightarrow> (path \<times> segmentFileEntry) option \<Rightarrow> (path \<times> segmentFileEntry) option"
  where
  "findVictim [] victim = victim"
| "findVictim ((p, e) # es) victim =
     (if seRefs e \<noteq> 0 then findVictim es victim
      else
        case victim of
          None \<Rightarrow> findVictim es (Some (p, e))
        | Some v \<Rightarrow> findVictim es (if seUsed e < seUsed (snd v) then Some (p, e) else victim))"

lemma findVictim_in:
  "findVictim es v = Some x \<Longrightarrow> v = Some x \<or> (x \<in> set es \<and> seRefs (snd x) = 0)"
  by (induction es v rule: findVictim.induct) (auto split: if_splits option.splits)

lemma length_delete_mem: "p \<in> fst ` set es \<Longrightarrow> length (AList.delete p es) < length es"
  by (auto simp: AList.delete_eq intro: length_filter_less)

function evictLocked :: "segmentFileCache \<Rightarrow> world \<Rightarrow> segmentFileCache \<times> world" where
  "evictLocked cache w =
     (if \<not> length (fcEntries cache) > fcLimit cache then (cache, w)
      else
        case findVictim (fcEntries cache) None of
          None \<Rightarrow> (cache, w)
        | Some (victimPath, victim) \<Rightarrow>
            evictLocked (cache\<lparr>fcEntries := AList.delete victimPath (fcEntries cache)\<rparr>)
              (snd (fileClose victimPath w)))"
  by pat_completeness auto
termination
proof (relation "measure (\<lambda>(cache, _). length (fcEntries cache))", goal_cases)
  case (2 cache w x p e)
  then show ?case
    by (auto dest!: findVictim_in intro!: length_delete_mem intro: rev_image_eqI)
qed simp

declare evictLocked.simps [simp del]

definition acquire :: "path \<Rightarrow> segmentFileCache \<Rightarrow> world \<Rightarrow> unit result \<times> segmentFileCache \<times> world" where
  "acquire path cache w =
     (let pin = (\<lambda>e w. let clock = fcClock cache + 1;
                           e = e\<lparr>seRefs := seRefs e + 1, seUsed := clock\<rparr>
                       in case evictLocked (cache\<lparr>fcClock := clock,
                                fcEntries := AList.update path e (fcEntries cache)\<rparr>) w of
                            (cache, w) \<Rightarrow> (Inr (), cache, w))
      in case map_of (fcEntries cache) path of
           None \<Rightarrow>
             (case fsOpen path w of
                (Inl err, w) \<Rightarrow> (Inl err, cache, w)
              | (Inr _, w) \<Rightarrow> pin \<lparr>seRefs = 0, seUsed = 0\<rparr> w)
         | Some e \<Rightarrow> pin e w)"

definition release :: "path \<Rightarrow> segmentFileCache \<Rightarrow> world \<Rightarrow> segmentFileCache \<times> world" where
  "release path cache w =
     (case map_of (fcEntries cache) path of
        None \<Rightarrow> (cache, w)
      | Some e \<Rightarrow>
          let e = (if seRefs e > 0 then e\<lparr>seRefs := seRefs e - 1\<rparr> else e)
          in evictLocked (cache\<lparr>fcEntries := AList.update path e (fcEntries cache)\<rparr>) w)"

definition forget :: "path \<Rightarrow> segmentFileCache \<Rightarrow> world \<Rightarrow> segmentFileCache \<times> world" where
  "forget path cache w =
     (case map_of (fcEntries cache) path of
        None \<Rightarrow> (cache, w)
      | Some e \<Rightarrow>
          (cache\<lparr>fcEntries := AList.delete path (fcEntries cache)\<rparr>, snd (fileClose path w)))"

text \<open>\<open>closeAll\<close> joins the errors of the closes.\<close>

fun closeEntries :: "(path \<times> segmentFileEntry) list \<Rightarrow> error \<Rightarrow> world \<Rightarrow> error \<times> world" where
  "closeEntries [] err w = (err, w)"
| "closeEntries ((p, e) # es) err w =
     (case fileClose p w of
        (Inl e', w) \<Rightarrow> closeEntries es (err @ e') w
      | (Inr _, w) \<Rightarrow> closeEntries es err w)"

definition closeAll :: "segmentFileCache \<Rightarrow> world \<Rightarrow> error \<times> segmentFileCache \<times> world" where
  "closeAll cache w =
     (case closeEntries (fcEntries cache) [] w of (err, w) \<Rightarrow> (err, cache\<lparr>fcEntries := []\<rparr>, w))"

definition cache_size :: "segmentFileCache \<Rightarrow> nat" where
  "cache_size cache = length (fcEntries cache)"

section \<open>Eviction\<close>

definition pinned :: "segmentFileCache \<Rightarrow> path \<Rightarrow> nat" where
  "pinned cache path = (case map_of (fcEntries cache) path of None \<Rightarrow> 0 | Some e \<Rightarrow> seRefs e)"

definition cache_ok :: "segmentFileCache \<Rightarrow> bool" where
  "cache_ok cache \<longleftrightarrow>
     distinct (map fst (fcEntries cache)) \<and> distinct (map (seUsed \<circ> snd) (fcEntries cache))
     \<and> (\<forall>x \<in> set (fcEntries cache). seUsed (snd x) \<le> fcClock cache)"

lemma findVictim_None: "findVictim es None = None \<longleftrightarrow> (\<forall>x \<in> set es. seRefs (snd x) \<noteq> 0)"
proof -
  have some: "(findVictim es (Some v) = None) = False" for es v
    by (induction es "Some v" arbitrary: v rule: findVictim.induct) auto
  show ?thesis by (induction es) (auto simp: some split: if_splits)
qed

lemma findVictim_oldest:
  "findVictim es v = Some x \<Longrightarrow>
     (\<forall>y \<in> set es. seRefs (snd y) = 0 \<longrightarrow> seUsed (snd x) \<le> seUsed (snd y))
     \<and> (\<forall>y. v = Some y \<longrightarrow> seUsed (snd x) \<le> seUsed (snd y))"
proof (induction es v rule: findVictim.induct)
  case (2 p e es victim)
  then show ?case by (cases victim) (fastforce split: if_splits)+
qed simp

lemma victim_unpinned: "findVictim es None = Some (p, e) \<Longrightarrow> (p, e) \<in> set es \<and> seRefs e = 0"
  using findVictim_in [of es None "(p, e)"] by simp

lemma set_delete: "set (AList.delete p es) = {x \<in> set es. fst x \<noteq> p}"
  by (auto simp: AList.delete_eq)

lemma evictLocked_all:
  assumes "distinct (map fst (fcEntries cache))" and "evictLocked cache w = (cache', w')"
  shows "(\<exists>P. fcEntries cache' = filter P (fcEntries cache)
           \<and> (\<forall>x \<in> set (fcEntries cache). seRefs (snd x) \<noteq> 0 \<longrightarrow> P x))
    \<and> fcLimit cache' = fcLimit cache \<and> fcClock cache' = fcClock cache
    \<and> (length (fcEntries cache') \<le> fcLimit cache \<or> (\<forall>x \<in> set (fcEntries cache'). seRefs (snd x) \<noteq> 0))
    \<and> content w' q = content w q"
  using assms
proof (induction cache w rule: evictLocked.induct)
  case (1 cache w)
  let ?es = "fcEntries cache"
  show ?case
  proof (cases "length ?es > fcLimit cache")
    case False
    then have "cache' = cache" "w' = w" using "1.prems" by (simp_all add: evictLocked.simps [of cache])
    then show ?thesis using False by (auto intro: exI [of _ "\<lambda>_. True"])
  next
    case True
    show ?thesis
    proof (cases "findVictim ?es None")
      case None
      then have "cache' = cache" "w' = w"
        using "1.prems" by (auto simp: evictLocked.simps [of cache] split: if_splits)
      then show ?thesis using None findVictim_None [of ?es] by (auto intro: exI [of _ "\<lambda>_. True"])
    next
      case (Some v)
      obtain p e where v: "v = (p, e)" by (cases v)
      let ?c = "cache\<lparr>fcEntries := AList.delete p ?es\<rparr>"
      have ev: "evictLocked ?c (snd (fileClose p w)) = (cache', w')"
        using "1.prems" True Some v by (simp add: evictLocked.simps [of cache])
      have d: "distinct (map fst (fcEntries ?c))" using "1.prems" by (simp add: distinct_delete)
      have nn: "\<not> \<not> fcLimit cache < length ?es" using True by simp
      note IH = "1.IH" [OF nn Some v [symmetric] d ev]
      then obtain P where P: "fcEntries cache' = filter P (AList.delete p ?es)"
        "\<forall>x \<in> set (AList.delete p ?es). seRefs (snd x) \<noteq> 0 \<longrightarrow> P x"
        by auto
      have "fcEntries cache' = filter (\<lambda>x. p \<noteq> fst x \<and> P x) ?es"
        using P(1) by (simp add: AList.delete_eq conj_commute split_def)
      moreover have "\<forall>x \<in> set ?es. seRefs (snd x) \<noteq> 0 \<longrightarrow> p \<noteq> fst x \<and> P x"
      proof (intro ballI impI)
        fix x assume x: "x \<in> set ?es" "seRefs (snd x) \<noteq> 0"
        have "(p, e) \<in> set ?es" "seRefs e = 0" using Some v victim_unpinned by auto
        then have "fst x \<noteq> p" using x "1.prems"(1) eq_key_imp_eq_value [of ?es p e "snd x"] by auto
        then show "p \<noteq> fst x \<and> P x" using P(2) x by (cases x) (simp add: set_delete)
      qed
      ultimately show ?thesis using IH by auto
    qed
  qed
qed

lemma evictLocked_effect:
  assumes "distinct (map fst (fcEntries cache))" and "evictLocked cache w = (cache', w')"
  obtains P where "fcEntries cache' = filter P (fcEntries cache)"
    and "\<And>x. x \<in> set (fcEntries cache) \<Longrightarrow> seRefs (snd x) \<noteq> 0 \<Longrightarrow> P x"
    and "fcLimit cache' = fcLimit cache" and "fcClock cache' = fcClock cache"
    and "length (fcEntries cache') \<le> fcLimit cache \<or> (\<forall>x \<in> set (fcEntries cache'). seRefs (snd x) \<noteq> 0)"
  using evictLocked_all [OF assms] by blast

lemma pinned_evict:
  assumes d: "distinct (map fst (fcEntries cache))" and ev: "evictLocked cache w = (cache', w')"
  shows "pinned cache' q = pinned cache q"
proof -
  let ?es = "fcEntries cache"
  obtain P where P: "fcEntries cache' = filter P ?es"
    "\<And>x. x \<in> set ?es \<Longrightarrow> seRefs (snd x) \<noteq> 0 \<Longrightarrow> P x"
    by (rule evictLocked_effect [OF d ev]) (rule that)
  have d': "distinct (map fst (filter P ?es))" using d by (simp add: distinct_map_filter)
  show ?thesis
  proof (cases "map_of ?es q")
    case None
    then have "map_of (filter P ?es) q = None" by (auto simp: map_of_eq_None_iff)
    with None P show ?thesis by (simp add: pinned_def)
  next
    case (Some e)
    then have e: "(q, e) \<in> set ?es" by (rule map_of_SomeD)
    show ?thesis
    proof (cases "P (q, e)")
      case True
      then have "map_of (filter P ?es) q = Some e" using e d' by simp
      with Some P show ?thesis by (simp add: pinned_def)
    next
      case False
      then have "seRefs e = 0" using P(2) [OF e] by auto
      moreover have "map_of (filter P ?es) q = None"
      proof (rule ccontr)
        assume "map_of (filter P ?es) q \<noteq> None"
        then obtain e' where "(q, e') \<in> set (filter P ?es)" by (auto dest: map_of_SomeD)
        then show False using False e d eq_key_imp_eq_value [of ?es q e e'] by simp
      qed
      ultimately show ?thesis using Some P by (simp add: pinned_def)
    qed
  qed
qed

lemma evict_cache_ok:
  assumes "cache_ok cache" and "evictLocked cache w = (cache', w')"
  shows "cache_ok cache'"
proof -
  obtain P where "fcEntries cache' = filter P (fcEntries cache)" "fcClock cache' = fcClock cache"
    using evictLocked_effect [OF _ assms(2)] assms(1) unfolding cache_ok_def by metis
  then show ?thesis using assms(1) by (auto simp: cache_ok_def distinct_map_filter)
qed

lemma set_update_used:
  "x \<in> set (AList.update p e es) \<Longrightarrow> snd x = e \<or> x \<in> set es"
  by (induction es) (auto split: if_splits)

lemma distinct_update_used:
  assumes "distinct (map (seUsed \<circ> snd) es)" and "\<forall>x \<in> set es. seUsed (snd x) < seUsed e"
  shows "distinct (map (seUsed \<circ> snd) (AList.update p e es))"
  using assms by (induction es) (auto dest!: set_update_used)

lemma map_update_same_used:
  "map_of es p = Some e \<Longrightarrow> seUsed e' = seUsed e \<Longrightarrow>
     map (seUsed \<circ> snd) (AList.update p e' es) = map (seUsed \<circ> snd) es"
  by (induction es) (auto split: if_splits)

lemma pinned_update:
  "pinned (cache\<lparr>fcEntries := AList.update p e (fcEntries cache)\<rparr>) q = (if q = p then seRefs e else pinned cache q)"
  by (simp add: pinned_def update_conv')

section \<open>Reachable caches\<close>

text \<open>
  The states of the cache with the pins its readers hold. A segment is forgotten under the exclusive
  lock of its partition, when no reader holds a pin on it.
\<close>

inductive cache_reach :: "uint32 \<Rightarrow> segmentFileCache \<Rightarrow> path multiset \<Rightarrow> bool" for limit where
  cache_start: "cache_reach limit (newSegmentFileCache limit) {#}"
| cache_acquire: "cache_reach limit cache pins \<Longrightarrow> acquire p cache w = (Inr (), cache', w') \<Longrightarrow>
    cache_reach limit cache' (add_mset p pins)"
| cache_acquire_failed: "cache_reach limit cache pins \<Longrightarrow> acquire p cache w = (Inl err, cache', w') \<Longrightarrow>
    cache_reach limit cache' pins"
| cache_release: "cache_reach limit cache pins \<Longrightarrow> p \<in># pins \<Longrightarrow> release p cache w = (cache', w') \<Longrightarrow>
    cache_reach limit cache' (pins - {#p#})"
| cache_forget: "cache_reach limit cache pins \<Longrightarrow> p \<notin># pins \<Longrightarrow> forget p cache w = (cache', w') \<Longrightarrow>
    cache_reach limit cache' pins"

definition cache_inv :: "uint32 \<Rightarrow> segmentFileCache \<Rightarrow> path multiset \<Rightarrow> bool" where
  "cache_inv limit cache pins \<longleftrightarrow>
     cache_ok cache \<and> fcLimit cache = unat limit \<and> (\<forall>p. pinned cache p = count pins p)
     \<and> (length (fcEntries cache) \<le> unat limit \<or> (\<forall>x \<in> set (fcEntries cache). seRefs (snd x) \<noteq> 0))"

lemma cache_inv_evict:
  assumes "cache_ok cache" and "fcLimit cache = unat limit" and "\<forall>p. pinned cache p = count pins p"
    and ev: "evictLocked cache w = (cache', w')"
  shows "cache_inv limit cache' pins"
proof -
  have d: "distinct (map fst (fcEntries cache))" using assms(1) by (simp add: cache_ok_def)
  show ?thesis
    using evict_cache_ok [OF assms(1) ev] pinned_evict [OF d ev] evictLocked_all [OF d ev] assms(2,3)
    by (auto simp: cache_inv_def)
qed

lemma cache_inv_acquire:
  assumes inv: "cache_inv limit cache pins" and ac: "acquire p cache w = (Inr (), cache', w')"
  shows "cache_inv limit cache' (add_mset p pins)"
proof -
  define e where "e = (case map_of (fcEntries cache) p of None \<Rightarrow> \<lparr>seRefs = 0, seUsed = 0\<rparr> | Some e \<Rightarrow> e)"
  define e' where "e' = e\<lparr>seRefs := seRefs e + 1, seUsed := fcClock cache + 1\<rparr>"
  let ?c = "cache\<lparr>fcClock := fcClock cache + 1, fcEntries := AList.update p e' (fcEntries cache)\<rparr>"
  obtain w0 where ev: "evictLocked ?c w0 = (cache', w')"
    using ac by (auto simp: acquire_def Let_def e'_def e_def split: option.splits prod.splits sum.splits)
  have ok: "cache_ok cache" using inv by (simp add: cache_inv_def)
  then have "\<forall>x \<in> set (fcEntries cache). seUsed (snd x) < seUsed e'"
    by (auto simp: cache_ok_def e'_def less_Suc_eq_le)
  then have "cache_ok ?c"
    using ok by (auto simp: cache_ok_def distinct_update distinct_update_used e'_def dest!: set_update_used)
  moreover have "\<forall>q. pinned ?c q = count (add_mset p pins) q"
  proof
    fix q
    have "seRefs e' = Suc (pinned cache p)"
      by (simp add: e'_def e_def pinned_def split: option.split)
    then show "pinned ?c q = count (add_mset p pins) q"
      using inv pinned_update [where cache = "cache\<lparr>fcClock := fcClock cache + 1\<rparr>" and p = p and e = e' and q = q]
      by (auto simp: cache_inv_def pinned_def)
  qed
  moreover have "fcLimit ?c = unat limit" using inv by (simp add: cache_inv_def)
  ultimately show ?thesis using cache_inv_evict [OF _ _ _ ev] by blast
qed

lemma cache_inv_release:
  assumes inv: "cache_inv limit cache pins" and p: "p \<in># pins" and re: "release p cache w = (cache', w')"
  shows "cache_inv limit cache' (pins - {#p#})"
proof -
  have "pinned cache p \<noteq> 0" using inv p by (simp add: cache_inv_def)
  then obtain e where e: "map_of (fcEntries cache) p = Some e" "seRefs e > 0" "pinned cache p = seRefs e"
    by (auto simp: pinned_def split: option.splits)
  let ?e = "e\<lparr>seRefs := seRefs e - 1\<rparr>"
  let ?c = "cache\<lparr>fcEntries := AList.update p ?e (fcEntries cache)\<rparr>"
  have ev: "evictLocked ?c w = (cache', w')" using re e by (simp add: release_def)
  have used: "map (seUsed \<circ> snd) (AList.update p ?e (fcEntries cache)) = map (seUsed \<circ> snd) (fcEntries cache)"
    using e by (intro map_update_same_used) auto
  have ok: "cache_ok cache" using inv by (simp add: cache_inv_def)
  have "seUsed e \<le> fcClock cache" using ok e by (auto simp: cache_ok_def dest!: map_of_SomeD)
  then have "cache_ok ?c"
    using ok used by (auto simp: cache_ok_def distinct_update dest!: set_update_used)
  moreover have "\<forall>q. pinned ?c q = count (pins - {#p#}) q"
    using inv e by (auto simp: pinned_update cache_inv_def)
  moreover have "fcLimit ?c = unat limit" using inv by (simp add: cache_inv_def)
  ultimately show ?thesis using cache_inv_evict [OF _ _ _ ev] by blast
qed

lemma cache_inv_forget:
  assumes inv: "cache_inv limit cache pins" and p: "p \<notin># pins" and fo: "forget p cache w = (cache', w')"
  shows "cache_inv limit cache' pins"
proof (cases "map_of (fcEntries cache) p")
  case None
  then show ?thesis using inv fo by (simp add: forget_def)
next
  case (Some e)
  then have c: "cache' = cache\<lparr>fcEntries := AList.delete p (fcEntries cache)\<rparr>" using fo by (simp add: forget_def)
  have "\<forall>q. pinned cache' q = count pins q"
    using inv p unfolding c by (auto simp: cache_inv_def pinned_def delete_conv' not_in_iff)
  moreover have "cache_ok cache'"
    using inv unfolding c cache_inv_def cache_ok_def AList.delete_eq by (auto simp: distinct_map_filter)
  moreover have "length (AList.delete p (fcEntries cache)) \<le> length (fcEntries cache)" by (rule length_delete_le)
  ultimately show ?thesis
    using inv by (auto simp: cache_inv_def c set_delete)
qed

lemma cache_reach_inv: "cache_reach limit cache pins \<Longrightarrow> cache_inv limit cache pins"
proof (induction rule: cache_reach.induct)
  case cache_start
  then show ?case by (simp add: cache_inv_def newSegmentFileCache_def cache_ok_def pinned_def)
next
  case (cache_acquire_failed cache pins p w err cache' w')
  then have "cache' = cache"
    by (auto simp: acquire_def Let_def split: option.splits prod.splits sum.splits)
  then show ?case using cache_acquire_failed by simp
qed (auto intro: cache_inv_acquire cache_inv_release cache_inv_forget)

section \<open>Properties\<close>

text \<open>C34. In every state that acquisitions, releases and deletions of segments can lead to, a handle is
  pinned exactly as often as readers hold it, so a handle in use is never closed by an eviction; and
  the cache holds at most as many handles as its limit or as there are paths in use, whichever is
  more.\<close>

theorem segment_cache_bounded:
  assumes "cache_reach limit cache pins"
  shows "(\<forall>p. pinned cache p = count pins p)
    \<and> cache_size cache \<le> max (unat limit) (card (set_mset pins))"
proof
  have inv: "cache_inv limit cache pins" using assms by (rule cache_reach_inv)
  then show pins: "\<forall>p. pinned cache p = count pins p" by (simp add: cache_inv_def)
  have d: "distinct (map fst (fcEntries cache))" using inv by (simp add: cache_inv_def cache_ok_def)
  show "cache_size cache \<le> max (unat limit) (card (set_mset pins))"
  proof (cases "length (fcEntries cache) \<le> unat limit")
    case False
    then have used: "\<forall>x \<in> set (fcEntries cache). seRefs (snd x) \<noteq> 0" using inv by (simp add: cache_inv_def)
    have "fst ` set (fcEntries cache) \<subseteq> set_mset pins"
    proof
      fix p assume "p \<in> fst ` set (fcEntries cache)"
      then obtain e where "(p, e) \<in> set (fcEntries cache)" by auto
      then have "pinned cache p = seRefs e" "seRefs e \<noteq> 0" using d used by (auto simp: pinned_def)
      then show "p \<in># pins" using pins by (metis count_eq_zero_iff)
    qed
    then have "card (fst ` set (fcEntries cache)) \<le> card (set_mset pins)" by (simp add: card_mono)
    moreover have "card (fst ` set (fcEntries cache)) = length (fcEntries cache)"
      using distinct_card [OF d] by simp
    ultimately show ?thesis by (simp add: cache_size_def)
  qed (simp add: cache_size_def)
qed

theorem segment_cache_bounded_witness:
  "\<exists>cache. cache_reach 1 cache {#[2], [2]#} \<and> pinned cache [2] = 2 \<and> cache_size cache \<le> 1"
proof -
  let ?w = "\<lparr>wFiles = [([1], []), ([2], [])], wFaults = []\<rparr> :: world"
  let ?e = "\<lambda>r u. \<lparr>seRefs = r, seUsed = u\<rparr>"
  let ?c = "\<lambda>clock es. \<lparr>fcLimit = 1, fcClock = clock, fcEntries = es\<rparr>"
  note ev = evictLocked.simps
  have o: "fsOpen [1] ?w = (Inr (), ?w)" "fsOpen [2] ?w = (Inr (), ?w)"
    by (simp_all add: fsOpen_def content_def)
  have cl: "fileClose [1] ?w = (Inr (), ?w)" by (simp add: effect_defs fileEffect_quiet)
  have start: "cache_reach 1 (?c 0 []) {#}"
    using cache_start [of 1] by (simp add: newSegmentFileCache_def)
  have "acquire [1] (?c 0 []) ?w = (Inr (), ?c 1 [([1], ?e 1 1)], ?w)"
    by (simp add: acquire_def o ev)
  then have 1: "cache_reach 1 (?c 1 [([1], ?e 1 1)]) {#[1]#}"
    using cache_acquire [OF start] by fastforce
  have "release [1] (?c 1 [([1], ?e 1 1)]) ?w = (?c 1 [([1], ?e 0 1)], ?w)"
    by (simp add: release_def ev)
  then have 2: "cache_reach 1 (?c 1 [([1], ?e 0 1)]) {#}"
    using cache_release [OF 1, of "[1]"] by fastforce
  have "acquire [2] (?c 1 [([1], ?e 0 1)]) ?w = (Inr (), ?c 2 [([2], ?e 1 2)], ?w)"
    by (simp add: acquire_def o ev cl)
  then have 3: "cache_reach 1 (?c 2 [([2], ?e 1 2)]) {#[2]#}"
    using cache_acquire [OF 2] by fastforce
  have "acquire [2] (?c 2 [([2], ?e 1 2)]) ?w = (Inr (), ?c 3 [([2], ?e 2 3)], ?w)"
    by (simp add: acquire_def ev)
  then have 4: "cache_reach 1 (?c 3 [([2], ?e 2 3)]) {#[2], [2]#}"
    using cache_acquire [OF 3] by fastforce
  show ?thesis using segment_cache_bounded [OF 4] 4 by (intro exI [of _ "?c 3 [([2], ?e 2 3)]"]) simp
qed

end
