(* ===== verification/Sizes.thy ===== *)
theory Sizes
  imports Config Codec
begin

text \<open>
  Size accounting of \<open>src/storage/writer.go\<close>: the encoded sizes that admission, batching and fetch
  limits are computed from, with the overflow checks of the source on 64-bit sums. The lemmas show
  that the computed sizes are the lengths that the encoder produces.
\<close>

section \<open>Definitions\<close>

definition requestDescriptorBytes :: uint64 where [simp]: "requestDescriptorBytes = 128"

definition checkedAdd :: "uint64 \<Rightarrow> uint64 \<Rightarrow> uint64 result" where
  "checkedAdd left right =
     (if right > 0xFFFFFFFFFFFFFFFF - left then Inl [ErrResourceLimit, ErrNew] else Inr (left + right))"

definition validHeaderCount :: "nat \<Rightarrow> bool" where
  "validHeaderCount count \<longleftrightarrow> count \<le> unat MaxRecordHeaders"

text \<open>\<open>len\<close> of a slice that may be nil.\<close>

definition len :: "bytes option \<Rightarrow> uint64" where
  "len v = (case v of None \<Rightarrow> 0 | Some b \<Rightarrow> of_nat (length b))"

fun headerSizes :: "uint64 \<Rightarrow> Header list \<Rightarrow> uint64 result" where
  "headerSizes acc [] = Inr acc"
| "headerSizes acc (h # hs) =
     (if \<not> validHeaderName (hName h) then Inl [ErrInvalidArgument, ErrNew]
      else andThen (checkedAdd acc (8 + of_nat (length (hName h)) + len (hValue h)))
             (\<lambda>acc. headerSizes acc hs))"

definition recordEncodedBytes :: "Record \<Rightarrow> uint64 result" where
  "recordEncodedBytes r =
     (if \<not> validHeaderCount (length (rHeaders r)) then Inl [ErrInvalidArgument, ErrNew]
      else headerSizes (of_nat RecordPrefixBytes + 4 + len (rKey r) + 4 + len (rValue r)) (rHeaders r))"

fun recordSizes :: "uint64 \<Rightarrow> Record list \<Rightarrow> uint64 result" where
  "recordSizes acc [] = Inr acc"
| "recordSizes acc (r # rs) =
     andThen (recordEncodedBytes r) (\<lambda>n. andThen (checkedAdd acc n) (\<lambda>acc. recordSizes acc rs))"

definition batchEncodedBytes :: "Record list \<Rightarrow> uint64 result" where
  "batchEncodedBytes rs =
     (if rs = [] \<or> length rs > unat MaxBatchRecords then Inl [ErrInvalidArgument, ErrNew]
      else recordSizes (ucast BatchHeaderBytes + of_nat BatchTrailerBytes) rs)"

text \<open>\<open>requestCharge\<close> with the topic, partition and options of the partition as arguments.\<close>

definition requestCharge ::
  "TopicID \<Rightarrow> uint32 \<Rightarrow> PartitionOptions \<Rightarrow> AppendRequest \<Rightarrow> uint64 result" where
  "requestCharge topic part options request =
     (if aTopic request \<noteq> topic \<or> aPartition request \<noteq> part then Inl [ErrInvalidArgument, ErrNew]
      else
        andThen (recordEncodedBytes
           \<lparr>rTopic = topic, rPartition = part, rOffset = 0, rTimestamp = 0, rKey = aKey request,
            rValue = aValue request, rHeaders = aHeaders request\<rparr>) (\<lambda>recordBytes.
          if recordBytes > ucast (oRecordBytes options) then Inl [ErrRecordTooLarge, ErrNew]
          else
            andThen (checkedAdd (ucast BatchHeaderBytes + of_nat BatchTrailerBytes) recordBytes) (\<lambda>batchBytes.
              if batchBytes > ucast (oBatchBytes options) then Inl [ErrRecordTooLarge, ErrNew]
              else checkedAdd requestDescriptorBytes recordBytes)))"

section \<open>Computed sizes are encoded sizes\<close>

lemma checkedAdd_overflow: "0xFFFFFFFFFFFFFFFF - a < (b :: uint64) \<longleftrightarrow> \<not> unat a + unat b < 2 ^ 64"
proof -
  have "unat (0xFFFFFFFFFFFFFFFF - a) = 18446744073709551615 - unat a"
    using unat_uint64_less [of a] by (subst unat_sub) (auto simp: word_le_nat_alt)
  then show ?thesis using unat_uint64_less [of a] by (auto simp: word_less_nat_alt)
qed

lemma checkedAdd_Inr_iff:
  "checkedAdd a b = Inr c \<longleftrightarrow> unat a + unat b < 2 ^ 64 \<and> c = a + b"
  by (auto simp: checkedAdd_def checkedAdd_overflow)

lemma checkedAdd_unat: "checkedAdd a b = Inr c \<Longrightarrow> unat c = unat a + unat b"
  by (simp add: checkedAdd_Inr_iff unat_word_ariths)

lemma checkedAdd_error:
  "checkedAdd a b = Inl e \<longleftrightarrow> e = [ErrResourceLimit, ErrNew] \<and> 2 ^ 64 \<le> unat a + unat b"
  by (auto simp: checkedAdd_def checkedAdd_overflow)

definition header_length :: "Header \<Rightarrow> nat" where
  "header_length h = length (header_bytes h)"

lemma header_length_eq:
  "header_length h = 8 + length (hName h) + (case hValue h of None \<Rightarrow> 0 | Some b \<Rightarrow> length b)"
  by (simp add: header_length_def header_bytes_def split: option.split)

lemma record_length_eq:
  "record_length r = 36 + (case rKey r of None \<Rightarrow> 0 | Some b \<Rightarrow> length b)
     + (case rValue r of None \<Rightarrow> 0 | Some b \<Rightarrow> length b) + sum_list (map header_length (rHeaders r))"
  by (simp add: record_length_def record_tail_def nullable_bytes_def header_length_def [abs_def] length_concat
      comp_def split: option.split)

lemma len_of_nat: "len v = of_nat (case v of None \<Rightarrow> 0 | Some b \<Rightarrow> length b)"
  by (simp add: len_def split: option.split)

lemma headerSizes_Inr_iff:
  assumes "n + sum_list (map header_length hs) < 2 ^ 64"
  shows "headerSizes (of_nat n) hs = Inr m \<longleftrightarrow>
    list_all (\<lambda>h. validHeaderName (hName h)) hs \<and> m = of_nat (n + sum_list (map header_length hs))"
  using assms
proof (induction hs arbitrary: n)
  case (Cons h hs)
  have e: "8 + of_nat (length (hName h)) + len (hValue h) = (of_nat (header_length h) :: uint64)"
    by (simp add: header_length_eq len_of_nat)
  have "checkedAdd (of_nat n) (of_nat (header_length h)) = Inr (of_nat (n + header_length h))"
    using Cons.prems by (simp add: checkedAdd_Inr_iff)
  then show ?case
    using Cons.IH [of "n + header_length h"] Cons.prems unfolding headerSizes.simps e
    by (auto simp: add.assoc simp del: of_nat_add)
qed auto

lemma recordEncodedBytes_Inr_iff:
  assumes "record_length r < 2 ^ 64"
  shows "recordEncodedBytes r = Inr n \<longleftrightarrow>
    length (rHeaders r) \<le> unat MaxRecordHeaders \<and> list_all (\<lambda>h. validHeaderName (hName h)) (rHeaders r)
    \<and> n = of_nat (record_length r)"
proof -
  let ?k = "36 + (case rKey r of None \<Rightarrow> 0 | Some b \<Rightarrow> length b)
     + (case rValue r of None \<Rightarrow> 0 | Some b \<Rightarrow> length b)"
  have e: "of_nat RecordPrefixBytes + 4 + len (rKey r) + 4 + len (rValue r) = (of_nat ?k :: uint64)"
    by (simp add: len_of_nat)
  have l: "?k + sum_list (map header_length (rHeaders r)) = record_length r"
    by (simp add: record_length_eq)
  have "headerSizes (of_nat ?k) (rHeaders r) = Inr n \<longleftrightarrow>
      list_all (\<lambda>h. validHeaderName (hName h)) (rHeaders r) \<and> n = of_nat (record_length r)"
    using headerSizes_Inr_iff [of ?k "rHeaders r" n] assms unfolding l .
  then show ?thesis
    unfolding recordEncodedBytes_def e by (simp add: validHeaderCount_def)
qed

lemma recordSizes_of_records:
  assumes "\<forall>r \<in> set rs. recordEncodedBytes r = Inr (of_nat (record_length r))"
    and "n + records_length rs < 2 ^ 64"
  shows "recordSizes (of_nat n) rs = Inr (of_nat (n + records_length rs))"
  using assms
proof (induction rs arbitrary: n)
  case (Cons r rs)
  have "checkedAdd (of_nat n) (of_nat (record_length r)) = Inr (of_nat (n + record_length r))"
    using Cons.prems by (simp add: checkedAdd_Inr_iff records_length_def)
  then show ?case using Cons.IH [of "n + record_length r"] Cons.prems
    by (simp add: records_length_def add.assoc del: of_nat_add)
qed (simp add: records_length_def)

lemma recordEncodedBytes_encodable:
  assumes "encodable_record r base"
  shows "recordEncodedBytes r = Inr (of_nat (record_length r))"
proof -
  have "record_length r < 2 ^ 64" using assms by (simp add: encodable_record_def)
  then show ?thesis
    using assms by (simp add: recordEncodedBytes_Inr_iff encodable_record_def)
qed

lemma all_index_set: "all_index P i rs \<Longrightarrow> r \<in> set rs \<Longrightarrow> \<exists>j. P j r"
  by (auto simp: all_index_nth in_set_conv_nth)

lemma batchEncodedBytes_encodable:
  assumes "encodable_batch b"
  shows "batchEncodedBytes (bRecords b) = Inr (of_nat (52 + records_length (bRecords b)))"
proof -
  have "\<forall>r \<in> set (bRecords b). recordEncodedBytes r = Inr (of_nat (record_length r))"
    using assms all_index_set [of "record_in_batch b" 0 "bRecords b"] recordEncodedBytes_encodable
    by (fastforce simp: encodable_batch_def record_in_batch_def)
  moreover have "52 + records_length (bRecords b) < 2 ^ 64"
    using assms by (simp add: encodable_batch_def)
  ultimately have "recordSizes (of_nat 52) (bRecords b) = Inr (of_nat (52 + records_length (bRecords b)))"
    by (rule recordSizes_of_records)
  then show ?thesis using assms by (simp add: batchEncodedBytes_def encodable_batch_def)
qed

section \<open>Properties\<close>

text \<open>C33. The sizes the writer plans with are the sizes the encoder produces: for every batch that
  encodes, \<open>batchEncodedBytes\<close> returns the length of the encoding, and \<open>recordEncodedBytes\<close> the length
  of each encoded record, with no overflow on the way.\<close>

theorem batchEncodedBytes_exact:
  assumes "EncodeBatch batch = Inr data"
  shows "batchEncodedBytes (bRecords batch) = Inr (of_nat (length data))
    \<and> (\<forall>r \<in> set (bRecords batch). \<exists>out. EncodeRecord r (bBaseOffset batch) = Inr out
          \<and> recordEncodedBytes r = Inr (of_nat (length out)))"
proof
  have e: "encodable_batch batch" and d: "data = batch_bytes (zero_pads (bRecords batch)) batch"
    using assms by (auto simp: EncodeBatch_Inr_iff)
  show "batchEncodedBytes (bRecords batch) = Inr (of_nat (length data))"
    using batchEncodedBytes_encodable [OF e] d by (simp add: length_batch_bytes pads_for_zero_pads)
  show "\<forall>r \<in> set (bRecords batch). \<exists>out. EncodeRecord r (bBaseOffset batch) = Inr out
      \<and> recordEncodedBytes r = Inr (of_nat (length out))"
  proof
    fix r assume "r \<in> set (bRecords batch)"
    then have "encodable_record r (bBaseOffset batch)"
      using e all_index_set [of "record_in_batch batch" 0 "bRecords batch"]
      by (auto simp: encodable_batch_def record_in_batch_def)
    then show "\<exists>out. EncodeRecord r (bBaseOffset batch) = Inr out
        \<and> recordEncodedBytes r = Inr (of_nat (length out))"
      using recordEncodedBytes_encodable by (auto simp: EncodeRecord_Inr_iff length_record_bytes)
  qed
qed

theorem batchEncodedBytes_exact_witness:
  "\<exists>data. EncodeBatch example_batch = Inr data
     \<and> batchEncodedBytes (bRecords example_batch) = Inr (of_nat (length data))"
  using batchEncodedBytes_exact [of example_batch] encodable_example_batch
  by (simp add: EncodeBatch_Inr_iff)

end
