(* ===== verification/Tail.thy ===== *)
theory Tail
  imports Sizes
begin

text \<open>
  \<open>src/storage/tail.go\<close>: the bounded in-memory cache of recently appended batches of a partition, and
  the budget that the tails of a store share. A nil tail is \<open>None\<close>. Byte counts keep their 64 bits;
  slot numbers are natural numbers, since there are at most 256 slots. \<open>mu.TryLock()\<close> may fail, so the
  operations that use it take the outcome of the attempt as an argument.
\<close>

section \<open>The shared budget\<close>

definition maxTailSlots :: uint32 where [simp]: "maxTailSlots = 256"
definition maxTailBytes :: uint64 where [simp]: "maxTailBytes = 268435456"

record tailBudget =
  tbLimit :: uint64
  tbBytes :: uint64

definition newTailBudget :: "uint64 \<Rightarrow> tailBudget" where
  "newTailBudget limit = \<lparr>tbLimit = limit, tbBytes = 0\<rparr>"

definition tryReplaceLocked :: "uint64 \<Rightarrow> uint64 \<Rightarrow> tailBudget \<Rightarrow> tailBudget option" where
  "tryReplaceLocked removed added budget =
     (if removed > tbBytes budget then None
      else
        let afterRemoval = tbBytes budget - removed
        in if added > tbLimit budget - afterRemoval then None
           else Some (budget\<lparr>tbBytes := afterRemoval + added\<rparr>))"

definition budget_release :: "uint64 \<Rightarrow> tailBudget option \<Rightarrow> tailBudget option" where
  "budget_release bytes budget =
     (case budget of
        None \<Rightarrow> None
      | Some b \<Rightarrow>
          if bytes = 0 then Some b
          else if bytes \<ge> tbBytes b then Some (b\<lparr>tbBytes := 0\<rparr>)
          else Some (b\<lparr>tbBytes := tbBytes b - bytes\<rparr>))"

section \<open>The ring of delivered batches\<close>

record deliveredBatch =
  dbTopic :: TopicID
  dbPartition :: uint32
  dbBase :: uint64
  dbEnd :: uint64
  dbDurableEnd :: uint64
  dbBytes :: uint64
  dbRecords :: "Record list"

record partitionTail =
  ptSlots :: "deliveredBatch option list"
  ptHead :: nat
  ptCount :: nat
  ptBytes :: uint64
  ptLimit :: uint64
  ptClosed :: bool

definition newPartitionTail :: "PartitionOptions \<Rightarrow> partitionTail option result" where
  "newPartitionTail options =
     (if oTailSlots options = 0 \<and> oTailBytes options = 0 then Inr None
      else if oTailSlots options = 0 \<or> oTailBytes options = 0
      then Inl (invalidArgument ErrInvalidBatch)
      else if oTailSlots options > maxTailSlots \<or> oTailBytes options > maxTailBytes
      then Inl [ErrResourceLimit, ErrNew]
      else Inr (Some \<lparr>ptSlots = replicate (unat (oTailSlots options)) None, ptHead = 0, ptCount = 0,
                     ptBytes = 0, ptLimit = oTailBytes options, ptClosed = False\<rparr>))"

text \<open>The loop of \<open>newDeliveredBatch\<close>; \<open>cloneRecord\<close> copies a record, which a value is.\<close>

fun deliveredBytes :: "TopicID \<Rightarrow> uint32 \<Rightarrow> uint64 \<Rightarrow> nat \<Rightarrow> Record list \<Rightarrow> uint64 \<Rightarrow> uint64 option" where
  "deliveredBytes topic part base index [] bytes = Some bytes"
| "deliveredBytes topic part base index (r # rs) bytes =
     (if rTopic r \<noteq> topic \<or> rPartition r \<noteq> part \<or> rOffset r \<noteq> base + of_nat index then None
      else
        case andThen (recordEncodedBytes r) (checkedAdd bytes) of
          Inl _ \<Rightarrow> None
        | Inr bytes \<Rightarrow> deliveredBytes topic part base (Suc index) rs bytes)"

definition newDeliveredBatch ::
  "TopicID \<Rightarrow> uint32 \<Rightarrow> Record list \<Rightarrow> uint64 \<Rightarrow> deliveredBatch option" where
  "newDeliveredBatch topic part records durableEnd =
     (if records = [] \<or> length records > unat MaxBatchRecords then None
      else
        let base = rOffset (hd records)
        in if \<not> validOffsetRange base (of_nat (length records)) then None
           else
             let end = base + of_nat (length records)
             in if end > durableEnd then None
                else
                  case deliveredBytes topic part base 0 records 0 of
                    None \<Rightarrow> None
                  | Some bytes \<Rightarrow>
                      Some \<lparr>dbTopic = topic, dbPartition = part, dbBase = base, dbEnd = end,
                            dbDurableEnd = durableEnd, dbBytes = bytes, dbRecords = records\<rparr>)"

text \<open>The loop of \<open>evictionPlan\<close>, over the count and bytes that would remain.\<close>

function planLoop ::
  "partitionTail \<Rightarrow> uint64 \<Rightarrow> nat \<Rightarrow> uint64 \<Rightarrow> nat \<Rightarrow> uint64 \<Rightarrow> (nat \<times> uint64) option" where
  "planLoop tail incoming count bytes evictions removed =
     (if \<not> (count = length (ptSlots tail) \<or> bytes > ptLimit tail - incoming)
      then Some (evictions, removed)
      else if count = 0 then None
      else
        case ptSlots tail ! ((ptHead tail + evictions) mod length (ptSlots tail)) of
          None \<Rightarrow> None
        | Some b \<Rightarrow>
            if dbBytes b > bytes then None
            else planLoop tail incoming (count - 1) (bytes - dbBytes b) (evictions + 1)
                   (removed + dbBytes b))"
  by pat_completeness auto
termination
  by (relation "measure (\<lambda>(tail, incoming, count, _). count)") auto

declare planLoop.simps [simp del]

definition evictionPlan :: "partitionTail \<Rightarrow> uint64 \<Rightarrow> (nat \<times> uint64) option" where
  "evictionPlan tail incoming =
     (if incoming > ptLimit tail \<or> ptSlots tail = [] then None
      else planLoop tail incoming (ptCount tail) (ptBytes tail) 0 0)"

primrec evict :: "nat \<Rightarrow> partitionTail \<Rightarrow> partitionTail" where
  "evict 0 tail = tail"
| "evict (Suc count) tail =
     evict count
       (tail\<lparr>ptBytes := ptBytes tail -
               (case ptSlots tail ! ptHead tail of None \<Rightarrow> 0 | Some b \<Rightarrow> dbBytes b),
             ptSlots := (ptSlots tail)[ptHead tail := None],
             ptHead := (ptHead tail + 1) mod length (ptSlots tail),
             ptCount := ptCount tail - 1\<rparr>)"

text \<open>\<open>locked\<close> and \<open>budgetLocked\<close> are the outcomes of the two \<open>TryLock\<close> calls.\<close>

definition offer ::
  "bool \<Rightarrow> bool \<Rightarrow> TopicID \<Rightarrow> uint32 \<Rightarrow> Record list \<Rightarrow> uint64
     \<Rightarrow> partitionTail option \<Rightarrow> tailBudget option \<Rightarrow> partitionTail option \<times> tailBudget option" where
  "offer locked budgetLocked topic part records durableEnd tail budget =
     (case tail of
        None \<Rightarrow> (tail, budget)
      | Some t \<Rightarrow>
          if records = [] \<or> \<not> locked \<or> ptClosed t then (tail, budget)
          else
            case newDeliveredBatch topic part records durableEnd of
              None \<Rightarrow> (tail, budget)
            | Some b \<Rightarrow>
                if dbBytes b > ptLimit t then (tail, budget)
                else
                  case evictionPlan t (dbBytes b) of
                    None \<Rightarrow> (tail, budget)
                  | Some (evictions, removed) \<Rightarrow>
                      let push = (\<lambda>budget.
                            let t = evict evictions t;
                                index = (ptHead t + ptCount t) mod length (ptSlots t)
                            in (Some (t\<lparr>ptSlots := (ptSlots t)[index := Some b],
                                        ptCount := ptCount t + 1,
                                        ptBytes := ptBytes t + dbBytes b\<rparr>), budget))
                      in case budget of
                           None \<Rightarrow> push None
                         | Some bg \<Rightarrow>
                             if \<not> budgetLocked then (tail, budget)
                             else
                               case tryReplaceLocked removed (dbBytes b) bg of
                                 None \<Rightarrow> (tail, budget)
                               | Some bg' \<Rightarrow> push (Some bg'))"

definition emptied :: "partitionTail \<Rightarrow> partitionTail" where
  "emptied t = t\<lparr>ptSlots := map (\<lambda>_. None) (ptSlots t), ptHead := 0, ptCount := 0, ptBytes := 0\<rparr>"

definition tail_close ::
  "partitionTail option \<Rightarrow> tailBudget option \<Rightarrow> partitionTail option \<times> tailBudget option" where
  "tail_close tail budget =
     (case tail of
        None \<Rightarrow> (tail, budget)
      | Some t \<Rightarrow>
          if ptClosed t then (tail, budget)
          else (Some (emptied t\<lparr>ptClosed := True\<rparr>), budget_release (ptBytes t) budget))"

definition tail_clear ::
  "partitionTail option \<Rightarrow> tailBudget option \<Rightarrow> partitionTail option \<times> tailBudget option" where
  "tail_clear tail budget =
     (case tail of
        None \<Rightarrow> (tail, budget)
      | Some t \<Rightarrow>
          if ptClosed t \<or> ptCount t = 0 then (tail, budget)
          else (Some (emptied t), budget_release (ptBytes t) budget))"

section \<open>Fetching from the tail\<close>

record FetchOptions =
  foMaxRecords :: uint32
  foMaxBytes :: uint64
  foMaxWait :: Duration

record FetchResult =
  frRecords :: "Record list"
  frNextOffset :: uint64

definition validDeliveredBatch ::
  "deliveredBatch option \<Rightarrow> TopicID \<Rightarrow> uint32 \<Rightarrow> uint64 \<Rightarrow> uint64 \<Rightarrow> bool" where
  "validDeliveredBatch batch topic part offset durableEnd \<longleftrightarrow>
     (case batch of
        None \<Rightarrow> False
      | Some b \<Rightarrow>
          \<not> (dbTopic b \<noteq> topic \<or> dbPartition b \<noteq> part \<or> dbBase b > offset \<or> offset \<ge> dbEnd b
             \<or> dbEnd b > dbDurableEnd b \<or> dbDurableEnd b > durableEnd \<or> dbRecords b = []
             \<or> length (dbRecords b) > unat MaxBatchRecords
             \<or> \<not> validOffsetRange (dbBase b) (of_nat (length (dbRecords b)))
             \<or> dbEnd b \<noteq> dbBase b + of_nat (length (dbRecords b)))
          \<and> all_index (\<lambda>i r. rTopic r = topic \<and> rPartition r = part \<and> rOffset r = dbBase b + of_nat i)
              0 (dbRecords b))"

text \<open>
  The record loop, which a fetch from segments has in the same form: it stops at the record limit,
  at the byte limit, and with an error when the first record does not fit. \<open>FetchFull\<close> tells that a
  limit stopped the loop.
\<close>

datatype fetchOutcome = FetchMore FetchResult uint64 | FetchFull FetchResult uint64 | FetchFail error

fun fetchRecords :: "FetchOptions \<Rightarrow> Record list \<Rightarrow> FetchResult \<Rightarrow> uint64 \<Rightarrow> fetchOutcome" where
  "fetchRecords options [] result resultBytes = FetchMore result resultBytes"
| "fetchRecords options (r # rs) result resultBytes =
     (if of_nat (length (frRecords result)) \<ge> foMaxRecords options then FetchFull result resultBytes
      else
        case recordEncodedBytes r of
          Inl e \<Rightarrow> FetchFail e
        | Inr recordBytes \<Rightarrow>
            if recordBytes > foMaxBytes options - resultBytes then
              (if frRecords result = [] then FetchFail [ErrFetchLimitTooSmall, ErrNew]
               else FetchFull result resultBytes)
            else
              fetchRecords options rs
                \<lparr>frRecords = frRecords result @ [r], frNextOffset = rOffset r + 1\<rparr>
                (resultBytes + recordBytes))"

text \<open>\<open>fetch\<close> returns a result and error when it is a hit, and nothing otherwise. Its loop computes the
  size of a record before it tests the record limit; a size that cannot be computed is a miss.\<close>

fun tailRecords ::
  "FetchOptions \<Rightarrow> uint64 \<Rightarrow> Record list \<Rightarrow> FetchResult \<Rightarrow> uint64 \<Rightarrow> (FetchResult \<times> error) option" where
  "tailRecords options offset [] result resultBytes = Some (result, [])"
| "tailRecords options offset (r # rs) result resultBytes =
     (case recordEncodedBytes r of
        Inl e \<Rightarrow> None
      | Inr recordBytes \<Rightarrow>
          if of_nat (length (frRecords result)) \<ge> foMaxRecords options then Some (result, [])
          else if recordBytes > foMaxBytes options - resultBytes then
            (if frRecords result = []
             then Some (\<lparr>frRecords = [], frNextOffset = offset\<rparr>, [ErrFetchLimitTooSmall, ErrNew])
             else Some (result, []))
          else
            tailRecords options offset rs
              \<lparr>frRecords = frRecords result @ [r], frNextOffset = rOffset r + 1\<rparr>
              (resultBytes + recordBytes))"

definition tail_fetch ::
  "bool \<Rightarrow> TopicID \<Rightarrow> uint32 \<Rightarrow> uint64 \<Rightarrow> uint64 \<Rightarrow> FetchOptions \<Rightarrow> partitionTail option
     \<Rightarrow> (FetchResult \<times> error) option" where
  "tail_fetch locked topic part offset durableEnd options tail =
     (case tail of
        None \<Rightarrow> None
      | Some t \<Rightarrow>
          if \<not> locked \<or> ptClosed t then None
          else
            case List.find (\<lambda>b. validDeliveredBatch b topic part offset durableEnd) (ptSlots t) of
              Some (Some b) \<Rightarrow>
                tailRecords options offset (drop (unat (offset - dbBase b)) (dbRecords b))
                  \<lparr>frRecords = [], frNextOffset = offset\<rparr> 0
            | _ \<Rightarrow> None)"

end
