(* ===== verification/Partition.thy ===== *)
theory Partition
  imports Index Segment_Files Tail
begin

text \<open>
  \<open>src/storage/partition.go\<close> and \<open>src/storage/append_encoded.go\<close>: creation, recovery and opening of
  segments, the durable append of one encoded batch, and the reference read. The operations work on
  the files of a world and on the partition's record; names and identifiers that the source draws at
  random are arguments. The writer's queue, which shares the Go struct, is in the theory Writer, and
  statistics counters are left out here.
\<close>

section \<open>Paths\<close>

definition path_join :: "path \<Rightarrow> bytes \<Rightarrow> path" where
  "path_join dir name = dir @ [0x2F] @ name"

text \<open>\<open>filepath.Base\<close> of a path that ends in a file name.\<close>

definition path_base :: "path \<Rightarrow> bytes" where
  "path_base p = rev (takeWhile (\<lambda>c. c \<noteq> 0x2F) (rev p))"

text \<open>\<open>fmt.Sprintf("%020d.log", base)\<close>; a \<open>uint64\<close> has at most 20 digits.\<close>

primrec decimal :: "nat \<Rightarrow> nat \<Rightarrow> bytes" where
  "decimal 0 n = []"
| "decimal (Suc width) n = decimal width (n div 10) @ [of_nat (48 + n mod 10)]"

definition log_suffix :: bytes where
  "log_suffix = [0x2E, 0x6C, 0x6F, 0x67]"

definition segment_name :: "uint64 \<Rightarrow> bytes" where
  "segment_name base = decimal 20 (unat base) @ log_suffix"

text \<open>\<open>strconv.ParseUint\<close> on a string of digits; a value past 64 bits is a parse error.\<close>

definition parse_digits :: "bytes \<Rightarrow> nat" where
  "parse_digits = foldl (\<lambda>a c. a * 10 + (unat c - 48)) 0"

text \<open>\<open>fsReadDir\<close>: the names of the files in a directory, in order.\<close>

definition entry_name :: "path \<Rightarrow> path \<Rightarrow> bytes option" where
  "entry_name dir p =
     (if take (length dir + 1) p = dir @ [0x2F] \<and> 0x2F \<notin> set (drop (length dir + 1) p)
      then Some (drop (length dir + 1) p) else None)"

definition fsReadDir :: "path \<Rightarrow> bytes list io" where
  "fsReadDir dir w =
     (case next_outcome w of
        (Fail n e, w) \<Rightarrow> (Inl (failure e), w)
      | (Done, w) \<Rightarrow>
          (Inr (sort (remdups (List.map_filter (entry_name dir) (map fst (wFiles w))))), w))"

section \<open>State\<close>

text \<open>The running projection-prefix hash of \<open>src/storage/snapshot.go\<close> is the bytes written to it.\<close>

record prefixDigestState =
  pdHash :: bytes
  pdStoreID :: StoreID
  pdCovered :: uint64

record Partition =
  pDir :: path
  pTopic :: TopicID
  pPartition :: uint32
  pOptions :: PartitionOptions
  pStoreID :: StoreID
  pTail :: "partitionTail option"
  pSegments :: "segment list"
  pLogEnd :: uint64
  pPrefixDigest :: "prefixDigestState option"
  pClosed :: bool
  pClosing :: bool
  pFetchWake :: bool
  pFetchWaiters :: uint32
  pUnavailable :: bool

section \<open>Creating a segment\<close>

definition temporary_name :: "id16 \<Rightarrow> bytes" where
  "temporary_name i =
     [0x2E, 0x73, 0x65, 0x67, 0x6D, 0x65, 0x6E, 0x74, 0x2D] @ String_id i @ [0x2E, 0x74, 0x6D, 0x70]"

text \<open>Writing the header to the temporary file; the check that the final path is free.\<close>

definition writeHeader :: "path \<Rightarrow> bytes \<Rightarrow> unit io" where
  "writeHeader temporaryPath encoded w =
     (case fileWrite temporaryPath encoded w of
        ((written, writeErr), w) \<Rightarrow>
          if writeErr \<noteq> [] \<or> written \<noteq> length encoded then (Inl (writeErr @ [ErrShortWrite]), w)
          else (Inr (), w))"

definition requireAbsent :: "path \<Rightarrow> unit io" where
  "requireAbsent path w =
     (case fsStat path w of
        (Inr _, w) \<Rightarrow> (Inl (corrupt ErrInvalidSegment), w)
      | (Inl e, w) \<Rightarrow> if ErrNotExist \<notin> set e then (Inl (errorf e), w) else (Inr (), w))"

text \<open>\<open>random\<close> is what \<open>rand.Read\<close> delivers.\<close>

definition createSegment :: "id16 \<Rightarrow> path \<Rightarrow> TopicID \<Rightarrow> uint32 \<Rightarrow> uint64 \<Rightarrow> segment io" where
  "createSegment random dir topic part base =
     (let i = (if IsZero random then bytes_id ((id_bytes random)[15 := 1]) else random);
          header = \<lparr>sTopic = topic, sPartition = part, sBaseOffset = base, sID = i\<rparr>;
          finalPath = path_join dir (segment_name base);
          temporaryPath = path_join dir (temporary_name i)
      in ioThen (ioReturn (EncodeSegmentHeader header)) (\<lambda>encoded.
         ioThen (ioWrap (fsCreate temporaryPath)) (\<lambda>_.
         ioThen (ioCleanup (writeHeader temporaryPath encoded) (fileClose temporaryPath)) (\<lambda>_.
         ioThen (ioCleanup (ioWrap (fileSync temporaryPath)) (fileClose temporaryPath)) (\<lambda>_.
         ioThen (ioWrap (fileClose temporaryPath)) (\<lambda>_.
         ioThen (requireAbsent finalPath) (\<lambda>_.
         ioThen (ioWrap (fsRename temporaryPath finalPath)) (\<lambda>_.
         ioThen (ioWrap (syncDir dir)) (\<lambda>_.
         ioThen (ioWrap (fsOpen finalPath)) (\<lambda>_.
           ioReturn (Inr \<lparr>sgPath = finalPath, sgOpen = True, sgHeader = header, sgEnd = base,
                          sgSize = unat SegmentHeaderBytes, sgRecords = 0, sgMaxTime = MinInt64,
                          sgHeaderHash = segmentHeaderHash encoded, sgBatches = [],
                          sgOffsetIndex = None, sgTimeIndex = None, sgIndexDirty = True\<rparr>)))))))))))"

section \<open>Recovering a segment\<close>

definition canTruncateTail :: "bytes \<Rightarrow> uint64 \<Rightarrow> bool" where
  "canTruncateTail data expectedOffset =
     (if length data < unat BatchHeaderBytes \<or> slice 0 4 data \<noteq> BatchMagic
         \<or> Uint16 (slice 6 8 data) \<noteq> BatchHeaderBytes
      then False
      else if Uint32 (slice 44 48 data) \<noteq> CRC32C (slice 0 44 data) then False
      else if Uint16 (slice 4 6 data) \<noteq> FormatVersion \<or> Uint16 (slice 36 38 data) \<noteq> FormatVersion
              \<or> Uint32 (slice 32 36 data) \<noteq> 0 \<or> Uint16 (slice 38 40 data) \<noteq> 0
              \<or> Uint32 (slice 40 44 data) \<noteq> 0
      then False
      else
        let total_length = Uint32 (slice 8 12 data);
            batchRecords = Uint32 (slice 12 16 data);
            base = Uint64 (slice 16 24 data)
        in total_length \<ge> ucast BatchHeaderBytes + of_nat BatchTrailerBytes + of_nat RecordPrefixBytes
           \<and> total_length \<le> MaxBatchBytes \<and> batchRecords > 0 \<and> batchRecords \<le> MaxBatchRecords
           \<and> validOffsetRange base batchRecords \<and> base = expectedOffset
           \<and> (ucast total_length :: uint64) > of_nat (length data))"

record scanState =
  scCurrent :: uint64
  scPosition :: nat
  scRecords :: uint64
  scMaxTime :: uint64
  scBatches :: "batchInfo list"

definition scanBatch :: "bytes \<Rightarrow> uint32 \<Rightarrow> RecordBatch \<Rightarrow> scanState \<Rightarrow> scanState" where
  "scanBatch data batchLength b st =
     \<lparr>scCurrent = scCurrent st + of_nat (length (bRecords b)),
      scPosition = scPosition st + unat batchLength,
      scRecords = scRecords st + of_nat (length (bRecords b)),
      scMaxTime = foldl (\<lambda>m r. if sint (rTimestamp r) > sint m then rTimestamp r else m)
                    (scMaxTime st) (bRecords b),
      scBatches = scBatches st @
        [\<lparr>biBase = bBaseOffset b, biPosition = scPosition st, biBytes = batchLength,
          biRecords = of_nat (length (bRecords b)),
          biMaxTime = Uint64 (slice (scPosition st + 24) (scPosition st + 32) data)\<rparr>]\<rparr>"

text \<open>
  The loop of \<open>recoverSegment\<close>. The flag of the result tells that the loop left at an incomplete batch
  that may be cut off; the caller then truncates the file at the position reached.
\<close>

function scanBatches ::
  "TopicID \<Rightarrow> uint32 \<Rightarrow> bool \<Rightarrow> bytes \<Rightarrow> scanState \<Rightarrow> (bool \<times> scanState) result" where
  "scanBatches topic part final data st =
     (let position = scPosition st
      in if \<not> position < length data then Inr (False, st)
         else
           let remaining = length data - position
           in if remaining < unat BatchHeaderBytes then Inl (corrupt ErrInvalidBatch)
              else
                let batchLength = Uint32 (slice (position + 8) (position + 12) data)
                in if unat batchLength > remaining then
                     (if final \<and> canTruncateTail (drop position data) (scCurrent st)
                      then Inr (True, st) else Inl (corrupt ErrInvalidBatch))
                   else if batchLength < ucast BatchHeaderBytes + of_nat BatchTrailerBytes
                        \<or> position + unat batchLength > length data
                   then Inl (corrupt ErrInvalidBatch)
                   else
                     case DecodeBatch (slice position (position + unat batchLength) data) topic part of
                       Inl e \<Rightarrow> Inl (errorf e)
                     | Inr b \<Rightarrow>
                         if bBaseOffset b \<noteq> scCurrent st then Inl (corrupt ErrInvalidBatch)
                         else scanBatches topic part final data (scanBatch data batchLength b st))"
  by pat_completeness auto
termination
  by (relation "measure (\<lambda>(topic, part, final, data, st). length data - scPosition st)")
    (auto simp: scanBatch_def word_less_nat_alt)

declare scanBatches.simps [simp del]

definition recoverSegment ::
  "path \<Rightarrow> TopicID \<Rightarrow> uint32 \<Rightarrow> bool \<Rightarrow> uint64 \<Rightarrow> (segment \<times> uint64) io" where
  "recoverSegment path topic part final expected w =
     (let fail = (\<lambda>e w. (Inl e, snd (fileClose path w)))
      in case fsOpen path w of
           (Inl e, w) \<Rightarrow> (Inl (errorf e), w)
         | (Inr _, w) \<Rightarrow>
      (case fsStat path w of
         (Inl e, w) \<Rightarrow> fail (errorf e) w
       | (Inr n, w) \<Rightarrow>
           if n < unat SegmentHeaderBytes then fail (corrupt ErrInvalidSegment) w
           else
      (case readFile path n w of
         (Inl e, w) \<Rightarrow> fail (errorf e) w
       | (Inr data, w) \<Rightarrow>
      (case DecodeSegmentHeader (slice 0 (unat SegmentHeaderBytes) data) topic part of
         Inl e \<Rightarrow> fail (errorf e) w
       | Inr header \<Rightarrow>
           if path_base path \<noteq> segment_name (sBaseOffset header) \<or> sBaseOffset header \<noteq> expected
           then fail (corrupt ErrInvalidSegment) w
           else
             let finish = (\<lambda>st data w.
                   if \<not> final \<and> scRecords st = 0 then fail (corrupt ErrInvalidSegment) w
                   else
                     (Inr (\<lparr>sgPath = path, sgOpen = True, sgHeader = header, sgEnd = scCurrent st,
                            sgSize = length data, sgRecords = scRecords st, sgMaxTime = scMaxTime st,
                            sgHeaderHash = segmentHeaderHash (slice 0 (unat SegmentHeaderBytes) data),
                            sgBatches = scBatches st, sgOffsetIndex = None, sgTimeIndex = None,
                            sgIndexDirty = False\<rparr>, scCurrent st), w))
             in case scanBatches topic part final data
                       \<lparr>scCurrent = sBaseOffset header, scPosition = unat SegmentHeaderBytes,
                        scRecords = 0, scMaxTime = MinInt64, scBatches = []\<rparr> of
                  Inl e \<Rightarrow> fail e w
                | Inr (False, st) \<Rightarrow> finish st data w
                | Inr (True, st) \<Rightarrow>
                    (case fileTruncate path (scPosition st) w of
                       (Inl e, w) \<Rightarrow> fail (errorf e) w
                     | (Inr _, w) \<Rightarrow>
                    (case fileSync path w of
                       (Inl e, w) \<Rightarrow> fail (errorf e) w
                     | (Inr _, w) \<Rightarrow> finish st (take (scPosition st) data) w))))))"

section \<open>Opening a partition\<close>

record discoveredSegment =
  dsPath :: path
  dsBase :: uint64

fun discoverLoop ::
  "path \<Rightarrow> bytes list \<Rightarrow> uint64 set \<Rightarrow> discoveredSegment list \<Rightarrow> discoveredSegment list result" where
  "discoverLoop dir [] seen files = Inr files"
| "discoverLoop dir (entry # entries) seen files =
     (if \<not> (length entry \<ge> 4 \<and> drop (length entry - 4) entry = log_suffix)
      then discoverLoop dir entries seen files
      else
        let name = take (length entry - 4) entry
        in if length name \<noteq> 20 then Inl (corrupt ErrInvalidSegment)
           else if \<not> list_all (\<lambda>c. 48 \<le> c \<and> c \<le> 57) name then Inl (corrupt ErrInvalidSegment)
           else if parse_digits name > unat maxOffset then Inl (corrupt ErrInvalidSegment)
           else
             let base = of_nat (parse_digits name)
             in if base \<in> seen then Inl (corrupt ErrInvalidSegment)
                else discoverLoop dir entries (insert base seen)
                       (files @ [\<lparr>dsPath = path_join dir entry, dsBase = base\<rparr>]))"

definition discoverSegments :: "path \<Rightarrow> discoveredSegment list io" where
  "discoverSegments dir w =
     (case fsReadDir dir w of
        (Inl e, w) \<Rightarrow> (Inl (errorf e), w)
      | (Inr entries, w) \<Rightarrow> (discoverLoop dir entries {} [], w))"

text \<open>Closing the handles of the segments that hold one, with the errors discarded or joined.\<close>

fun closeSegments :: "segment list \<Rightarrow> world \<Rightarrow> error \<times> world" where
  "closeSegments [] w = ([], w)"
| "closeSegments (s # ss) w =
     (if \<not> sgOpen s then closeSegments ss w
      else
        case fileClose (sgPath s) w of
          (Inl e, w) \<Rightarrow> (case closeSegments ss w of (e', w) \<Rightarrow> (e @ e', w))
        | (Inr _, w) \<Rightarrow> closeSegments ss w)"

definition releaseSealedHandles :: "segment list \<Rightarrow> world \<Rightarrow> error \<times> segment list \<times> world" where
  "releaseSealedHandles segments w =
     (if segments = [] then ([], [], w)
      else
        case closeSegments (butlast segments) w of
          (e, w) \<Rightarrow> (e, map (\<lambda>s. s\<lparr>sgOpen := False\<rparr>) (butlast segments) @ [last segments], w))"

fun recoverLoop ::
  "TopicID \<Rightarrow> uint32 \<Rightarrow> PartitionOptions \<Rightarrow> StoreID \<Rightarrow> discoveredSegment list \<Rightarrow> uint64
     \<Rightarrow> segment list \<Rightarrow> (segment list \<times> uint64) io" where
  "recoverLoop topic part options storeID [] expected segments w = (Inr (segments, expected), w)"
| "recoverLoop topic part options storeID (f # fs) expected segments w =
     (let expected' = (if segments = [] then dsBase f else expected)
      in if (if segments = [] then expected' \<noteq> oInitialOffset options else dsBase f \<noteq> expected)
         then (Inl (corrupt ErrInvalidSegment), w)
         else
           case recoverSegment (dsPath f) topic part (fs = []) expected' w of
             (Inl e, w) \<Rightarrow> (Inl e, snd (closeSegments segments w))
           | (Inr (opened, next), w) \<Rightarrow>
               (case loadOrBuildIndexes opened storeID (oIndexStride options) w of
                  (opened, w) \<Rightarrow>
                    recoverLoop topic part options storeID fs next (segments @ [opened]) w))"

text \<open>\<open>ingressCapacity\<close> of \<open>src/storage/ingress.go\<close>; \<open>capacityLoop\<close> doubles a 32-bit capacity.\<close>

definition maxIngressSlots :: uint32 where [simp]: "maxIngressSlots = 131072"

fun capacityLoop :: "nat \<Rightarrow> uint32 \<Rightarrow> uint32 \<Rightarrow> uint32 option" where
  "capacityLoop 0 capacity needed = (if capacity < needed then None else Some capacity)"
| "capacityLoop (Suc fuel) capacity needed =
     (if capacity < needed then capacityLoop fuel (push_bit 1 capacity) needed else Some capacity)"

definition ingressCapacity :: "uint32 \<Rightarrow> uint32 result" where
  "ingressCapacity limit =
     (if limit = 0 \<or> limit > maxInFlightRecords then Inl [ErrNew]
      else
        let needed = limit * 2
        in if needed > maxIngressSlots then Inl [ErrNew]
           else case capacityLoop 32 1 needed of Some c \<Rightarrow> Inr c | None \<Rightarrow> Inl [ErrNew])"

text \<open>\<open>newRing\<close> is the outcome of creating the ring and its processor in the disruptor library.\<close>

definition startWriter :: "(uint32 \<Rightarrow> unit result) \<Rightarrow> PartitionOptions \<Rightarrow> uint32 result" where
  "startWriter newRing options =
     andThen (ingressCapacity (oInFlightRecords options)) (\<lambda>capacity.
     andThen (newRing capacity) (\<lambda>_. Inr capacity))"

definition openPartition ::
  "(uint32 \<Rightarrow> unit result) \<Rightarrow> id16 \<Rightarrow> path \<Rightarrow> TopicID \<Rightarrow> uint32 \<Rightarrow> PartitionOptions \<Rightarrow> StoreID
     \<Rightarrow> Partition io" where
  "openPartition newRing random dir topic part options storeID w =
     (case newPartitionTail options of
        Inl e \<Rightarrow> (Inl e, w)
      | Inr tail \<Rightarrow>
     (case discoverSegments dir w of
        (Inl e, w) \<Rightarrow> (Inl e, w)
      | (Inr files, w) \<Rightarrow>
          let p = \<lparr>pDir = dir, pTopic = topic, pPartition = part, pOptions = options,
                   pStoreID = storeID, pTail = tail, pSegments = [], pLogEnd = 0,
                   pPrefixDigest = None, pClosed = False, pClosing = False, pFetchWake = False, pFetchWaiters = 0,
                   pUnavailable = False\<rparr>
          in if files = [] then
               (case createSegment random dir topic part (oInitialOffset options) w of
                  (Inl e, w) \<Rightarrow> (Inl e, w)
                | (Inr created, w) \<Rightarrow>
                    (case loadOrBuildIndexes created storeID (oIndexStride options) w of
                       (created, w) \<Rightarrow>
                         case startWriter newRing options of
                           Inl e \<Rightarrow> (Inl e, snd (fileClose (sgPath created) w))
                         | Inr _ \<Rightarrow>
                             (Inr (p\<lparr>pSegments := [created], pLogEnd := oInitialOffset options\<rparr>), w)))
             else
               (case recoverLoop topic part options storeID (sort_key dsBase files) 0 [] w of
                  (Inl e, w) \<Rightarrow> (Inl e, w)
                | (Inr (segments, expected), w) \<Rightarrow>
                    (case releaseSealedHandles segments w of
                       (e, segments, w) \<Rightarrow>
                         if e \<noteq> [] then (Inl e, snd (closeSegments segments w))
                         else
                           case startWriter newRing options of
                             Inl e \<Rightarrow> (Inl e, snd (closeSegments segments w))
                           | Inr _ \<Rightarrow>
                               (Inr (p\<lparr>pSegments := segments, pLogEnd := expected\<rparr>), w)))))"

section \<open>Appending\<close>

record tailPublication =
  tpTopic :: TopicID
  tpPartition :: uint32
  tpRecords :: "Record list"
  tpDurableEnd :: uint64

definition publishTail ::
  "bool \<Rightarrow> bool \<Rightarrow> tailPublication option \<Rightarrow> Partition \<Rightarrow> tailBudget option
     \<Rightarrow> Partition \<times> tailBudget option" where
  "publishTail locked budgetLocked publication p budget =
     (case publication of
        None \<Rightarrow> (p, budget)
      | Some t \<Rightarrow>
          (case offer locked budgetLocked (tpTopic t) (tpPartition t) (tpRecords t) (tpDurableEnd t)
                  (pTail p) budget of
             (tail, budget) \<Rightarrow> (p\<lparr>pTail := tail\<rparr>, budget)))"

definition extendPrefixDigestLocked :: "uint64 \<Rightarrow> bytes \<Rightarrow> Partition \<Rightarrow> Partition" where
  "extendPrefixDigestLocked base encoded p =
     (case pPrefixDigest p of
        None \<Rightarrow> p
      | Some cached \<Rightarrow>
          if pdCovered cached \<noteq> base then p\<lparr>pPrefixDigest := None\<rparr>
          else p\<lparr>pPrefixDigest := Some (cached\<lparr>pdHash := pdHash cached @ encoded,
                                              pdCovered := pLogEnd p\<rparr>)\<rparr>)"

definition signalFetchWaitersLocked :: "Partition \<Rightarrow> Partition" where
  "signalFetchWaitersLocked p = p\<lparr>pFetchWake := False\<rparr>"

text \<open>The size checks on the records of a batch.\<close>

fun checkRecordSizes :: "uint32 \<Rightarrow> Record list \<Rightarrow> unit result" where
  "checkRecordSizes limit [] = Inr ()"
| "checkRecordSizes limit (r # rs) =
     andThen (recordEncodedBytes r) (\<lambda>recordBytes.
       if recordBytes > ucast limit then Inl [ErrRecordTooLarge, ErrNew]
       else checkRecordSizes limit rs)"

text \<open>The active segment after a batch has been written and synchronised.\<close>

definition extendSegment :: "RecordBatch \<Rightarrow> bytes \<Rightarrow> segment \<Rightarrow> segment" where
  "extendSegment batch encoded active =
     active\<lparr>sgSize := sgSize active + length encoded,
            sgEnd := sgEnd active + of_nat (length (bRecords batch)),
            sgRecords := sgRecords active + of_nat (length (bRecords batch)),
            sgBatches := sgBatches active @
              [\<lparr>biBase = bBaseOffset batch, biPosition = sgSize active,
                biBytes = of_nat (length encoded), biRecords = of_nat (length (bRecords batch)),
                biMaxTime = Uint64 (slice 24 32 encoded)\<rparr>],
            sgMaxTime := foldl (\<lambda>m r. if sint (rTimestamp r) > sint m then rTimestamp r else m)
              (sgMaxTime active) (bRecords batch)\<rparr>"

text \<open>Rolling to a new segment: \<open>None\<close> for the partition means that it could not be created.\<close>

definition rollSegment :: "id16 \<Rightarrow> path \<times> path \<Rightarrow> Partition \<Rightarrow> Partition io" where
  "rollSegment random temporaries p w =
     (case createSegment random (pDir p) (pTopic p) (pPartition p) (pLogEnd p) w of
        (Inl e, w) \<Rightarrow> (Inl e, w)
      | (Inr rolled, w) \<Rightarrow>
          (case installSegmentIndexes temporaries (last (pSegments p)) (pStoreID p)
                  (oIndexStride (pOptions p)) w of
             (_, active, w) \<Rightarrow>
               (Inr (p\<lparr>pSegments := butlast (pSegments p) @ [active\<lparr>sgOpen := False\<rparr>, rolled]\<rparr>),
                snd (fileClose (sgPath active) w))))"

definition writeActive ::
  "RecordBatch \<Rightarrow> bytes \<Rightarrow> Partition \<Rightarrow> world
     \<Rightarrow> (uint64 \<times> tailPublication option) result \<times> Partition \<times> world" where
  "writeActive batch encoded p w =
     (let active = last (pSegments p)
      in case fileWriteAt (sgPath active) encoded (sgSize active) w of
           ((written, writeErr), w) \<Rightarrow>
             if writeErr \<noteq> [] \<or> written \<noteq> length encoded then
               (Inl ([ErrAppendOutcomeUnknown, ErrPartitionUnavailable] @ writeErr @ [ErrShortWrite]),
                p\<lparr>pUnavailable := True\<rparr>, w)
             else
               (case fileSync (sgPath active) w of
                  (Inl syncErr, w) \<Rightarrow>
                    (Inl ([ErrAppendOutcomeUnknown, ErrPartitionUnavailable] @ syncErr),
                     p\<lparr>pUnavailable := True\<rparr>, w)
                | (Inr _, w) \<Rightarrow>
                    let active' = extendSegment batch encoded active;
                        p = p\<lparr>pLogEnd := sgEnd active'\<rparr>;
                        p = extendPrefixDigestLocked (bBaseOffset batch) encoded p;
                        active'' = refreshSegmentIndexes active' (pStoreID p) (oIndexStride (pOptions p));
                        p = p\<lparr>pSegments := butlast (pSegments p) @ [active'']\<rparr>;
                        p = signalFetchWaitersLocked p
                    in if pTail p = None then (Inr (bBaseOffset batch, None), p, w)
                       else
                         (Inr (bBaseOffset batch,
                               Some \<lparr>tpTopic = pTopic p, tpPartition = pPartition p,
                                     tpRecords = bRecords batch, tpDurableEnd = pLogEnd p\<rparr>), p, w)))"

definition appendEncodedLocked ::
  "id16 \<Rightarrow> path \<times> path \<Rightarrow> RecordBatch \<Rightarrow> bytes \<Rightarrow> Partition \<Rightarrow> world
     \<Rightarrow> (uint64 \<times> tailPublication option) result \<times> Partition \<times> world" where
  "appendEncodedLocked random temporaries batch encoded p w =
     (if pClosed p then (Inl [ErrClosed], p, w)
      else if pUnavailable p then (Inl [ErrPartitionUnavailable], p, w)
      else if bTopic batch \<noteq> pTopic p \<or> bPartition batch \<noteq> pPartition p
              \<or> bBaseOffset batch \<noteq> pLogEnd p
      then (Inl [ErrInvalidArgument, ErrNew], p, w)
      else if bRecords batch = [] \<or> of_nat (length (bRecords batch)) > oBatchRecords (pOptions p)
              \<or> length encoded > unat (oBatchBytes (pOptions p))
      then (Inl [ErrRecordTooLarge, ErrNew], p, w)
      else
        case checkRecordSizes (oRecordBytes (pOptions p)) (bRecords batch) of
          Inl e \<Rightarrow> (Inl e, p, w)
        | Inr _ \<Rightarrow>
            let active = last (pSegments p)
            in if of_nat (length encoded) + of_nat (sgSize active) > oSegmentBytes (pOptions p) then
                 (if sgRecords active = 0 then (Inl [ErrRecordTooLarge, ErrNew], p, w)
                  else
                    case rollSegment random temporaries p w of
                      (Inl e, w) \<Rightarrow>
                        (Inl (ErrPartitionUnavailable # e), p\<lparr>pUnavailable := True\<rparr>, w)
                    | (Inr p, w) \<Rightarrow> writeActive batch encoded p w)
               else writeActive batch encoded p w)"

section \<open>Reading\<close>

definition EndOffset :: "Partition \<Rightarrow> uint64 result" where
  "EndOffset p =
     (if pClosed p then Inl [ErrClosed]
      else if pClosing p then Inl [ErrClosing]
      else if pUnavailable p then Inl [ErrPartitionUnavailable]
      else Inr (pLogEnd p))"

text \<open>
  \<open>acquireSegmentFile\<close>: the active segment has its own handle, a sealed one comes from the store's
  cache or, without a store, from opening the file. \<open>releaseSegmentFile\<close> is the function it returns.
\<close>

definition acquireSegmentFile ::
  "segment \<Rightarrow> segmentFileCache option \<Rightarrow> world \<Rightarrow> unit result \<times> segmentFileCache option \<times> world" where
  "acquireSegmentFile target files w =
     (if sgOpen target then (Inr (), files, w)
      else
        case files of
          Some cache \<Rightarrow>
            (case acquire (sgPath target) cache w of (r, cache, w) \<Rightarrow> (r, Some cache, w))
        | None \<Rightarrow> (case fsOpen (sgPath target) w of (r, w) \<Rightarrow> (r, None, w)))"

definition releaseSegmentFile ::
  "segment \<Rightarrow> segmentFileCache option \<Rightarrow> world \<Rightarrow> segmentFileCache option \<times> world" where
  "releaseSegmentFile target files w =
     (if sgOpen target then (files, w)
      else
        case files of
          Some cache \<Rightarrow> (case release (sgPath target) cache w of (cache, w) \<Rightarrow> (Some cache, w))
        | None \<Rightarrow> (None, snd (fileClose (sgPath target) w)))"

definition readSegmentFile ::
  "segment \<Rightarrow> segmentFileCache option \<Rightarrow> world \<Rightarrow> bytes result \<times> segmentFileCache option \<times> world" where
  "readSegmentFile target files w =
     (case acquireSegmentFile target files w of
        (Inl e, files, w) \<Rightarrow> (Inl e, files, w)
      | (Inr _, files, w) \<Rightarrow>
          (case readFile (sgPath target) (sgSize target) w of
             (r, w) \<Rightarrow>
               (case releaseSegmentFile target files w of (files, w) \<Rightarrow> (r, files, w))))"

text \<open>The position from which a scan for an offset starts, from the sparse offset index.\<close>

fun hintPosition :: "offsetIndexEntry list \<Rightarrow> uint64 \<Rightarrow> nat \<Rightarrow> nat" where
  "hintPosition [] offset position = position"
| "hintPosition (h # hs) offset position =
     (if oiBase h > offset then position else hintPosition hs offset (unat (oiPosition h)))"

definition index_entries :: "'a list option \<Rightarrow> 'a list" where
  "index_entries i = (case i of None \<Rightarrow> [] | Some es \<Rightarrow> es)"

text \<open>Collecting records; the flag tells that the limit was reached and the read returns.\<close>

fun collectRecords :: "uint64 \<Rightarrow> uint32 \<Rightarrow> Record list \<Rightarrow> Record list \<Rightarrow> Record list \<times> bool" where
  "collectRecords offset maxRecords [] result = (result, False)"
| "collectRecords offset maxRecords (r # rs) result =
     (if rOffset r < offset then collectRecords offset maxRecords rs result
      else if of_nat (length result) \<ge> maxRecords then (result, True)
      else collectRecords offset maxRecords rs (result @ [r]))"

function readLoop ::
  "TopicID \<Rightarrow> uint32 \<Rightarrow> uint64 \<Rightarrow> uint32 \<Rightarrow> bytes \<Rightarrow> nat \<Rightarrow> Record list \<Rightarrow> (Record list \<times> bool) result"
  where
  "readLoop topic part offset maxRecords data position result =
     (if \<not> position < length data then Inr (result, False)
      else if length data - position < unat BatchHeaderBytes then Inl (corrupt ErrInvalidBatch)
      else
        let batchLength = Uint32 (slice (position + 8) (position + 12) data)
        in if batchLength < ucast BatchHeaderBytes + of_nat BatchTrailerBytes
              \<or> unat batchLength > length data - position
           then Inl (corrupt ErrInvalidBatch)
           else
             case DecodeBatch (slice position (position + unat batchLength) data) topic part of
               Inl e \<Rightarrow> Inl e
             | Inr b \<Rightarrow>
                 (case collectRecords offset maxRecords (bRecords b) result of
                    (result, True) \<Rightarrow> Inr (result, True)
                  | (result, False) \<Rightarrow>
                      readLoop topic part offset maxRecords data (position + unat batchLength) result))"
  by pat_completeness auto
termination
  by (relation "measure (\<lambda>(topic, part, offset, maxRecords, data, position, _). length data - position)")
    (auto simp: word_less_nat_alt)

declare readLoop.simps [simp del]

fun readSegments ::
  "TopicID \<Rightarrow> uint32 \<Rightarrow> uint64 \<Rightarrow> uint32 \<Rightarrow> segment list \<Rightarrow> Record list
     \<Rightarrow> segmentFileCache option \<Rightarrow> world \<Rightarrow> Record list result \<times> segmentFileCache option \<times> world" where
  "readSegments topic part offset maxRecords [] result files w = (Inr result, files, w)"
| "readSegments topic part offset maxRecords (s # ss) result files w =
     (if offset \<ge> sgEnd s then readSegments topic part offset maxRecords ss result files w
      else
        case readSegmentFile s files w of
          (Inl e, files, w) \<Rightarrow> (Inl (errorf e), files, w)
        | (Inr data, files, w) \<Rightarrow>
            (case readLoop topic part offset maxRecords data
                    (hintPosition (index_entries (sgOffsetIndex s)) offset (unat SegmentHeaderBytes))
                    result of
               Inl e \<Rightarrow> (Inl e, files, w)
             | Inr (result, True) \<Rightarrow> (Inr result, files, w)
             | Inr (result, False) \<Rightarrow>
                 readSegments topic part offset maxRecords ss result files w))"

definition Read ::
  "uint64 \<Rightarrow> uint32 \<Rightarrow> Partition \<Rightarrow> segmentFileCache option \<Rightarrow> world
     \<Rightarrow> Record list result \<times> segmentFileCache option \<times> world" where
  "Read offset maxRecords p files w =
     (if pClosed p then (Inl [ErrClosed], files, w)
      else if pClosing p then (Inl [ErrClosing], files, w)
      else if pUnavailable p then (Inl [ErrPartitionUnavailable], files, w)
      else if pSegments p = [] \<or> offset < sBaseOffset (sgHeader (hd (pSegments p)))
      then (Inl [ErrOffsetOutOfRange], files, w)
      else if offset > pLogEnd p then (Inl [ErrOffsetOutOfRange], files, w)
      else if offset = pLogEnd p then (Inr [], files, w)
      else
        let maxRecords = (if maxRecords = 0 then MaxBatchRecords else maxRecords)
        in readSegments (pTopic p) (pPartition p) offset maxRecords (pSegments p) [] files w)"

end
