(* ===== verification/Recovery.thy ===== *)
theory Recovery
  imports Partition
begin

text \<open>
  Recovery of a segment. A segment file is its header and the encodings of its batches; a chunk is
  such an encoding with the batch it decodes to. The lemmas follow the scan of \<open>recoverSegment\<close> over
  the chunks and what it does with an incomplete batch at the end of the file.
\<close>

section \<open>Chunks\<close>

type_synonym chunk = "bytes \<times> RecordBatch"

lemma DecodeBatch_facts:
  assumes "DecodeBatch c t p = Inr b"
  shows "Uint32 (slice 8 12 c) = of_nat (length c)" and "80 \<le> length c" and "length c \<le> 67108864"
    and "bRecords b \<noteq> []" and "length (bRecords b) \<le> 65536"
    and "unat (bBaseOffset b) + length (bRecords b) \<le> unat maxOffset"
    and "Uint64 (slice 24 32 c) = max_timestamp MinInt64 (bRecords b)"
    and "encodable_batch b" and "bTopic b = t" and "bPartition b = p"
proof -
  obtain pads where e: "encodable_batch b" "bTopic b = t" "bPartition b = p"
    and pads: "pads_for pads (bRecords b)" and c: "c = batch_bytes pads b"
    using assms by (auto simp: DecodeBatch_Inr_iff)
  have l: "length c = 52 + records_length (bRecords b)" using c pads by (simp add: length_batch_bytes)
  show "Uint32 (slice 8 12 c) = of_nat (length c)"
    unfolding c slice_batch_bytes [of 12, simplified] batch_header_slices
    using l by (simp add: c)
  show "Uint64 (slice 24 32 c) = max_timestamp MinInt64 (bRecords b)"
    unfolding c slice_batch_bytes [of 32, simplified] batch_header_slices by simp
  show "bRecords b \<noteq> []" "length (bRecords b) \<le> 65536"
    "unat (bBaseOffset b) + length (bRecords b) \<le> unat maxOffset"
    using e by (auto simp: encodable_batch_def)
  then have "28 \<le> records_length (bRecords b)"
    using records_length_ge [of "bRecords b"] by (cases "bRecords b") auto
  then show "80 \<le> length c" using l by simp
  show "length c \<le> 67108864" using e l by (simp add: encodable_batch_def)
qed (use assms in \<open>auto simp: DecodeBatch_Inr_iff\<close>)

fun chunks_ok :: "TopicID \<Rightarrow> uint32 \<Rightarrow> uint64 \<Rightarrow> chunk list \<Rightarrow> bool" where
  "chunks_ok t p off [] = True"
| "chunks_ok t p off ((c, b) # cs) \<longleftrightarrow>
     DecodeBatch c t p = Inr b \<and> bBaseOffset b = off
     \<and> chunks_ok t p (off + of_nat (length (bRecords b))) cs"

definition chunk_records :: "chunk list \<Rightarrow> Record list" where
  "chunk_records cs = concat (map (bRecords \<circ> snd) cs)"

definition chunk_bytes :: "chunk list \<Rightarrow> bytes" where
  "chunk_bytes cs = concat (map fst cs)"

lemma chunk_simps [simp]:
  "chunk_records [] = []" "chunk_records (c # cs) = bRecords (snd c) @ chunk_records cs"
  "chunk_records (cs @ ds) = chunk_records cs @ chunk_records ds"
  "chunk_bytes [] = []" "chunk_bytes (c # cs) = fst c @ chunk_bytes cs"
  "chunk_bytes (cs @ ds) = chunk_bytes cs @ chunk_bytes ds"
  by (simp_all add: chunk_records_def chunk_bytes_def)

lemma chunks_ok_append:
  "chunks_ok t p off (cs @ ds) \<longleftrightarrow>
     chunks_ok t p off cs \<and> chunks_ok t p (off + of_nat (length (chunk_records cs))) ds"
  by (induction t p off cs rule: chunks_ok.induct) (auto simp: add.assoc)

text \<open>The offsets of a sequence of chunks do not pass the largest offset.\<close>

lemma chunks_ok_end:
  "chunks_ok t p off cs \<Longrightarrow> cs \<noteq> [] \<Longrightarrow>
     unat off + length (chunk_records cs) \<le> unat maxOffset
     \<and> unat (off + of_nat (length (chunk_records cs))) = unat off + length (chunk_records cs)"
proof (induction t p off cs rule: chunks_ok.induct)
  case (2 t p off c b cs)
  have n: "unat off + length (bRecords b) \<le> unat maxOffset"
    using "2.prems" DecodeBatch_facts(6) [of c t p b] by auto
  then have u: "unat (off + of_nat (length (bRecords b))) = unat off + length (bRecords b)"
    using unat_uint64_less [of off] by (simp add: unat_word_ariths)
  show ?case
  proof (cases "cs = []")
    case True
    then show ?thesis using n u by simp
  next
    case False
    then show ?thesis using "2.IH" "2.prems" u by (simp add: add.assoc)
  qed
qed simp

text \<open>One step of the scan, over a chunk.\<close>

definition scan_chunk :: "chunk \<Rightarrow> scanState \<Rightarrow> scanState" where
  "scan_chunk x st = (case x of (c, b) \<Rightarrow>
     \<lparr>scCurrent = scCurrent st + of_nat (length (bRecords b)),
      scPosition = scPosition st + length c,
      scRecords = scRecords st + of_nat (length (bRecords b)),
      scMaxTime = max_timestamp (scMaxTime st) (bRecords b),
      scBatches = scBatches st @
        [\<lparr>biBase = bBaseOffset b, biPosition = scPosition st, biBytes = of_nat (length c),
          biRecords = of_nat (length (bRecords b)), biMaxTime = Uint64 (slice 24 32 c)\<rparr>]\<rparr>)"

lemma slice_middle:
  "lo \<le> hi \<Longrightarrow> hi \<le> length c \<Longrightarrow> n = length pre \<Longrightarrow> slice (n + lo) (n + hi) (pre @ c @ rest) = slice lo hi c"
  by (simp add: slice_append_right slice_append_left)

lemma scanBatches_chunk:
  assumes "data = pre @ c @ rest" and "scPosition st = length pre"
    and dec: "DecodeBatch c t p = Inr b" and "bBaseOffset b = scCurrent st"
  shows "scanBatches t p final data st = scanBatches t p final data (scan_chunk (c, b) st)"
proof -
  note f = DecodeBatch_facts [OF dec]
  have l: "Uint32 (slice (scPosition st + 8) (scPosition st + 12) data) = of_nat (length c)"
    using f(1,2) assms(1,2) slice_middle [of 8 12 c _ pre rest] by simp
  have u: "unat (of_nat (length c) :: uint32) = length c" using f(3) by simp
  have s: "slice (scPosition st) (scPosition st + length c) data = c"
    using assms(1,2) slice_middle [of 0 "length c" c _ pre rest] by simp
  have m: "slice (scPosition st + 24) (scPosition st + 32) data = slice 24 32 c"
    using f(2) assms(1,2) slice_middle [of 24 32 c _ pre rest] by simp
  have n: "\<not> (of_nat (length c) :: uint32) < 52" using f(2) u by (simp add: word_less_nat_alt)
  have "scanBatch data (of_nat (length c)) b st = scan_chunk (c, b) st"
    using u m by (simp add: scanBatch_def scan_chunk_def max_timestamp_def)
  then show ?thesis
    using f(2) assms l u s dec n
    by (subst scanBatches.simps) (auto simp: Let_def)
qed

lemma scanBatches_chunks:
  assumes "data = pre @ chunk_bytes cs @ rest" and "scPosition st = length pre"
    and "chunks_ok t p (scCurrent st) cs"
  shows "scanBatches t p final data st = scanBatches t p final data (fold scan_chunk cs st)
    \<and> scPosition (fold scan_chunk cs st) = length pre + length (chunk_bytes cs)"
  using assms
proof (induction cs arbitrary: pre st)
  case (Cons x cs)
  obtain c b where x: "x = (c, b)" by (cases x)
  have "scanBatches t p final data st = scanBatches t p final data (scan_chunk (c, b) st)"
    using Cons.prems x by (intro scanBatches_chunk [of data pre c "chunk_bytes cs @ rest"]) auto
  moreover have "scanBatches t p final data (scan_chunk (c, b) st)
      = scanBatches t p final data (fold scan_chunk cs (scan_chunk (c, b) st))
      \<and> scPosition (fold scan_chunk cs (scan_chunk (c, b) st)) = length (pre @ c) + length (chunk_bytes cs)"
    using Cons.prems x by (intro Cons.IH) (auto simp: scan_chunk_def)
  ultimately show ?case using x by simp
qed simp

lemma fold_scan_current:
  "scCurrent (fold scan_chunk cs st) = scCurrent st + of_nat (length (chunk_records cs))"
  by (induction cs arbitrary: st) (auto simp: scan_chunk_def add.assoc)

lemma fold_scan_records:
  "scRecords (fold scan_chunk cs st) = scRecords st + of_nat (length (chunk_records cs))"
  by (induction cs arbitrary: st) (auto simp: scan_chunk_def add.assoc)

lemma fold_scan_position:
  "scPosition (fold scan_chunk cs st) = scPosition st + length (chunk_bytes cs)"
  by (induction cs arbitrary: st) (auto simp: scan_chunk_def)

section \<open>The end of the scan\<close>

lemma scanBatches_end: "length data \<le> scPosition st \<Longrightarrow> scanBatches t p final data st = Inr (False, st)"
  by (simp add: scanBatches.simps)

text \<open>Fewer bytes than a batch header at the end of the file are corruption.\<close>

lemma scanBatches_partial_header:
  assumes "scPosition st < length data" and "length data - scPosition st < 48"
  shows "scanBatches t p final data st = Inl (corrupt ErrInvalidBatch)"
  using assms by (subst scanBatches.simps) simp

lemma torn_header_slices:
  assumes e: "encodable_batch b" and "48 \<le> k" and "k < length (batch_bytes pads b)"
    and pads: "pads_for pads (bRecords b)"
  defines "d \<equiv> take k (batch_bytes pads b)"
  shows "slice 0 44 d = batch_header b" and "slice 44 48 d = PutUint32 (CRC32C (batch_header b))"
    and "hi \<le> 44 \<Longrightarrow> slice lo hi d = slice lo hi (batch_header b)"
proof -
  have t: "slice lo hi d = slice lo hi (batch_bytes pads b)" if "hi \<le> 48" for lo hi
    using that assms(2) by (simp add: d_def slice_def drop_take min_def)
  show "slice 0 44 d = batch_header b"
    using t [of 44 0] by (simp add: batch_bytes_def batch_covered_def slice_append_first)
  show "slice 44 48 d = PutUint32 (CRC32C (batch_header b))"
    using t [of 48 44] by (simp add: batch_bytes_def batch_covered_def field_slices)
  show "hi \<le> 44 \<Longrightarrow> slice lo hi d = slice lo hi (batch_header b)"
    using t [of hi lo] by (simp add: slice_batch_bytes)
qed

lemma canTruncateTail_torn:
  assumes dec: "DecodeBatch c t p = Inr b" and "48 \<le> k" and "k < length c"
  shows "canTruncateTail (take k c) (bBaseOffset b)"
proof -
  note f = DecodeBatch_facts [OF dec]
  obtain pads where e: "encodable_batch b" and pads: "pads_for pads (bRecords b)"
    and c: "c = batch_bytes pads b" using dec by (auto simp: DecodeBatch_Inr_iff)
  have k: "k < length (batch_bytes pads b)" using assms(3) c by simp
  note s = torn_header_slices [OF e assms(2) k pads]
  have l: "length c = 52 + records_length (bRecords b)" using c pads by (simp add: length_batch_bytes)
  have n: "validOffsetRange (bBaseOffset b) (of_nat (length (bRecords b)))"
    using e by (simp add: encodable_batch_def validOffsetRange_unat)
  have r: "records_length (bRecords b) \<le> 67108812" "28 \<le> records_length (bRecords b)"
    using f(2,3) l by auto
  have "(80 :: uint32) \<le> of_nat (52 + records_length (bRecords b))"
    "of_nat (52 + records_length (bRecords b)) \<le> (67108864 :: uint32)"
    using r by (simp_all add: word_le_nat_alt del: of_nat_add)
  moreover have "0 < (of_nat (length (bRecords b)) :: uint32)" "of_nat (length (bRecords b)) \<le> (65536 :: uint32)"
    using f(4,5) by (simp_all add: word_less_nat_alt word_le_nat_alt)
  moreover have "(of_nat k :: uint64) < ucast (of_nat (52 + records_length (bRecords b)) :: uint32)"
    using assms(3) l r by (simp add: word_less_nat_alt del: of_nat_add)
  ultimately show ?thesis
    unfolding canTruncateTail_def c
    using assms(2,3) c n
    by (simp add: s batch_header_slices Let_def del: of_nat_add)
qed

lemma scanBatches_torn:
  assumes "data = pre @ take k c" and "scPosition st = length pre"
    and dec: "DecodeBatch c t p = Inr b" and "bBaseOffset b = scCurrent st"
    and "48 \<le> k" and "k < length c"
  shows "scanBatches t p final data st = (if final then Inr (True, st) else Inl (corrupt ErrInvalidBatch))"
proof -
  note f = DecodeBatch_facts [OF dec]
  have "slice 8 12 (take k c) = slice 8 12 c"
    using assms(5) by (simp add: slice_def drop_take min_absorb1)
  then have l: "Uint32 (slice (scPosition st + 8) (scPosition st + 12) data) = of_nat (length c)"
    using f(1,2) assms(1,2,5) slice_middle [of 8 12 "take k c" _ pre "[]"] by simp
  have u: "unat (of_nat (length c) :: uint32) = length c" using f(3) by simp
  have "canTruncateTail (drop (scPosition st) data) (scCurrent st)"
    using canTruncateTail_torn [OF dec assms(5,6)] assms(1,2,4) by simp
  then show ?thesis
    using assms l u by (subst scanBatches.simps) (simp add: Let_def)
qed

section \<open>Recovered segments\<close>

definition segment_prefix :: "SegmentHeader \<Rightarrow> bytes" where
  "segment_prefix h = header_fields h @ PutUint32 (CRC32C (header_fields h))"

definition segment_image :: "SegmentHeader \<Rightarrow> chunk list \<Rightarrow> bytes" where
  "segment_image h cs = segment_prefix h @ chunk_bytes cs"

definition scan_start :: "SegmentHeader \<Rightarrow> scanState" where
  "scan_start h = \<lparr>scCurrent = sBaseOffset h, scPosition = 72, scRecords = 0, scMaxTime = MinInt64,
     scBatches = []\<rparr>"

definition recovered_segment :: "path \<Rightarrow> SegmentHeader \<Rightarrow> chunk list \<Rightarrow> segment" where
  "recovered_segment path h cs =
     (let st = fold scan_chunk cs (scan_start h)
      in \<lparr>sgPath = path, sgOpen = True, sgHeader = h, sgEnd = scCurrent st, sgSize = scPosition st,
          sgRecords = scRecords st, sgMaxTime = scMaxTime st,
          sgHeaderHash = segmentHeaderHash (segment_prefix h), sgBatches = scBatches st,
          sgOffsetIndex = None, sgTimeIndex = None, sgIndexDirty = False\<rparr>)"

lemma length_segment_prefix [simp]: "length (segment_prefix h) = 72"
  by (simp add: segment_prefix_def)

lemma length_segment_image [simp]: "length (segment_image h cs) = 72 + length (chunk_bytes cs)"
  by (simp add: segment_image_def)

lemma EncodeSegmentHeader_prefix: "valid_header h \<Longrightarrow> EncodeSegmentHeader h = Inr (segment_prefix h)"
  by (simp add: EncodeSegmentHeader_fields segment_prefix_def)

lemma DecodeSegmentHeader_prefix:
  "length d = 72 \<Longrightarrow> DecodeSegmentHeader d t p = Inr h \<longleftrightarrow>
     d = segment_prefix h \<and> valid_header h \<and> sPartition h = p \<and> (t = 0 \<or> sTopic h = t)"
  using DecodeSegmentHeader_Encode [of d t p h] DecodeSegmentHeader_valid [of d t p h]
    DecodeSegmentHeader_fields [of h t "[]"] length_EncodeSegmentHeader
  by (auto simp: EncodeSegmentHeader_fields segment_prefix_def split: if_splits)

text \<open>A segment can be opened under its own name for its own partition.\<close>

definition segment_fits :: "path \<Rightarrow> TopicID \<Rightarrow> uint32 \<Rightarrow> SegmentHeader \<Rightarrow> bool" where
  "segment_fits path t p h \<longleftrightarrow>
     valid_header h \<and> sTopic h = t \<and> sPartition h = p \<and> path_base path = segment_name (sBaseOffset h)"

lemma slice_segment_image: "slice 0 72 (segment_image h cs @ r) = segment_prefix h"
  by (simp add: segment_image_def slice_append_first)

lemma scan_image:
  assumes "chunks_ok t p (sBaseOffset h) cs"
  shows "scanBatches t p final (segment_image h cs @ r) (scan_start h) =
           scanBatches t p final (segment_image h cs @ r) (fold scan_chunk cs (scan_start h))"
    and "scPosition (fold scan_chunk cs (scan_start h)) = length (segment_image h cs)"
  using scanBatches_chunks [of "segment_image h cs @ r" "segment_prefix h" cs r "scan_start h" t p final] assms
  by (simp_all add: segment_image_def scan_start_def)

text \<open>The steps of \<open>recoverSegment\<close> up to the scan, on a file system without failures.\<close>

lemma recoverSegment_quiet:
  assumes "content w path = Some data" and "wFaults w = []" and "segment_fits path t p h"
    and "data = segment_prefix h @ rest"
  shows "recoverSegment path t p final (sBaseOffset h) w =
    (case scanBatches t p final data (scan_start h) of
       Inl e \<Rightarrow> (Inl e, w)
     | Inr (torn, st) \<Rightarrow>
         let w' = (if torn then put_file path (take (scPosition st) data) w else w);
             data' = (if torn then take (scPosition st) data else data)
         in if \<not> final \<and> scRecords st = 0 then (Inl (corrupt ErrInvalidSegment), w')
            else (Inr (\<lparr>sgPath = path, sgOpen = True, sgHeader = h, sgEnd = scCurrent st,
                        sgSize = length data', sgRecords = scRecords st, sgMaxTime = scMaxTime st,
                        sgHeaderHash = segmentHeaderHash (slice 0 72 data'), sgBatches = scBatches st,
                        sgOffsetIndex = None, sgTimeIndex = None, sgIndexDirty = False\<rparr>,
                      scCurrent st), w'))"
proof -
  have o: "fsOpen path w = (Inr (), w)" using assms(1,2) by (simp add: fsOpen_def)
  have s: "fsStat path w = (Inr (length data), w)" using assms(1,2) by (simp add: fsStat_def)
  have r: "readFile path (length data) w = (Inr data, w)"
    using assms(1,2) by (simp add: readFile_def fileReadAt_def slice_all)
  have c: "fileClose path v = (Inr (), v)" if "wFaults v = []" for v
    using that by (simp add: effect_defs fileEffect_quiet)
  have y: "fileSync path v = (Inr (), v)" if "wFaults v = []" for v
    using that by (simp add: effect_defs fileEffect_quiet)
  have tr: "fileTruncate path n w = (Inr (), put_file path (take n data) w)" for n
    using assms(1,2) by (simp add: fileTruncate_def)
  have sl: "slice 0 72 data = segment_prefix h" using assms(4) by (simp add: slice_append_first)
  have h: "DecodeSegmentHeader (segment_prefix h) t p = Inr h"
    using assms(3) by (simp add: DecodeSegmentHeader_prefix segment_fits_def)
  have nm: "path_base path = segment_name (sBaseOffset h)" using assms(3) by (simp add: segment_fits_def)
  have n: "\<not> length data < 72" using assms(4) by simp
  have st: "\<lparr>scCurrent = sBaseOffset h, scPosition = 72, scRecords = 0,
      scMaxTime = 0x8000000000000000, scBatches = []\<rparr> = scan_start h" by (simp add: scan_start_def)
  show ?thesis
  proof (cases "scanBatches t p final data (scan_start h)")
    case (Inl e)
    then show ?thesis unfolding recoverSegment_def Let_def o s r prod.case sum.case
      using n nm assms(2) by (simp add: sl h c st)
  next
    case (Inr x)
    obtain torn q where x: "x = (torn, q)" by (cases x)
    show ?thesis
    proof (cases torn)
      case True
      then show ?thesis using Inr x unfolding recoverSegment_def Let_def o s r prod.case sum.case
        using n nm assms(2) by (simp add: sl h c y tr st)
    next
      case False
      then show ?thesis using Inr x unfolding recoverSegment_def Let_def o s r prod.case sum.case
        using n nm assms(2) by (simp add: sl h c st)
    qed
  qed
qed

lemma scanBatches_sound:
  "scanBatches t p final data st = Inr (torn, st') \<Longrightarrow>
     \<exists>cs rest. drop (scPosition st) data = chunk_bytes cs @ rest \<and> chunks_ok t p (scCurrent st) cs
       \<and> st' = fold scan_chunk cs st \<and> (if torn then final else rest = [])"
proof (induction t p final data st rule: scanBatches.induct)
  case (1 t p final data st)
  let ?pos = "scPosition st"
  let ?n = "Uint32 (slice (?pos + 8) (?pos + 12) data)"
  let ?c = "slice ?pos (?pos + unat ?n) data"
  show ?case
  proof (cases "?pos < length data")
    case False
    then show ?thesis using "1.prems"
      by (intro exI [of _ "[]"]) (auto simp: scanBatches.simps [of t p final data st])
  next
    case True
    then have rem: "\<not> length data - ?pos < 48"
      using "1.prems" by (auto simp: scanBatches.simps [of t p final data st] Let_def split: if_splits)
    show ?thesis
    proof (cases "unat ?n > length data - ?pos")
      case torn: True
      then have "final" "torn" "st' = st"
        using "1.prems" True rem by (auto simp: scanBatches.simps [of t p final data st] Let_def split: if_splits)
      then show ?thesis by (intro exI [of _ "[]"] exI [of _ "drop ?pos data"]) auto
    next
      case False
      obtain b where n: "\<not> (?n < 52 \<or> ?pos + unat ?n > length data)"
        and dec: "DecodeBatch ?c t p = Inr b" and base: "bBaseOffset b = scCurrent st"
        and run: "scanBatches t p final data (scanBatch data ?n b st) = Inr (torn, st')"
        using "1.prems" True rem False
        by (auto simp: scanBatches.simps [of t p final data st] Let_def split: if_splits sum.splits)
      have len: "length ?c = unat ?n" using n by (auto simp: min_def)
      have m: "slice (?pos + 24) (?pos + 32) data = slice 24 32 ?c"
        using n DecodeBatch_facts(2) [OF dec] len by (subst slice_slice) auto
      have step: "scanBatch data ?n b st = scan_chunk (?c, b) st"
        using len m by (simp add: scanBatch_def scan_chunk_def max_timestamp_def)
      have IH: "\<exists>cs rest. drop (scPosition (scan_chunk (?c, b) st)) data = chunk_bytes cs @ rest
          \<and> chunks_ok t p (scCurrent (scan_chunk (?c, b) st)) cs
          \<and> st' = fold scan_chunk cs (scan_chunk (?c, b) st) \<and> (if torn then final else rest = [])"
        using "1.IH" [OF refl _ refl _ refl _ _ dec _ run] True rem False n base unfolding step by simp
      then obtain cs rest where cs: "drop (?pos + unat ?n) data = chunk_bytes cs @ rest"
        "chunks_ok t p (scCurrent st + of_nat (length (bRecords b))) cs"
        "st' = fold scan_chunk cs (scan_chunk (?c, b) st)" "if torn then final else rest = []"
        using len by (auto simp: scan_chunk_def)
      have "drop ?pos data = chunk_bytes ((?c, b) # cs) @ rest"
        using cs(1) drop_eq_slice_append [of ?pos "?pos + unat ?n" data] by simp
      moreover have "chunks_ok t p (scCurrent st) ((?c, b) # cs)" using dec base cs(2) by simp
      moreover have "st' = fold scan_chunk ((?c, b) # cs) st" using cs(3) by simp
      ultimately show ?thesis using cs(4) by blast
    qed
  qed
qed

lemma take_full: "take k xs = ys \<Longrightarrow> length xs \<le> length ys \<Longrightarrow> ys = xs"
  by auto

lemma readFile_Inr:
  assumes "readFile path n w = (Inr data, w')" and "content w path = Some d"
  shows "data = slice 0 n d \<and> length data = n \<and> (\<forall>q. content w' q = content w q)"
proof -
  obtain r where r: "fileReadAt path n 0 w = (r, w')"
    using assms(1) by (auto simp: readFile_def split: prod.splits if_splits)
  then have "content w' q = content w q" for q by (rule fileReadAt_content)
  moreover have "data = slice 0 n d" "length data = n"
    using assms by (auto simp: readFile_def fileReadAt_def Let_def dest: take_full
        split: prod.splits if_splits outcome.splits)
  ultimately show ?thesis by simp
qed

lemma recovered_segment_eq:
  assumes "chunks_ok t p (sBaseOffset h) cs" and "st = fold scan_chunk cs (scan_start h)"
    and "n = length (segment_image h cs)" and "d = segment_image h cs @ r"
  shows "\<lparr>sgPath = path, sgOpen = True, sgHeader = h, sgEnd = scCurrent st, sgSize = n,
      sgRecords = scRecords st, sgMaxTime = scMaxTime st, sgHeaderHash = segmentHeaderHash (slice 0 72 d),
      sgBatches = scBatches st, sgOffsetIndex = None, sgTimeIndex = None, sgIndexDirty = False\<rparr>
    = recovered_segment path h cs"
  using assms scan_image(2) [OF assms(1)]
  by (simp add: recovered_segment_def slice_segment_image Let_def)

text \<open>The error cases of \<open>recoverSegment\<close> only close the file.\<close>

lemma recoverSegment_Inr:
  assumes "recoverSegment path t p final expected w = (Inr (sg, next), w')"
  shows "\<exists>h cs rest. content w path = Some (segment_image h cs @ rest)
    \<and> valid_header h \<and> sPartition h = p \<and> (t = 0 \<or> sTopic h = t) \<and> sBaseOffset h = expected
    \<and> path_base path = segment_name expected \<and> chunks_ok t p expected cs
    \<and> sg = recovered_segment path h cs \<and> next = sgEnd sg
    \<and> (rest \<noteq> [] \<longrightarrow> final) \<and> (final \<or> scRecords (fold scan_chunk cs (scan_start h)) \<noteq> 0)
    \<and> content w' path = Some (segment_image h cs)
    \<and> (\<forall>q. q \<noteq> path \<longrightarrow> content w' q = content w q)"
proof -
  obtain w1 where op: "fsOpen path w = (Inr (), w1)"
    using assms by (auto simp: recoverSegment_def Let_def split: prod.splits sum.splits)
  have c1: "content w1 q = content w q" for q using op by (rule fsOpen_content)
  obtain n w2 where stt: "fsStat path w1 = (Inr n, w2)" and n: "\<not> n < 72"
    using assms op by (auto simp: recoverSegment_def Let_def split: prod.splits sum.splits if_splits)
  obtain d where d: "content w1 path = Some d" "n = length d"
    using stt by (auto simp: fsStat_def content_next_outcome split: prod.splits outcome.splits option.splits)
  have c2: "content w2 q = content w q" for q using fsStat_content [OF stt] c1 by simp
  obtain data w3 where rd: "readFile path n w2 = (Inr data, w3)"
    using assms op stt n by (auto simp: recoverSegment_def Let_def split: prod.splits sum.splits)
  then have data: "data = d" and c3: "content w3 q = content w q" for q
    using readFile_Inr [OF rd, of d] c2 c1 d by (auto simp: slice_all)
  obtain h where h: "DecodeSegmentHeader (slice 0 72 data) t p = Inr h"
    and nm: "path_base path = segment_name (sBaseOffset h)" "sBaseOffset h = expected"
    using assms op stt n rd
    by (auto simp: recoverSegment_def Let_def split: prod.splits sum.splits if_splits)
  have l: "72 \<le> length data" using n d data by simp
  then have hp: "slice 0 72 data = segment_prefix h" "valid_header h" "sPartition h = p" "t = 0 \<or> sTopic h = t"
    using h by (auto simp: DecodeSegmentHeader_prefix)
  have st: "\<lparr>scCurrent = expected, scPosition = 72, scRecords = 0,
      scMaxTime = 0x8000000000000000, scBatches = []\<rparr> = scan_start h"
    using nm by (simp add: scan_start_def)
  obtain torn st' where sc: "scanBatches t p final data (scan_start h) = Inr (torn, st')"
    using assms op stt n rd h nm
    by (auto simp: recoverSegment_def Let_def st split: prod.splits sum.splits if_splits)
  obtain cs rest where cs: "drop 72 data = chunk_bytes cs @ rest" "chunks_ok t p expected cs"
    "st' = fold scan_chunk cs (scan_start h)" "if torn then final else rest = []"
    using scanBatches_sound [OF sc] nm by (auto simp: scan_start_def)
  have image: "data = segment_image h cs @ rest"
    using list_split_at [OF l] hp(1) cs(1) by (simp add: segment_image_def)
  have pos: "scPosition st' = length (segment_image h cs)"
    using scan_image(2) [of t p h cs] cs nm by simp
  have seg: "sg = recovered_segment path h cs \<and> next = scCurrent st' \<and> (final \<or> scRecords st' \<noteq> 0)
    \<and> content w' path = Some (segment_image h cs) \<and> (\<forall>q. q \<noteq> path \<longrightarrow> content w' q = content w q)"
  proof (cases torn)
    case False
    then have "data = segment_image h cs" using image cs(4) by simp
    then show ?thesis
      using assms op stt n rd h nm sc False c3 d c1 data cs(2,3)
        recovered_segment_eq [OF _ cs(3), of t p "length (segment_image h cs)" data "[]" path]
      by (auto simp: recoverSegment_def Let_def st split: if_splits)
  next
    case True
    let ?d = "take (scPosition st') data"
    have td: "?d = segment_image h cs" using image pos by simp
    obtain w4 where tr: "fileTruncate path (scPosition st') w3 = (Inr (), w4)"
      using assms op stt n rd h nm sc True
      by (auto simp: recoverSegment_def Let_def st split: prod.splits sum.splits)
    then have c4: "content w4 path = Some ?d" "q \<noteq> path \<Longrightarrow> content w4 q = content w q" for q
      using fileTruncate_done [OF tr] fileTruncate_other [OF tr, of q] c3 c1 d data by auto
    obtain w5 where sy: "fileSync path w4 = (Inr (), w5)"
      using assms op stt n rd h nm sc True tr
      by (auto simp: recoverSegment_def Let_def st split: prod.splits sum.splits)
    have "sg = recovered_segment path h cs \<and> next = scCurrent st' \<and> (final \<or> scRecords st' \<noteq> 0) \<and> w' = w5"
      using assms op stt n rd h nm sc True tr sy cs(2,3) td
        recovered_segment_eq [OF _ cs(3), of t p "length ?d" ?d "[]" path]
      by (auto simp: recoverSegment_def Let_def st split: if_splits)
    then show ?thesis using c4 td effect_content(1) [OF sy] by auto
  qed
  have "next = sgEnd sg" using seg cs(3) by (simp add: recovered_segment_def Let_def)
  moreover have "content w path = Some (segment_image h cs @ rest)" using image data d c1 by simp
  ultimately show ?thesis
    using hp(2-4) nm cs(2-4) seg by (intro exI [of _ h] exI [of _ cs] exI [of _ rest]) (auto split: if_splits)
qed

section \<open>File names\<close>

lemma set_decimal: "set (decimal k n) \<subseteq> {c. 48 \<le> c \<and> c \<le> 57}"
proof (induction k arbitrary: n)
  case (Suc k)
  have "48 + n mod 10 \<le> 57" by simp
  then have "48 \<le> (of_nat (48 + n mod 10) :: byte)" "(of_nat (48 + n mod 10) :: byte) \<le> 57"
    by (simp_all add: word_le_nat_alt unat_of_nat del: of_nat_add)
  then show ?case using Suc by (simp del: of_nat_add)
qed simp

lemma length_decimal [simp]: "length (decimal k n) = k"
  by (induction k arbitrary: n) auto

lemma segment_name_no_slash: "0x2F \<notin> set (segment_name base)"
  using set_decimal [of 20 "unat base"] by (auto simp: segment_name_def log_suffix_def)

lemma path_base_join: "0x2F \<notin> set name \<Longrightarrow> path_base (path_join dir name) = name"
  by (simp add: path_base_def path_join_def) (subst takeWhile_append2, auto)

lemma path_base_segment [simp]: "path_base (path_join dir (segment_name base)) = segment_name base"
  by (simp add: path_base_join segment_name_no_slash)

section \<open>Properties\<close>

lemma recover_image:
  assumes "segment_fits path t p h" and "chunks_ok t p (sBaseOffset h) cs"
    and "content w path = Some (segment_image h cs)" and "wFaults w = []"
    and "final \<or> scRecords (fold scan_chunk cs (scan_start h)) \<noteq> 0"
  shows "recoverSegment path t p final (sBaseOffset h) w
    = (Inr (recovered_segment path h cs, sgEnd (recovered_segment path h cs)), w)"
proof -
  let ?st = "fold scan_chunk cs (scan_start h)"
  have "scanBatches t p final (segment_image h cs) (scan_start h) = Inr (False, ?st)"
    using scan_image(1) [OF assms(2), of final "[]"] scan_image(2) [OF assms(2)] by (simp add: scanBatches_end)
  moreover have "segment_image h cs = segment_prefix h @ chunk_bytes cs" by (simp add: segment_image_def)
  ultimately show ?thesis
    using recoverSegment_quiet [OF assms(3,4,1), of "chunk_bytes cs" final] assms(5)
      recovered_segment_eq [OF assms(2) refl refl, of "segment_image h cs" "[]" path]
    by (auto simp: recovered_segment_def Let_def)
qed

lemma recover_crash:
  assumes "segment_fits path topic part h"
    and "chunks_ok topic part (sBaseOffset h) (cs @ [(c, b)])" and "k \<le> length c"
    and "content w path = Some (segment_image h cs @ take k c)" and "wFaults w = []"
  shows "recoverSegment path topic part True (sBaseOffset h) w =
    (if k = 0 then
       (Inr (recovered_segment path h cs, sgEnd (recovered_segment path h cs)), w)
     else if k < 48 then (Inl (corrupt ErrInvalidBatch), w)
     else if k < length c then
       (Inr (recovered_segment path h cs, sgEnd (recovered_segment path h cs)),
        put_file path (segment_image h cs) w)
     else (Inr (recovered_segment path h (cs @ [(c, b)]),
                sgEnd (recovered_segment path h (cs @ [(c, b)]))), w))"
proof -
  let ?d = "segment_image h cs @ take k c"
  let ?st = "fold scan_chunk cs (scan_start h)"
  have ok: "chunks_ok topic part (sBaseOffset h) cs" using assms(2) by (simp add: chunks_ok_append)
  have dec: "DecodeBatch c topic part = Inr b" and base: "bBaseOffset b = scCurrent ?st"
    using assms(2) by (simp_all add: chunks_ok_append fold_scan_current scan_start_def)
  have d: "?d = segment_prefix h @ chunk_bytes cs @ take k c" by (simp add: segment_image_def)
  note q = recoverSegment_quiet [OF assms(4,5,1) d, of True]
  note s = scan_image(1) [OF ok, of True "take k c"] scan_image(2) [OF ok]
  consider "k = 0" | "0 < k" "k < 48" | "48 \<le> k" "k < length c" | "k = length c" "k \<noteq> 0"
    using assms(3) by linarith
  then show ?thesis
  proof cases
    case 1
    then show ?thesis using recover_image [OF assms(1) ok _ assms(5), of True] assms(4) by simp
  next
    case 2
    then have "scanBatches topic part True ?d (scan_start h) = Inl (corrupt ErrInvalidBatch)"
      using s scanBatches_partial_header [of ?st ?d topic part True] assms(3) by simp
    then show ?thesis using q 2 by simp
  next
    case 3
    then have "scanBatches topic part True ?d (scan_start h) = Inr (True, ?st)"
      using s scanBatches_torn [OF _ _ dec base, of ?d "segment_image h cs" k True] by simp
    then show ?thesis
      using q 3 s(2) recovered_segment_eq [OF ok refl refl, of "segment_image h cs" "[]" path]
      by (simp add: recovered_segment_def Let_def)
  next
    case 4
    then have "content w path = Some (segment_image h (cs @ [(c, b)]))"
      using assms(4) by (simp add: segment_image_def)
    moreover have "80 \<le> length c" using DecodeBatch_facts(2) [OF dec] .
    ultimately show ?thesis
      using recover_image [OF assms(1,2) _ assms(5), of True] 4 by simp
  qed
qed

text \<open>C15. What a crash during an append leaves behind is recovered exactly: when the file of the last
  segment holds complete batches and the first \<open>k\<close> bytes of the batch that was being written, recovery
  keeps every complete batch and only those. A complete last batch is kept; an incomplete one whose
  header is whole is cut off the file; a fragment shorter than a batch header is reported as
  corruption and the file is left as it is.\<close>

theorem recoverSegment_after_crash:
  assumes "segment_fits path topic part h"
    and "chunks_ok topic part (sBaseOffset h) (cs @ [(c, b)])" and "k \<le> length c"
    and "content w path = Some (segment_image h cs @ take k c)" and "wFaults w = []"
  shows "recoverSegment path topic part True (sBaseOffset h) w =
    (if k = 0 then
       (Inr (recovered_segment path h cs, sgEnd (recovered_segment path h cs)), w)
     else if k < 48 then (Inl (corrupt ErrInvalidBatch), w)
     else if k < length c then
       (Inr (recovered_segment path h cs, sgEnd (recovered_segment path h cs)),
        put_file path (segment_image h cs) w)
     else (Inr (recovered_segment path h (cs @ [(c, b)]),
                sgEnd (recovered_segment path h (cs @ [(c, b)]))), w))"
  using assms by (rule recover_crash)

lemma example_chunk:
  "chunks_ok 7 3 41 [(batch_bytes (zero_pads (bRecords example_batch)) example_batch, example_batch)]"
  using DecodeBatch_batch_bytes [OF encodable_example_batch pads_for_zero_pads]
  by (simp add: example_batch_def)

definition example_header :: SegmentHeader where
  "example_header = \<lparr>sTopic = 7, sPartition = 3, sBaseOffset = 41, sID = 9\<rparr>"

lemma example_header_fits: "segment_fits (path_join dir (segment_name 41)) 7 3 example_header"
  by (simp add: segment_fits_def example_header_def valid_header_def)

theorem recoverSegment_after_crash_witness:
  "\<exists>c. EncodeBatch example_batch = Inr c \<and>
     recoverSegment (path_join [0x64] (segment_name 41)) 7 3 True (sBaseOffset example_header)
       \<lparr>wFiles = [(path_join [0x64] (segment_name 41), segment_image example_header [] @ take 60 c)],
        wFaults = []\<rparr>
     = (Inr (recovered_segment (path_join [0x64] (segment_name 41)) example_header [], 41),
        put_file (path_join [0x64] (segment_name 41)) (segment_image example_header [])
          \<lparr>wFiles = [(path_join [0x64] (segment_name 41), segment_image example_header [] @ take 60 c)],
           wFaults = []\<rparr>)"
proof -
  let ?c = "batch_bytes (zero_pads (bRecords example_batch)) example_batch"
  let ?p = "path_join [0x64] (segment_name 41)"
  let ?w = "\<lparr>wFiles = [(?p, segment_image example_header [] @ take 60 ?c)], wFaults = []\<rparr>"
  have e: "EncodeBatch example_batch = Inr ?c" using encodable_example_batch by (simp add: EncodeBatch_Inr_iff)
  have l: "80 \<le> length ?c"
    using example_chunk DecodeBatch_facts(2) by fastforce
  have "chunks_ok 7 3 (sBaseOffset example_header) ([] @ [(?c, example_batch)])"
    using example_chunk by (simp add: example_header_def)
  moreover have "60 \<le> length ?c" using l by simp
  moreover have "content ?w ?p = Some (segment_image example_header [] @ take 60 ?c)"
    by (simp add: content_def)
  moreover have "sgEnd (recovered_segment ?p example_header []) = 41"
    by (simp add: recovered_segment_def scan_start_def example_header_def)
  ultimately have "recoverSegment ?p 7 3 True (sBaseOffset example_header) ?w
     = (Inr (recovered_segment ?p example_header [], 41), put_file ?p (segment_image example_header []) ?w)"
    using recoverSegment_after_crash [OF example_header_fits, of "[]" ?c example_batch 60 ?w "[0x64]"] l by simp
  with e show ?thesis by blast
qed

text \<open>C16. Recovery never invents or loses a complete batch, under every pattern of I/O failures: when
  it succeeds, the file began with the segment's header and a sequence of batches that decode and
  whose offsets follow on from the expected base without a gap, the recovered segment is the one of
  exactly those batches, the file now holds them and nothing else, and no other file has changed.
  Bytes after them were only cut off in the last segment.\<close>

theorem recoverSegment_sound:
  assumes "recoverSegment path topic part final expected w = (Inr (sg, next), w')"
  shows "\<exists>h cs rest. content w path = Some (segment_image h cs @ rest)
    \<and> sBaseOffset h = expected \<and> chunks_ok topic part expected cs
    \<and> sg = recovered_segment path h cs \<and> next = expected + of_nat (length (chunk_records cs))
    \<and> (rest \<noteq> [] \<longrightarrow> final) \<and> content w' path = Some (segment_image h cs)
    \<and> (\<forall>q. q \<noteq> path \<longrightarrow> content w' q = content w q)"
proof -
  obtain h cs rest where *: "content w path = Some (segment_image h cs @ rest)" "sBaseOffset h = expected"
    "chunks_ok topic part expected cs" "sg = recovered_segment path h cs" "next = sgEnd sg"
    "rest \<noteq> [] \<longrightarrow> final" "content w' path = Some (segment_image h cs)"
    "\<forall>q. q \<noteq> path \<longrightarrow> content w' q = content w q"
    using recoverSegment_Inr [OF assms] by blast
  moreover have "next = expected + of_nat (length (chunk_records cs))"
    using * by (simp add: recovered_segment_def Let_def fold_scan_current scan_start_def)
  ultimately show ?thesis by blast
qed

theorem recoverSegment_sound_witness:
  "\<exists>sg next w'. recoverSegment (path_join [0x64] (segment_name 41)) 7 3 True 41
       \<lparr>wFiles = [(path_join [0x64] (segment_name 41), segment_image example_header [])], wFaults = []\<rparr>
     = (Inr (sg, next), w')
     \<and> content w' (path_join [0x64] (segment_name 41)) = Some (segment_image example_header [])
     \<and> (\<exists>h cs. content w' (path_join [0x64] (segment_name 41)) = Some (segment_image h cs)
          \<and> next = 41 + of_nat (length (chunk_records cs)))"
proof -
  let ?p = "path_join [0x64] (segment_name 41)"
  let ?w = "\<lparr>wFiles = [(?p, segment_image example_header [])], wFaults = []\<rparr>"
  have c: "content ?w ?p = Some (segment_image example_header [])" by (simp add: content_def)
  have b: "sBaseOffset example_header = 41" by (simp add: example_header_def)
  have run: "recoverSegment ?p 7 3 True 41 ?w = (Inr (recovered_segment ?p example_header [],
      sgEnd (recovered_segment ?p example_header [])), ?w)"
    using recover_image [OF example_header_fits, of "[]" ?w "[0x64]" True] c b by simp
  show ?thesis using recoverSegment_sound [OF run] run c by blast
qed

end
