(* ===== verification/Log.thy ===== *)
theory Log
  imports Recovery
begin

text \<open>
  The log of a partition. A partition is seen as the list of the chunks of its segments; its log is
  the concatenation of their records. The theory states what the files and the in-memory segments of
  a partition have to do with the chunks, and shows that an append extends the log by the batch or
  leaves it alone, under every pattern of I/O failures.
\<close>

section \<open>Paths of a partition\<close>

text \<open>Segments, temporary segments and sidecar files are told apart by their last character.\<close>

lemma last_segment_path [simp]: "last (path_join dir (segment_name base)) = 0x67"
  by (simp add: path_join_def segment_name_def log_suffix_def)

lemma last_temporary_path [simp]: "last (path_join dir (temporary_name i)) = 0x70"
  by (simp add: path_join_def temporary_name_def)

lemma last_index_path [simp]: "last (indexPath p time) = 0x78"
  by (simp add: indexPath_def)

lemma path_neq [simp]:
  "path_join dir (segment_name base) \<noteq> path_join dir (temporary_name i)"
  "path_join dir (temporary_name i) \<noteq> path_join dir (segment_name base)"
  "path_join dir (segment_name base) \<noteq> indexPath p time"
  "indexPath p time \<noteq> path_join dir (segment_name base)"
proof -
  have d: "(0x67 :: byte) \<noteq> 0x70" "(0x67 :: byte) \<noteq> 0x78" by simp_all
  show "path_join dir (segment_name base) \<noteq> path_join dir (temporary_name i)"
    "path_join dir (temporary_name i) \<noteq> path_join dir (segment_name base)"
    "path_join dir (segment_name base) \<noteq> indexPath p time"
    "indexPath p time \<noteq> path_join dir (segment_name base)"
    using d by (metis last_segment_path last_temporary_path last_index_path)+
qed

lemma decimal_inject:
  "m < 10 ^ k \<Longrightarrow> n < 10 ^ k \<Longrightarrow> decimal k m = decimal k n \<longleftrightarrow> m = n"
proof (induction k arbitrary: m n)
  case (Suc k)
  have digit: "(of_nat (48 + a mod 10) :: byte) = of_nat (48 + b mod 10) \<longleftrightarrow> a mod 10 = b mod 10" for a b :: nat
  proof -
    have "unat (of_nat (48 + c mod 10) :: byte) = 48 + c mod 10" for c :: nat
    proof -
      have "48 + c mod 10 < 256" using mod_less_divisor [of 10 c] by linarith
      then show ?thesis by (simp add: unat_of_nat del: of_nat_add)
    qed
    then show ?thesis by (metis add_left_cancel)
  qed
  have "m div 10 < 10 ^ k" "n div 10 < 10 ^ k" using Suc.prems by (auto simp: less_mult_imp_div_less)
  then have "decimal (Suc k) m = decimal (Suc k) n \<longleftrightarrow> m div 10 = n div 10 \<and> m mod 10 = n mod 10"
    using Suc.IH digit by (simp del: of_nat_add)
  also have "\<dots> \<longleftrightarrow> m = n" by (metis mult_div_mod_eq)
  finally show ?case .
qed simp

lemma segment_name_inject [simp]: "segment_name a = segment_name b \<longleftrightarrow> a = b"
  using decimal_inject [of "unat a" 20 "unat b"] unat_uint64_less [of a] unat_uint64_less [of b]
  by (simp add: segment_name_def word_unat_eq_iff)

lemma segment_path_inject [simp]:
  "path_join dir (segment_name a) = path_join dir (segment_name b) \<longleftrightarrow> a = b"
  by (simp add: path_join_def)

section \<open>Creating and checkpointing segments\<close>

lemma touches_writeHeader [intro]: "p \<in> S \<Longrightarrow> touches S (writeHeader p d)"
  by (auto simp: touches_def writeHeader_def dest: fileWrite_other split: prod.splits if_splits)

lemma touches_requireAbsent [intro]: "touches S (requireAbsent p)"
  by (auto simp: touches_def requireAbsent_def dest: fsStat_content split: prod.splits sum.splits if_splits)

lemma createSegment_touches:
  "touches {q. q = path_join dir (segment_name base) \<or> last q = 0x70} (createSegment random dir t p base)"
  unfolding createSegment_def Let_def
  by (intro touches_ioThen touches_ioReturn touches_ioWrap touches_ioCleanup touches_reads
      touches_writes touches_rename touches_writeHeader touches_requireAbsent) simp_all

lemma writeHeader_done:
  assumes "writeHeader p d w = (Inr u, w')" and "content w p = Some old"
  shows "content w' p = Some (old @ d)"
proof -
  have "fileWriteAt p d (length old) w = ((length d, []), w')"
    using assms by (auto simp: writeHeader_def fileWrite_def split: prod.splits if_splits)
  then show ?thesis using assms(2) fileWriteAt_full write_at_end by fastforce
qed

text \<open>The header that \<open>createSegment\<close> writes, and the file after it was renamed.\<close>

definition created_header :: "id16 \<Rightarrow> TopicID \<Rightarrow> uint32 \<Rightarrow> uint64 \<Rightarrow> SegmentHeader" where
  "created_header random t p base =
     \<lparr>sTopic = t, sPartition = p, sBaseOffset = base,
      sID = (if IsZero random then bytes_id ((id_bytes random)[15 := 1]) else random)\<rparr>"

lemma created_header_fields [simp]:
  "sTopic (created_header random t p base) = t" "sPartition (created_header random t p base) = p"
  "sBaseOffset (created_header random t p base) = base"
  by (simp_all add: created_header_def)

lemma created_file:
  assumes e: "EncodeSegmentHeader h = Inr encoded" and tf: "t \<noteq> f"
    and 1: "fsCreate t w = (Inr (), w1)" and 2: "writeHeader t encoded w1 = (Inr (), w2)"
    and 3: "fileSync t w2 = (Inr (), w3)" and 4: "fileClose t w3 = (Inr (), w4)"
    and 5: "requireAbsent f w4 = (Inr (), w5)" and 6: "fsRename t f w5 = (Inr (), w6)"
  shows "valid_header h" and "encoded = segment_prefix h" and "content w6 f = Some (segment_image h [])"
proof -
  show "valid_header h" and enc: "encoded = segment_prefix h"
    using e EncodeSegmentHeader_prefix [of h] by (auto simp: EncodeSegmentHeader_fields split: if_splits)
  have "content w2 t = Some encoded" using writeHeader_done [OF 2] fsCreate_new [OF 1] by auto
  then have "content w5 t = Some encoded"
    using effect_content(1) [OF 3] effect_content(2) [OF 4] touchesD [OF touches_requireAbsent 5, of t "{}"]
    by simp
  then show "content w6 f = Some (segment_image h [])"
    using fsRename_done [OF 6, of f] enc tf by (simp add: segment_image_def)
qed

lemma createSegment_Inr:
  assumes "createSegment random dir t p base w = (Inr sg, w')"
  obtains h where "valid_header h" and "sTopic h = t" and "sPartition h = p" and "sBaseOffset h = base"
    and "sg = (recovered_segment (path_join dir (segment_name base)) h [])\<lparr>sgIndexDirty := True\<rparr>"
    and "content w' (path_join dir (segment_name base)) = Some (segment_image h [])"
proof -
  define h where "h = created_header random t p base"
  let ?f = "path_join dir (segment_name base)" and ?t = "path_join dir (temporary_name (sID h))"
  obtain encoded w1 w2 w3 w4 w5 w6 w7 where e: "EncodeSegmentHeader h = Inr encoded"
    and 1: "fsCreate ?t w = (Inr (), w1)" and 2: "writeHeader ?t encoded w1 = (Inr (), w2)"
    and 3: "fileSync ?t w2 = (Inr (), w3)" and 4: "fileClose ?t w3 = (Inr (), w4)"
    and 5: "requireAbsent ?f w4 = (Inr (), w5)" and 6: "fsRename ?t ?f w5 = (Inr (), w6)"
    and 7: "syncDir dir w6 = (Inr (), w7)" and 8: "fsOpen ?f w7 = (Inr (), w')"
    and sg: "sg = \<lparr>sgPath = ?f, sgOpen = True, sgHeader = h, sgEnd = base, sgSize = 72,
        sgRecords = 0, sgMaxTime = MinInt64, sgHeaderHash = segmentHeaderHash encoded, sgBatches = [],
        sgOffsetIndex = None, sgTimeIndex = None, sgIndexDirty = True\<rparr>"
    using assms [unfolded createSegment_def Let_def, folded created_header_def]
    by (auto simp: ioThen_Inr_iff h_def created_header_def)
  note cf = created_file [OF e path_neq(2) 1 2 3 4 5 6]
  have "content w' ?f = Some (segment_image h [])"
    using effect_content(3) [OF 7] fsOpen_content [OF 8] cf by simp
  moreover have "sg = (recovered_segment ?f h [])\<lparr>sgIndexDirty := True\<rparr>"
    using sg cf(2) by (simp add: recovered_segment_def scan_start_def h_def)
  ultimately show thesis using that [of h] cf(1) by (simp add: h_def)
qed

text \<open>Even when it fails, the segment file is either untouched or complete.\<close>

lemma createSegment_final:
  assumes "createSegment random dir t p base w = (r, w')"
  shows "content w' (path_join dir (segment_name base)) = content w (path_join dir (segment_name base))
    \<or> (valid_header (created_header random t p base)
       \<and> content w' (path_join dir (segment_name base)) = Some (segment_image (created_header random t p base) []))"
proof -
  define h where "h = created_header random t p base"
  let ?f = "path_join dir (segment_name base)" and ?t = "path_join dir (temporary_name (sID h))"
  define pre where "pre encoded = ioThen (ioWrap (fsCreate ?t)) (\<lambda>_.
    ioThen (ioCleanup (writeHeader ?t encoded) (fileClose ?t)) (\<lambda>_.
    ioThen (ioCleanup (ioWrap (fileSync ?t)) (fileClose ?t)) (\<lambda>_. ioThen (ioWrap (fileClose ?t)) (\<lambda>_.
    requireAbsent ?f))))" for encoded
  have pre: "content w2 ?f = content w1 ?f" if "pre d w1 = (x, w2)" for d w1 x w2
  proof -
    have t: "touches {q. q \<noteq> ?f} (pre d)" unfolding pre_def
      by (intro touches_ioThen touches_ioWrap touches_ioCleanup touches_reads touches_writes
          touches_writeHeader touches_requireAbsent) simp_all
    show ?thesis using touchesD [OF t that] by simp
  qed
  define tl where "tl encoded = ioThen (ioWrap (syncDir dir)) (\<lambda>_. ioThen (ioWrap (fsOpen ?f)) (\<lambda>_.
    ioReturn (Inr \<lparr>sgPath = ?f, sgOpen = True, sgHeader = h, sgEnd = base, sgSize = unat SegmentHeaderBytes,
      sgRecords = 0, sgMaxTime = MinInt64, sgHeaderHash = segmentHeaderHash encoded, sgBatches = [],
      sgOffsetIndex = None, sgTimeIndex = None, sgIndexDirty = True\<rparr>)))" for encoded
  have tl: "content w2 ?f = content w1 ?f" if "tl d w1 = (x, w2)" for d w1 x w2
  proof -
    have t: "touches {} (tl d)" unfolding tl_def
      by (intro touches_ioThen touches_ioWrap touches_reads touches_ioReturn)
    show ?thesis using touchesD [OF t that] by simp
  qed
  have "ioThen (ioReturn (EncodeSegmentHeader h)) (\<lambda>encoded. ioThen (pre encoded) (\<lambda>_.
    ioThen (ioWrap (fsRename ?t ?f)) (\<lambda>_. tl encoded))) w = (r, w')"
    using assms by (simp add: createSegment_def Let_def h_def created_header_def tl_def pre_def ioThen_assoc)
  then consider "w' = w" | d x where "pre d w = (x, w')"
    | d w1 e where "pre d w = (Inr (), w1)" "fsRename ?t ?f w1 = (Inl e, w')"
    | d w1 w2 where "EncodeSegmentHeader h = Inr d" "pre d w = (Inr (), w1)" "fsRename ?t ?f w1 = (Inr (), w2)"
        "tl d w2 = (r, w')"
    by (elim ioThen_cases) (auto simp: ioWrap_def split: prod.splits sum.splits)
  then show ?thesis
  proof cases
    case 3
    then show ?thesis using pre [OF 3(1)] fsRename_failed [OF 3(2)] by simp
  next
    case 4
    then obtain v1 v2 v3 v4 where "fsCreate ?t w = (Inr (), v1)" "writeHeader ?t d v1 = (Inr (), v2)"
      "fileSync ?t v2 = (Inr (), v3)" "fileClose ?t v3 = (Inr (), v4)" "requireAbsent ?f v4 = (Inr (), w1)"
      by (auto simp: pre_def ioThen_Inr_iff)
    from created_file [OF 4(1) path_neq(2) this 4(3)] show ?thesis using tl [OF 4(4)] by (simp add: h_def)
  qed (auto dest: pre)
qed

text \<open>Checkpointing the indexes of a segment changes sidecar files and temporary files that did not
  exist.\<close>

lemma touches_writePiece [intro]: "p \<in> S \<Longrightarrow> touches S (writePiece p d)"
  by (auto simp: touches_def dest: writePiece_other)

lemma touches_writePieces [intro]: "p \<in> S \<Longrightarrow> touches S (writePieces p ds)"
  by (auto simp: touches_def dest: writePieces_other)

lemma writeIndexFile_touches: "touches {t, p} (writeIndexFile t p h es)"
proof -
  let ?fill = "ioThen (writePieces t (encodeIndexHeader h # es)) (\<lambda>_. fileSync t)"
  let ?publish = "ioThen (fileClose t) (\<lambda>_. fsRename t p)"
  let ?undo = "\<lambda>e. ioDiscard (fileClose t) (ioDiscard (fsRemove t) (ioReturn (Inl e) :: unit io))"
  let ?drop = "\<lambda>e. ioDiscard (fsRemove t) (ioReturn (Inl e) :: unit io)"
  have f: "touches {t, p} ?fill"
    by (intro touches_ioThen touches_writePieces touches_reads) simp
  have u: "touches {t, p} ?publish" by (intro touches_ioThen touches_rename touches_reads) auto
  have n1: "touches {t, p} (?undo e)" for e
    by (intro touches_ioDiscard touches_writes touches_reads touches_ioReturn) simp
  have n2: "touches {t, p} (?drop e)" for e
    by (intro touches_ioDiscard touches_writes touches_reads touches_ioReturn) simp
  have "touches {t, p} (\<lambda>w. case ?fill w of (Inl e, w) \<Rightarrow> ?undo e w
     | (Inr _, w) \<Rightarrow> (case ?publish w of (Inl e, w) \<Rightarrow> ?drop e w | (Inr _, w) \<Rightarrow> syncDir p w))"
    (is "touches _ ?rest")
    unfolding touches_def
  proof (intro allI impI)
    fix w r w' q assume run: "?rest w = (r, w')" and q: "q \<notin> {t, p}"
    obtain r1 w1 where 1: "?fill w = (r1, w1)" by fastforce
    obtain r2 w2 where 2: "?publish w1 = (r2, w2)" by fastforce
    note c = touchesD [OF f 1 q] touchesD [OF u 2 q]
    show "content w' q = content w q"
    proof (cases r1)
      case (Inl e)
      then show ?thesis using run 1 c touchesD [OF n1 _ q, of e w1 r w'] by simp
    next
      case r1: (Inr x)
      show ?thesis
      proof (cases r2)
        case (Inl e)
        then show ?thesis using run 1 2 r1 c touchesD [OF n2 _ q, of e w2 r w'] by simp
      next
        case (Inr y)
        then show ?thesis using run 1 2 r1 c touchesD [OF touches_reads(5) _ q, of p w2 r w'] by simp
      qed
    qed
  qed
  then show ?thesis unfolding writeIndexFile_def by (intro touches_ioThen touches_writes) auto
qed

lemma writeIndexFile_keeps:
  assumes "writeIndexFile t p h es w = (r, w')" and "content w q = Some d" and "q \<noteq> p"
  shows "content w' q = Some d"
proof (cases "q = t")
  case False
  then show ?thesis using touchesD [OF writeIndexFile_touches assms(1), of q] assms by auto
next
  case True
  obtain r1 w1 where cr: "fsCreate t w = (r1, w1)" by fastforce
  then obtain e where "r1 = Inl e" using fsCreate_new [of t w _ w1] assms(2) True by (cases r1) auto
  then have "w' = w1" using assms(1) cr by (auto simp: writeIndexFile_def)
  then show ?thesis using cr \<open>r1 = Inl e\<close> fsCreate_failed [of t w e w1 q] assms(2) by simp
qed

lemma installSegmentIndexes_keeps:
  assumes "installSegmentIndexes ts sg sid stride w = (r, sg', w')"
    and "content w q = Some d" and "last q \<noteq> 0x78"
  shows "content w' q = Some d"
proof -
  have "q \<noteq> indexPath (sgPath sg) b" for b using assms(3) by (metis last_index_path)
  then show ?thesis using assms(1,2)
    by (auto simp: installSegmentIndexes_def Let_def split: prod.splits sum.splits
        dest!: writeIndexFile_keeps)
qed

lemma installSegmentIndexes_segment:
  assumes "installSegmentIndexes ts sg sid stride w = (r, sg', w')"
  shows "sg' = sg \<or> sg' = sg\<lparr>sgOffsetIndex := Some (fst (sampleBatchIndexes (sgBatches sg) stride)),
    sgTimeIndex := Some (snd (sampleBatchIndexes (sgBatches sg) stride)), sgIndexDirty := False\<rparr>"
  using assms by (auto simp: installSegmentIndexes_def Let_def split: prod.splits sum.splits)

section \<open>Segments and their chunks\<close>

definition segment_core :: "segment \<Rightarrow> segment" where
  "segment_core s = s\<lparr>sgOpen := True, sgOffsetIndex := None, sgTimeIndex := None, sgIndexDirty := False\<rparr>"

text \<open>What a segment in memory says about its chunks: it is the segment that recovery would build,
  up to its handle and its indexes, and its indexes are true.\<close>

definition segment_inv :: "TopicID \<Rightarrow> uint32 \<Rightarrow> path \<Rightarrow> segment \<Rightarrow> chunk list \<Rightarrow> bool" where
  "segment_inv t p dir s cs \<longleftrightarrow>
     segment_core s = recovered_segment (sgPath s) (sgHeader s) cs
     \<and> sgPath s = path_join dir (segment_name (sBaseOffset (sgHeader s)))
     \<and> valid_header (sgHeader s) \<and> sTopic (sgHeader s) = t \<and> sPartition (sgHeader s) = p
     \<and> chunks_ok t p (sBaseOffset (sgHeader s)) cs
     \<and> (\<forall>os. sgOffsetIndex s = Some os \<longrightarrow> true_offset_index (sgBatches s) os)
     \<and> (\<forall>ts. sgTimeIndex s = Some ts \<longrightarrow> true_time_index (sgBatches s) ts)"

lemma recovered_snoc:
  "recovered_segment path h (cs @ [(c, b)]) =
     (let s = recovered_segment path h cs
      in s\<lparr>sgEnd := sgEnd s + of_nat (length (bRecords b)), sgSize := sgSize s + length c,
           sgRecords := sgRecords s + of_nat (length (bRecords b)),
           sgMaxTime := max_timestamp (sgMaxTime s) (bRecords b),
           sgBatches := sgBatches s @ [\<lparr>biBase = bBaseOffset b, biPosition = sgSize s,
             biBytes = of_nat (length c), biRecords = of_nat (length (bRecords b)),
             biMaxTime = Uint64 (slice 24 32 c)\<rparr>]\<rparr>)"
  by (simp add: recovered_segment_def Let_def scan_chunk_def)

lemma segment_core_fields [simp]:
  "sgPath (segment_core s) = sgPath s" "sgHeader (segment_core s) = sgHeader s"
  "sgEnd (segment_core s) = sgEnd s" "sgSize (segment_core s) = sgSize s"
  "sgRecords (segment_core s) = sgRecords s" "sgMaxTime (segment_core s) = sgMaxTime s"
  "sgBatches (segment_core s) = sgBatches s" "sgHeaderHash (segment_core s) = sgHeaderHash s"
  by (simp_all add: segment_core_def)

lemma recovered_fields:
  "sgEnd (recovered_segment path h cs) = sBaseOffset h + of_nat (length (chunk_records cs))"
  "sgSize (recovered_segment path h cs) = 72 + length (chunk_bytes cs)"
  "sgRecords (recovered_segment path h cs) = of_nat (length (chunk_records cs))"
  by (simp_all add: recovered_segment_def Let_def fold_scan_current fold_scan_position
      fold_scan_records scan_start_def)

lemma segment_inv_fields:
  assumes "segment_inv t p dir s cs"
  shows "sgEnd s = sBaseOffset (sgHeader s) + of_nat (length (chunk_records cs))"
    and "sgSize s = 72 + length (chunk_bytes cs)"
    and "sgRecords s = of_nat (length (chunk_records cs))"
    and "sgBatches s = scBatches (fold scan_chunk cs (scan_start (sgHeader s)))"
proof -
  have c: "segment_core s = recovered_segment (sgPath s) (sgHeader s) cs"
    using assms by (simp add: segment_inv_def)
  show "sgEnd s = sBaseOffset (sgHeader s) + of_nat (length (chunk_records cs))"
    using arg_cong [OF c, of sgEnd] by (simp add: recovered_fields)
  show "sgSize s = 72 + length (chunk_bytes cs)"
    using arg_cong [OF c, of sgSize] by (simp add: recovered_fields)
  show "sgRecords s = of_nat (length (chunk_records cs))"
    using arg_cong [OF c, of sgRecords] by (simp add: recovered_fields)
  show "sgBatches s = scBatches (fold scan_chunk cs (scan_start (sgHeader s)))"
    using arg_cong [OF c, of sgBatches] by (simp add: recovered_segment_def Let_def)
qed

lemma segment_inv_end:
  assumes "segment_inv t p dir s cs" and "cs \<noteq> []"
  shows "unat (sgEnd s) = unat (sBaseOffset (sgHeader s)) + length (chunk_records cs)"
    and "unat (sBaseOffset (sgHeader s)) < unat (sgEnd s)" and "unat (sgEnd s) \<le> unat maxOffset"
proof -
  have ok: "chunks_ok t p (sBaseOffset (sgHeader s)) cs" using assms(1) by (simp add: segment_inv_def)
  obtain c b ds where cs: "cs = (c, b) # ds" using assms(2) by (cases cs) auto
  have "bRecords b \<noteq> []" using ok cs DecodeBatch_facts(4) [of c t p b] by simp
  then have "0 < length (chunk_records cs)" using cs by simp
  then show "unat (sgEnd s) = unat (sBaseOffset (sgHeader s)) + length (chunk_records cs)"
    "unat (sBaseOffset (sgHeader s)) < unat (sgEnd s)" "unat (sgEnd s) \<le> unat maxOffset"
    using segment_inv_fields(1) [OF assms(1)] chunks_ok_end [OF ok assms(2)] by simp_all
qed

text \<open>The batch map of a segment is well formed.\<close>

lemma scan_batches_ok:
  assumes "chunks_ok t p (scCurrent st) cs" and "batches_ok (scBatches st)"
    and "\<forall>b \<in> set (scBatches st). biBase b < scCurrent st \<and> biPosition b < scPosition st"
    and "scPosition st + length (chunk_bytes cs) < 2 ^ 63"
  shows "batches_ok (scBatches (fold scan_chunk cs st))"
  using assms
proof (induction cs arbitrary: st)
  case (Cons x cs)
  obtain c b where x: "x = (c, b)" by (cases x)
  have dec: "DecodeBatch c t p = Inr b" and base: "bBaseOffset b = scCurrent st"
    and ok: "chunks_ok t p (scCurrent st + of_nat (length (bRecords b))) cs"
    using Cons.prems(1) x by auto
  note f = DecodeBatch_facts [OF dec]
  let ?st = "scan_chunk (c, b) st"
  have range: "validOffsetRange (bBaseOffset b) (of_nat (length (bRecords b)))"
    using f(4,5,6) by (simp add: validOffsetRange_unat)
  have more: "scCurrent st < scCurrent st + of_nat (length (bRecords b))"
    using f(4,6) base by (simp add: word_less_nat_alt unat_word_ariths)
  have "batches_ok (scBatches ?st)"
    using Cons.prems(2-4) range base x
    by (auto simp: scan_chunk_def batches_ok_def sorted_wrt_append batch_before_def)
  moreover have "\<forall>b' \<in> set (scBatches ?st). biBase b' < scCurrent ?st \<and> biPosition b' < scPosition ?st"
    using Cons.prems(3) base more f(2) by (auto simp: scan_chunk_def)
  moreover have "scPosition ?st + length (chunk_bytes cs) < 2 ^ 63"
    using Cons.prems(4) x by (simp add: scan_chunk_def)
  moreover have "chunks_ok t p (scCurrent ?st) cs" using ok by (simp add: scan_chunk_def)
  ultimately show ?case using Cons.IH [of ?st] x by simp
qed simp

lemma segment_batches_ok:
  assumes "segment_inv t p dir s cs" and "sgSize s < 2 ^ 63"
  shows "batches_ok (sgBatches s)"
  using scan_batches_ok [of t p "scan_start (sgHeader s)" cs] assms segment_inv_fields [OF assms(1)]
  by (simp add: segment_inv_def scan_start_def batches_ok_def)

lemma chunks_batches_ok:
  assumes "chunks_ok t p (sBaseOffset h) cs" and "72 + length (chunk_bytes cs) < 2 ^ 63"
  shows "batches_ok (sgBatches (recovered_segment path h cs))"
  using scan_batches_ok [of t p "scan_start h" cs] assms
  by (simp add: recovered_segment_def Let_def scan_start_def batches_ok_def)

text \<open>The active segment after an append.\<close>

lemma segment_inv_extend:
  assumes inv: "segment_inv t p dir s cs" and dec: "DecodeBatch c t p = Inr b"
    and base: "bBaseOffset b = sgEnd s" and "sgSize s + length c < 2 ^ 63"
  shows "segment_inv t p dir (refreshSegmentIndexes (extendSegment b c s) sid stride) (cs @ [(c, b)])"
proof -
  let ?e = "extendSegment b c s"
  let ?r = "refreshSegmentIndexes ?e sid stride"
  have core: "segment_core ?r = recovered_segment (sgPath s) (sgHeader s) (cs @ [(c, b)])"
  proof -
    have "segment_core ?r = segment_core ?e"
      by (simp add: refreshSegmentIndexes_def segment_core_def split: prod.split)
    also have "\<dots> = (let s = segment_core s in s\<lparr>sgEnd := sgEnd s + of_nat (length (bRecords b)), sgSize := sgSize s + length c,
           sgRecords := sgRecords s + of_nat (length (bRecords b)),
           sgMaxTime := max_timestamp (sgMaxTime s) (bRecords b),
           sgBatches := sgBatches s @ [\<lparr>biBase = bBaseOffset b, biPosition = sgSize s,
             biBytes = of_nat (length c), biRecords = of_nat (length (bRecords b)),
             biMaxTime = Uint64 (slice 24 32 c)\<rparr>]\<rparr>)"
      by (simp add: extendSegment_def segment_core_def max_timestamp_def Let_def)
    also have "\<dots> = recovered_segment (sgPath s) (sgHeader s) (cs @ [(c, b)])"
      using inv by (simp add: recovered_snoc segment_inv_def)
    finally show ?thesis .
  qed
  have ok: "chunks_ok t p (sBaseOffset (sgHeader s)) (cs @ [(c, b)])"
    using inv dec base segment_inv_fields(1) [OF inv] by (simp add: segment_inv_def chunks_ok_append)
  have bs: "sgBatches ?r = sgBatches (recovered_segment (sgPath s) (sgHeader s) (cs @ [(c, b)]))"
    using arg_cong [OF core, of sgBatches] by simp
  have "batches_ok (sgBatches ?r)"
    unfolding bs using ok assms(4) segment_inv_fields(2) [OF inv] by (intro chunks_batches_ok) auto
  moreover have "sgBatches ?r = sgBatches ?e"
    by (simp add: refreshSegmentIndexes_def split: prod.split)
  ultimately have t: "true_offset_index (sgBatches ?r) (fst (sampleBatchIndexes (sgBatches ?e) stride))"
    "true_time_index (sgBatches ?r) (snd (sampleBatchIndexes (sgBatches ?e) stride))"
    using sampleBatchIndexes_true [of "sgBatches ?e" stride] by simp_all
  have i: "sgOffsetIndex ?r = Some (fst (sampleBatchIndexes (sgBatches ?e) stride))"
    "sgTimeIndex ?r = Some (snd (sampleBatchIndexes (sgBatches ?e) stride))"
    "sgPath ?r = sgPath s" "sgHeader ?r = sgHeader s"
    by (simp_all add: refreshSegmentIndexes_def extendSegment_def split: prod.split)
  show ?thesis using inv core ok t i by (simp add: segment_inv_def)
qed

section \<open>Partitions and their logs\<close>

fun chained :: "uint64 \<Rightarrow> segment list \<Rightarrow> uint64 \<Rightarrow> bool" where
  "chained off [] e \<longleftrightarrow> off = e"
| "chained off (s # ss) e \<longleftrightarrow> sBaseOffset (sgHeader s) = off \<and> chained (sgEnd s) ss e"

lemma chained_append: "chained off (ss @ ts) e \<longleftrightarrow> (\<exists>m. chained off ss m \<and> chained m ts e)"
  by (induction ss arbitrary: off) auto

text \<open>The segment files of a directory: what \<open>discoverSegments\<close> takes from it.\<close>

definition is_log_name :: "bytes \<Rightarrow> bool" where
  "is_log_name name \<longleftrightarrow> length name \<ge> 4 \<and> drop (length name - 4) name = log_suffix"

definition log_path :: "path \<Rightarrow> path \<Rightarrow> bool" where
  "log_path dir q \<longleftrightarrow> (\<exists>name. q = path_join dir name \<and> 0x2F \<notin> set name \<and> is_log_name name)"

definition log_paths :: "world \<Rightarrow> path \<Rightarrow> path set" where
  "log_paths w dir = {q. content w q \<noteq> None \<and> log_path dir q}"

text \<open>
  \<open>stored w p tail s cs\<close>: segment \<open>s\<close> has the chunks \<open>cs\<close>, and its file holds them and then \<open>tail\<close>.
  \<open>partition_image w p css tail\<close>: the segments of \<open>p\<close> have the chunks \<open>css\<close> and follow each other;
  the file of the last one ends in \<open>tail\<close>, which is empty unless a write failed; the directory has no
  other segment files.
\<close>

definition stored :: "world \<Rightarrow> Partition \<Rightarrow> bytes \<Rightarrow> segment \<Rightarrow> chunk list \<Rightarrow> bool" where
  "stored w p tail s cs \<longleftrightarrow>
     segment_inv (pTopic p) (pPartition p) (pDir p) s cs
     \<and> content w (sgPath s) = Some (segment_image (sgHeader s) cs @ tail)
     \<and> sgSize s < 2 ^ 63"

definition partition_image :: "world \<Rightarrow> Partition \<Rightarrow> chunk list list \<Rightarrow> bytes \<Rightarrow> bool" where
  "partition_image w p css tail \<longleftrightarrow>
     pSegments p \<noteq> [] \<and> css \<noteq> []
     \<and> list_all2 (stored w p []) (butlast (pSegments p)) (butlast css)
     \<and> stored w p tail (last (pSegments p)) (last css)
     \<and> [] \<notin> set (butlast css)
     \<and> chained (sBaseOffset (sgHeader (hd (pSegments p)))) (pSegments p) (pLogEnd p)
     \<and> log_paths w (pDir p) = sgPath ` set (pSegments p)"

abbreviation partition_inv :: "world \<Rightarrow> Partition \<Rightarrow> chunk list list \<Rightarrow> bool" where
  "partition_inv w p css \<equiv> partition_image w p css []"

definition log_of :: "chunk list list \<Rightarrow> Record list" where
  "log_of css = concat (map chunk_records css)"

text \<open>The options leave room for a batch in a new segment, as \<open>validate\<close> requires.\<close>

definition options_ok :: "PartitionOptions \<Rightarrow> bool" where
  "options_ok options \<longleftrightarrow>
     72 + unat (oBatchBytes options) \<le> unat (oSegmentBytes options)
     \<and> unat (oSegmentBytes options) < 2 ^ 63 \<and> oBatchBytes options \<le> MaxBatchBytes"

lemma partition_image_split:
  "partition_image w p css tail \<longleftrightarrow>
     (\<exists>ss s dss cs. pSegments p = ss @ [s] \<and> css = dss @ [cs] \<and> list_all2 (stored w p []) ss dss
        \<and> stored w p tail s cs \<and> [] \<notin> set dss
        \<and> chained (sBaseOffset (sgHeader (hd (ss @ [s])))) (ss @ [s]) (pLogEnd p)
        \<and> log_paths w (pDir p) = sgPath ` set (ss @ [s]))"
proof
  assume a: "partition_image w p css tail"
  then have "pSegments p = butlast (pSegments p) @ [last (pSegments p)]" "css = butlast css @ [last css]"
    by (simp_all add: partition_image_def)
  with a show "\<exists>ss s dss cs. pSegments p = ss @ [s] \<and> css = dss @ [cs] \<and> list_all2 (stored w p []) ss dss
        \<and> stored w p tail s cs \<and> [] \<notin> set dss
        \<and> chained (sBaseOffset (sgHeader (hd (ss @ [s])))) (ss @ [s]) (pLogEnd p)
        \<and> log_paths w (pDir p) = sgPath ` set (ss @ [s])"
    unfolding partition_image_def by metis
qed (auto simp: partition_image_def)

lemma is_log_segment [simp]: "is_log_name (segment_name base)"
  by (simp add: is_log_name_def segment_name_def log_suffix_def)

lemma log_path_segment [simp]: "log_path dir (path_join dir (segment_name base))"
  unfolding log_path_def using segment_name_no_slash is_log_segment by blast

lemma log_path_last:
  assumes "log_path dir q"
  shows "last q = 0x67"
proof -
  obtain name where q: "q = path_join dir name" and n: "is_log_name name" using assms by (auto simp: log_path_def)
  have "last (drop (length name - 4) name) = last name" using n by (intro last_drop) (auto simp: is_log_name_def)
  then have "last name = 0x67" "name \<noteq> []" using n by (auto simp: is_log_name_def log_suffix_def)
  then show ?thesis using q by (simp add: path_join_def)
qed

lemma log_paths_cong:
  assumes "\<And>q. last q = 0x67 \<Longrightarrow> content w' q = None \<longleftrightarrow> content w q = None"
  shows "log_paths w' dir = log_paths w dir"
  using assms log_path_last by (fastforce simp: log_paths_def simp del: not_None_eq)

lemma chained_below:
  assumes "chained off ss e" and "\<forall>s \<in> set ss. unat (sBaseOffset (sgHeader s)) < unat (sgEnd s)"
  shows "unat off \<le> unat e" and "s \<in> set ss \<Longrightarrow> unat (sBaseOffset (sgHeader s)) < unat e"
proof -
  have "unat off \<le> unat e \<and> (\<forall>s \<in> set ss. unat (sBaseOffset (sgHeader s)) < unat e)"
    using assms by (induction ss arbitrary: off) fastforce+
  then show "unat off \<le> unat e" "s \<in> set ss \<Longrightarrow> unat (sBaseOffset (sgHeader s)) < unat e" by auto
qed

lemma stored_nonempty:
  assumes "list_all2 (stored w p []) ss dss" and "[] \<notin> set dss" and "s \<in> set ss"
  shows "unat (sBaseOffset (sgHeader s)) < unat (sgEnd s)"
proof -
  obtain i where i: "i < length ss" "s = ss ! i" using assms(3) by (metis in_set_conv_nth)
  then have "stored w p [] s (dss ! i)" "dss ! i \<noteq> []"
    using assms(1,2) by (auto simp: list_all2_conv_all_nth) (metis nth_mem)
  then show ?thesis using segment_inv_end(2) by (auto simp: stored_def)
qed

text \<open>The paths of the earlier segments differ from those of the active one and of the next one.\<close>

lemma earlier_paths:
  assumes "list_all2 (stored w p []) ss dss" and "[] \<notin> set dss"
    and "chained off (ss @ ts) e" and "chained off ss m" and "s \<in> set ss"
  shows "sgPath s \<noteq> path_join (pDir p) (segment_name m)"
proof -
  have "unat (sBaseOffset (sgHeader s)) < unat m"
    using chained_below(2) [OF assms(4) _ assms(5)] stored_nonempty [OF assms(1,2)] by blast
  moreover obtain i where "i < length ss" "s = ss ! i" using assms(5) by (metis in_set_conv_nth)
  then have "sgPath s = path_join (pDir p) (segment_name (sBaseOffset (sgHeader s)))"
    using assms(1) by (auto simp: list_all2_conv_all_nth stored_def segment_inv_def)
  ultimately show ?thesis by auto
qed

lemma stored_frame:
  assumes "stored w p tail s cs" and "content w' (sgPath s) = content w (sgPath s)"
    and "pTopic p' = pTopic p" and "pPartition p' = pPartition p" and "pDir p' = pDir p"
    and "pOptions p' = pOptions p"
  shows "stored w' p' tail s cs"
  using assms by (simp add: stored_def)

lemma stored_frame_all:
  assumes "list_all2 (stored w p []) ss dss" and "\<forall>s \<in> set ss. content w' (sgPath s) = content w (sgPath s)"
    and "pTopic p' = pTopic p" and "pPartition p' = pPartition p" and "pDir p' = pDir p"
    and "pOptions p' = pOptions p"
  shows "list_all2 (stored w' p' []) ss dss"
  unfolding list_all2_conv_all_nth
proof (intro conjI allI impI)
  show "length ss = length dss" using assms(1) by (rule list_all2_lengthD)
  fix i assume "i < length ss"
  then have "stored w p [] (ss ! i) (dss ! i)" "content w' (sgPath (ss ! i)) = content w (sgPath (ss ! i))"
    using assms(1,2) by (auto simp: list_all2_conv_all_nth)
  then show "stored w' p' [] (ss ! i) (dss ! i)" using assms(3-6) by (rule stored_frame)
qed

section \<open>The durable write\<close>

lemma fileWriteAt_end:
  assumes "fileWriteAt path d (length old) w = ((n, e), w')" and "content w path = Some old"
  shows "\<exists>k \<le> length d. content w' path = Some (old @ take k d) \<and> (e = [] \<and> n = length d \<longrightarrow> k = length d)"
proof -
  obtain r w1 where o: "next_outcome w = (r, w1)" by fastforce
  show ?thesis
  proof (cases r)
    case Done
    then show ?thesis using assms o by (auto simp: fileWriteAt_def Let_def write_at_end)
  next
    case (Fail m e')
    have "take m d = take (min m (length d)) d" by (simp add: min_def)
    then show ?thesis
      using assms o Fail by (intro exI [of _ "min m (length d)"]) (auto simp: fileWriteAt_def Let_def write_at_end)
  qed
qed

lemma decode_encoded:
  "EncodeBatch b = Inr c \<Longrightarrow> DecodeBatch c (bTopic b) (bPartition b) = Inr b"
  using DecodeBatch_batch_bytes pads_for_zero_pads by (auto simp: EncodeBatch_Inr_iff)

lemma log_of_snoc:
  "css \<noteq> [] \<Longrightarrow> log_of (butlast css @ [last css @ [(c, b)]]) = log_of css @ bRecords b"
  by (induction css) (auto simp: log_of_def)

lemma log_of_rolled [simp]: "log_of (css @ [[]]) = log_of css"
  by (simp add: log_of_def)

lemma installSegmentIndexes_frame:
  assumes run: "installSegmentIndexes ts sg sid stride w = (r, sg', w')"
    and ts: "last (fst ts) = 0x70" "last (snd ts) = 0x70" and q: "last q = 0x67"
  shows "content w' q = content w q"
proof -
  have n: "q \<noteq> fst ts" "q \<noteq> snd ts" "q \<noteq> indexPath y b" for y b
    using ts q last_index_path [of y b] by auto
  have step: "content v' q = content v q"
    if "writeIndexFile t (indexPath y b) h es v = (x, v')" "q \<noteq> t" for t y b h es v x v'
    using touchesD [OF writeIndexFile_touches that(1), of q] that(2) n(3) by simp
  show ?thesis
    using run n(1,2)
    by (auto simp: installSegmentIndexes_def Let_def split: prod.splits sum.splits dest!: step)
qed

lemma chained_snoc: "chained off (ss @ [s]) e \<longleftrightarrow> chained off ss (sBaseOffset (sgHeader s)) \<and> sgEnd s = e"
  by (auto simp: chained_append)

lemma writeActive_image:
  assumes img: "partition_image w p css []" and opt: "options_ok (pOptions p)"
    and enc: "EncodeBatch batch = Inr c" and idn: "bTopic batch = pTopic p" "bPartition batch = pPartition p"
    and base: "bBaseOffset batch = pLogEnd p"
    and fits: "sgSize (last (pSegments p)) + length c \<le> unat (oSegmentBytes (pOptions p))"
    and run: "writeActive batch c p w = (r, p', w')"
  shows "(case r of
      Inr (off, pub) \<Rightarrow> off = pLogEnd p
        \<and> partition_image w' p' (butlast css @ [last css @ [(c, batch)]]) []
        \<and> pLogEnd p' = pLogEnd p + of_nat (length (bRecords batch))
    | Inl e \<Rightarrow> {ErrAppendOutcomeUnknown, ErrPartitionUnavailable} \<subseteq> set e \<and> p' = p\<lparr>pUnavailable := True\<rparr>
        \<and> (\<exists>k \<le> length c. partition_image w' p' css (take k c)))"
proof -
  obtain ss s dss cs where p: "pSegments p = ss @ [s]" and css: "css = dss @ [cs]"
    and early: "list_all2 (stored w p []) ss dss" and act: "stored w p [] s cs" and ne: "[] \<notin> set dss"
    and ch: "chained (sBaseOffset (sgHeader (hd (ss @ [s])))) (ss @ [s]) (pLogEnd p)"
    and lp: "log_paths w (pDir p) = sgPath ` set (ss @ [s])"
    using img by (auto simp: partition_image_split)
  have inv: "segment_inv (pTopic p) (pPartition p) (pDir p) s cs"
    and cont: "content w (sgPath s) = Some (segment_image (sgHeader s) cs)"
    using act by (simp_all add: stored_def)
  have size: "sgSize s = length (segment_image (sgHeader s) cs)"
    using segment_inv_fields(2) [OF inv] by simp
  have path: "sgPath s = path_join (pDir p) (segment_name (sBaseOffset (sgHeader s)))"
    using inv by (simp add: segment_inv_def)
  have other: "sgPath x \<noteq> sgPath s" if "x \<in> set ss" for x
    using earlier_paths [OF early ne _ _ that, of _ "[s]" "pLogEnd p" "sBaseOffset (sgHeader s)"] ch path
    by (auto simp: chained_snoc)
  obtain n e w1 where wr: "fileWriteAt (sgPath s) c (sgSize s) w = ((n, e), w1)" by (metis surj_pair)
  obtain k where k: "k \<le> length c" "content w1 (sgPath s) = Some (segment_image (sgHeader s) cs @ take k c)"
    "e = [] \<and> n = length c \<longrightarrow> k = length c"
    using fileWriteAt_end [OF wr [unfolded size] cont] by auto
  have o1: "q \<noteq> sgPath s \<Longrightarrow> content w1 q = content w q" for q using wr by (rule fileWriteAt_other)
  have lp1: "log_paths v (pDir p) = sgPath ` set (ss @ [s])" if "\<forall>q. content v q = content w1 q" for v
  proof -
    have "content v q = None \<longleftrightarrow> content w q = None" for q
      using that o1 [of q] k(2) cont by (cases "q = sgPath s") simp_all
    then show ?thesis using log_paths_cong lp by metis
  qed
  have crash: "partition_image v (p\<lparr>pUnavailable := True\<rparr>) css (take k c)"
    if v: "\<forall>q. content v q = content w1 q" for v
  proof -
    have "list_all2 (stored v (p\<lparr>pUnavailable := True\<rparr>) []) ss dss"
      using early by (rule stored_frame_all) (use v o1 other in auto)
    moreover have "stored v (p\<lparr>pUnavailable := True\<rparr>) (take k c) s cs"
      using act k v by (simp add: stored_def)
    ultimately show ?thesis using p css ne ch lp1 [OF v] by (auto simp: partition_image_split)
  qed
  show ?thesis
  proof (cases "e \<noteq> [] \<or> n \<noteq> length c")
    case True
    then have "r = Inl ([ErrAppendOutcomeUnknown, ErrPartitionUnavailable] @ e @ [ErrShortWrite])"
      "p' = p\<lparr>pUnavailable := True\<rparr>" "w' = w1"
      using run p wr by (auto simp: writeActive_def)
    then show ?thesis using crash [of w1] k(1) by auto
  next
    case False
    obtain r2 w2 where sy: "fileSync (sgPath s) w1 = (r2, w2)" by fastforce
    have o2: "content w2 q = content w1 q" for q using sy by (rule effect_content)
    show ?thesis
    proof (cases r2)
      case (Inl e2)
      then have "r = Inl ([ErrAppendOutcomeUnknown, ErrPartitionUnavailable] @ e2)"
        "p' = p\<lparr>pUnavailable := True\<rparr>" "w' = w2"
        using run p wr False sy by (auto simp: writeActive_def)
      then show ?thesis using crash [of w2] k(1) o2 by auto
    next
      case (Inr u)
      let ?a = "refreshSegmentIndexes (extendSegment batch c s) (pStoreID p) (oIndexStride (pOptions p))"
      have p': "pSegments p' = ss @ [?a]" "pLogEnd p' = sgEnd (extendSegment batch c s)"
        "pTopic p' = pTopic p" "pPartition p' = pPartition p" "pDir p' = pDir p" "pOptions p' = pOptions p"
        "w' = w2"
        and r: "\<exists>pub. r = Inr (bBaseOffset batch, pub)"
        using run p wr False sy Inr
        by (auto simp: writeActive_def Let_def extendPrefixDigestLocked_def signalFetchWaitersLocked_def
            split: if_splits option.splits)
      have dec: "DecodeBatch c (pTopic p) (pPartition p) = Inr batch" using decode_encoded [OF enc] idn by simp
      have lim: "sgSize s + length c < 2 ^ 63" using fits opt p by (simp add: options_ok_def)
      have inv': "segment_inv (pTopic p) (pPartition p) (pDir p) ?a (cs @ [(c, batch)])"
        using segment_inv_extend [OF inv dec _ lim] base ch by (simp add: chained_snoc)
      have a: "sgPath ?a = sgPath s" "sgHeader ?a = sgHeader s" "sgSize ?a = sgSize s + length c"
        "sgEnd ?a = sgEnd (extendSegment batch c s)"
        by (simp_all add: refreshSegmentIndexes_def extendSegment_def split: prod.split)
      have "list_all2 (stored w' p' []) ss dss"
        using early by (rule stored_frame_all) (use p' o1 o2 other in auto)
      moreover have "stored w' p' [] ?a (cs @ [(c, batch)])"
        using inv' a k False lim p p' o2 by (simp add: stored_def segment_image_def)
      moreover have "chained (sBaseOffset (sgHeader (hd (ss @ [?a])))) (ss @ [?a]) (pLogEnd p')"
        using ch a p'(2) by (cases ss) (auto simp: chained_snoc)
      ultimately have "partition_image w' p' (dss @ [cs @ [(c, batch)]]) []"
        using p' ne lp1 [of w'] o2 a(1) by (auto simp: partition_image_split)
      moreover have "sgEnd (extendSegment batch c s) = pLogEnd p + of_nat (length (bRecords batch))"
        using ch by (simp add: extendSegment_def chained_snoc)
      ultimately show ?thesis using r css base p' by auto
    qed
  qed
qed

text \<open>A partition whose active segment was sealed and that continues in a new, empty segment.\<close>

lemma rolled_image:
  assumes p: "pSegments p = ss @ [s]" and css: "css = dss @ [cs]"
    and early: "list_all2 (stored w p []) ss dss" and act: "stored w p [] s cs" and ne: "[] \<notin> set css"
    and ch: "chained (sBaseOffset (sgHeader (hd (ss @ [s])))) (ss @ [s]) (pLogEnd p)"
    and lp: "log_paths v (pDir p) = insert f (sgPath ` set (ss @ [s]))"
    and keep: "\<forall>x \<in> set (ss @ [s]). content v (sgPath x) = content w (sgPath x)"
    and a: "segment_inv (pTopic p) (pPartition p) (pDir p) a cs" "sgPath a = sgPath s" "sgHeader a = sgHeader s"
      "sgSize a = sgSize s" "sgEnd a = sgEnd s"
    and h: "valid_header h" "sTopic h = pTopic p" "sPartition h = pPartition p" "sBaseOffset h = pLogEnd p"
    and f: "f = path_join (pDir p) (segment_name (pLogEnd p))" "content v f = Some (segment_image h [])"
    and b: "segment_core b = recovered_segment f h []" "sgOffsetIndex b = None" "sgTimeIndex b = None"
  shows "partition_image v (p\<lparr>pSegments := ss @ [a, b]\<rparr>) (css @ [[]]) []"
proof -
  let ?p = "p\<lparr>pSegments := ss @ [a, b]\<rparr>"
  have b': "sgPath b = f" "sgHeader b = h" "sgSize b = 72" "sgEnd b = pLogEnd p"
    using arg_cong [OF b(1), of sgPath] arg_cong [OF b(1), of sgHeader] arg_cong [OF b(1), of sgSize]
      arg_cong [OF b(1), of sgEnd] h(4)
    by (simp_all add: recovered_segment_def scan_start_def)
  have "list_all2 (stored v ?p []) ss dss"
    using early by (rule stored_frame_all) (use keep in auto)
  moreover have "stored v ?p [] a cs" using act a keep by (simp add: stored_def)
  ultimately have all: "list_all2 (stored v ?p []) (ss @ [a]) css" using css by (simp add: list_all2_appendI)
  have last: "stored v ?p [] b []" using b b' f h by (simp add: stored_def segment_inv_def)
  have "chained (sBaseOffset (sgHeader (hd (ss @ [a, b])))) (ss @ [a, b]) (pLogEnd p)"
    using ch a(3,5) b' h(4) by (cases ss) (auto simp: chained_append)
  moreover have "log_paths v (pDir p) = sgPath ` set (ss @ [a, b])" using lp a(2) b'(1) by auto
  ultimately show ?thesis
    unfolding partition_image_split using all last ne
    by (intro exI [of _ "ss @ [a]"] exI [of _ b] exI [of _ css] exI [of _ "[]"]) auto
qed

lemma rollSegment_image:
  assumes img: "partition_image w p css []" and opt: "options_ok (pOptions p)"
    and full: "sgRecords (last (pSegments p)) \<noteq> 0"
    and ts: "last (fst ts) = 0x70" "last (snd ts) = 0x70"
    and run: "rollSegment random ts p w = (r, w')"
  shows "case r of
      Inl e \<Rightarrow> \<exists>segments css'. partition_image w' (p\<lparr>pSegments := segments\<rparr>) css' [] \<and> log_of css' = log_of css
    | Inr p' \<Rightarrow> partition_image w' p' (css @ [[]]) [] \<and> sgSize (last (pSegments p')) = 72
        \<and> (\<exists>segments. p' = p\<lparr>pSegments := segments\<rparr>)"
proof -
  obtain ss s dss cs where p: "pSegments p = ss @ [s]" and css: "css = dss @ [cs]"
    and early: "list_all2 (stored w p []) ss dss" and act: "stored w p [] s cs" and ne: "[] \<notin> set dss"
    and ch: "chained (sBaseOffset (sgHeader (hd (ss @ [s])))) (ss @ [s]) (pLogEnd p)"
    and lp: "log_paths w (pDir p) = sgPath ` set (ss @ [s])"
    using img by (auto simp: partition_image_split)
  define f where "f = path_join (pDir p) (segment_name (pLogEnd p))"
  have inv: "segment_inv (pTopic p) (pPartition p) (pDir p) s cs" using act by (simp add: stored_def)
  have cs: "cs \<noteq> []" using full p segment_inv_fields(3) [OF inv] by auto
  have all: "list_all2 (stored w p []) (ss @ [s]) css" using early act css by (simp add: list_all2_appendI)
  have nes: "[] \<notin> set css" using ne cs css by simp
  have paths: "sgPath x \<noteq> f \<and> last (sgPath x) = 0x67 \<and> content w (sgPath x) \<noteq> None"
    if x: "x \<in> set (ss @ [s])" for x
  proof (intro conjI)
    show "sgPath x \<noteq> f" unfolding f_def
      using ch by (intro earlier_paths [OF all nes _ ch x, of "[]" "pLogEnd p"]) simp
    obtain ds where ds: "stored w p [] x ds" using list_all2_ex [OF all x] by blast
    then have "sgPath x = path_join (pDir p) (segment_name (sBaseOffset (sgHeader x)))"
      by (simp add: stored_def segment_inv_def)
    then show "last (sgPath x) = 0x67" by (metis last_segment_path)
    show "content w (sgPath x) \<noteq> None" using ds by (simp add: stored_def)
  qed
  have fl: "last f = 0x67" by (simp add: f_def)
  obtain r1 w1 where cr: "createSegment random (pDir p) (pTopic p) (pPartition p) (pLogEnd p) w = (r1, w1)"
    by fastforce
  have o1: "content w1 q = content w q" if "last q = 0x67" "q \<noteq> f" for q
    using touchesD [OF createSegment_touches cr, of q] that by (simp add: f_def)
  have grown: "log_paths v (pDir p) = insert f (sgPath ` set (ss @ [s]))"
    if v: "content v f \<noteq> None" "\<And>q. last q = 0x67 \<Longrightarrow> q \<noteq> f \<Longrightarrow> content v q = content w q" for v
  proof -
    have "q \<in> log_paths v (pDir p) \<longleftrightarrow> q = f \<or> q \<in> log_paths w (pDir p)" for q
    proof (cases "q = f")
      case True
      then show ?thesis using v(1) by (simp add: log_paths_def f_def)
    next
      case False
      then show ?thesis using v(2) [of q] log_path_last [of "pDir p" q]
        by (simp add: log_paths_def del: not_None_eq) metis
    qed
    then show ?thesis using lp by auto
  qed
  show ?thesis
  proof (cases r1)
    case (Inl e)
    then have r: "r = Inl e" "w' = w1" using run cr by (auto simp: rollSegment_def)
    have k: "\<forall>x \<in> set (ss @ [s]). content w1 (sgPath x) = content w (sgPath x)" using o1 paths by auto
    from createSegment_final [OF cr, folded f_def]
    have "\<exists>segments css'. partition_image w1 (p\<lparr>pSegments := segments\<rparr>) css' [] \<and> log_of css' = log_of css"
    proof
      assume same: "content w1 f = content w f"
      have "list_all2 (stored w1 p []) ss dss" using early by (rule stored_frame_all) (use k in auto)
      moreover have "stored w1 p [] s cs" using act by (rule stored_frame) (use k in auto)
      moreover have "log_paths w1 (pDir p) = sgPath ` set (ss @ [s])"
        using log_paths_cong [of w1 w "pDir p"] same o1 lp by metis
      ultimately have "partition_image w1 p css []" using p css ne ch by (auto simp: partition_image_split)
      then show ?thesis by (intro exI [of _ "pSegments p"] exI [of _ css]) simp
    next
      let ?h = "created_header random (pTopic p) (pPartition p) (pLogEnd p)"
      assume new: "valid_header ?h \<and> content w1 f = Some (segment_image ?h [])"
      have "partition_image w1 (p\<lparr>pSegments := ss @ [s, recovered_segment f ?h []]\<rparr>) (css @ [[]]) []"
        by (rule rolled_image [OF p css early act nes ch grown k inv _ _ _ _ _ _ _ _ f_def])
          (use new o1 in \<open>auto simp: segment_core_def recovered_segment_def Let_def\<close>)
      then show ?thesis using log_of_rolled by blast
    qed
    then show ?thesis using r by simp
  next
    case (Inr rolled)
    then obtain h where h: "valid_header h" "sTopic h = pTopic p" "sPartition h = pPartition p"
      "sBaseOffset h = pLogEnd p"
      "rolled = (recovered_segment f h [])\<lparr>sgIndexDirty := True\<rparr>" "content w1 f = Some (segment_image h [])"
      using createSegment_Inr cr unfolding f_def by metis
    obtain r2 active w2 where ins: "installSegmentIndexes ts s (pStoreID p) (oIndexStride (pOptions p)) w1
        = (r2, active, w2)" by (metis surj_pair)
    let ?a = "active\<lparr>sgOpen := False\<rparr>"
    have run': "r = Inr (p\<lparr>pSegments := ss @ [?a, rolled]\<rparr>)" "w' = snd (fileClose (sgPath active) w2)"
      using run cr Inr p ins by (auto simp: rollSegment_def)
    have keep: "content w' q = content w1 q" if "last q = 0x67" for q
      using installSegmentIndexes_frame [OF ins ts that] run'(2) by simp
    have ac: "active = s \<or> active = s\<lparr>sgOffsetIndex := Some (fst (sampleBatchIndexes (sgBatches s) (oIndexStride (pOptions p)))),
        sgTimeIndex := Some (snd (sampleBatchIndexes (sgBatches s) (oIndexStride (pOptions p)))), sgIndexDirty := False\<rparr>"
      using installSegmentIndexes_segment [OF ins] .
    have bs: "batches_ok (sgBatches s)"
      using segment_batches_ok [OF inv] act by (simp add: stored_def)
    have inv': "segment_inv (pTopic p) (pPartition p) (pDir p) ?a cs"
      using ac inv sampleBatchIndexes_true [OF bs, of "oIndexStride (pOptions p)"]
      by (auto simp: segment_inv_def segment_core_def)
    have a: "sgPath ?a = sgPath s" "sgHeader ?a = sgHeader s" "sgSize ?a = sgSize s" "sgEnd ?a = sgEnd s"
      using ac by auto
    have k: "\<forall>x \<in> set (ss @ [s]). content w' (sgPath x) = content w (sgPath x)" using keep o1 paths by auto
    have lp': "log_paths w' (pDir p) = insert f (sgPath ` set (ss @ [s]))"
      using grown [of w'] keep o1 h(6) fl by simp
    have b: "segment_core rolled = recovered_segment f h []" "sgOffsetIndex rolled = None" "sgTimeIndex rolled = None"
      "sgSize rolled = 72"
      unfolding h(5) by (simp_all add: segment_core_def recovered_segment_def scan_start_def)
    have fc: "content w' f = Some (segment_image h [])" using keep [OF fl] h(6) by simp
    have "partition_image w' (p\<lparr>pSegments := ss @ [?a, rolled]\<rparr>) (css @ [[]]) []"
      by (rule rolled_image [OF p css early act nes ch lp' k inv' a h(1-4) f_def fc b(1-3)])
    then show ?thesis using run' b(4) by auto
  qed
qed

text \<open>Either no roll is needed, or it fails, or the append goes on in a new segment.\<close>

lemma append_steps:
  assumes img: "partition_inv w p css" and opt: "options_ok (pOptions p)"
    and enc: "EncodeBatch batch = Inr c" and ts: "last (fst ts) = 0x70" "last (snd ts) = 0x70"
    and run: "appendEncodedLocked random ts batch c p w = (r, p', w')"
  shows "(\<exists>e. r = Inl e \<and> p' = p \<and> w' = w)
    \<or> (\<exists>e. r = Inl (ErrPartitionUnavailable # e) \<and> p' = p\<lparr>pUnavailable := True\<rparr>
         \<and> (\<exists>segments css'. partition_inv w' (p\<lparr>pSegments := segments\<rparr>) css' \<and> log_of css' = log_of css))
    \<or> (\<exists>q v qss. writeActive batch c q v = (r, p', w') \<and> partition_inv v q qss
         \<and> log_of qss = log_of css \<and> (\<exists>segments. q = p\<lparr>pSegments := segments\<rparr>)
         \<and> bTopic batch = pTopic p \<and> bPartition batch = pPartition p \<and> bBaseOffset batch = pLogEnd p
         \<and> sgSize (last (pSegments q)) + length c \<le> unat (oSegmentBytes (pOptions p)))"
proof -
  let ?active = "last (pSegments p)"
  have size: "sgSize ?active < 2 ^ 63"
    using img by (auto simp: partition_image_def stored_def)
  consider (refused) e where "r = Inl e" "p' = p" "w' = w"
    | (fits) "writeActive batch c p w = (r, p', w')" "bTopic batch = pTopic p" "bPartition batch = pPartition p"
        "bBaseOffset batch = pLogEnd p" "length c \<le> unat (oBatchBytes (pOptions p))"
        "\<not> of_nat (length c) + of_nat (sgSize ?active) > oSegmentBytes (pOptions p)"
    | (roll) "sgRecords ?active \<noteq> 0" "bTopic batch = pTopic p" "bPartition batch = pPartition p"
        "bBaseOffset batch = pLogEnd p" "length c \<le> unat (oBatchBytes (pOptions p))"
        "(case rollSegment random ts p w of
            (Inl e, w) \<Rightarrow> (Inl (ErrPartitionUnavailable # e), p\<lparr>pUnavailable := True\<rparr>, w)
          | (Inr p, w) \<Rightarrow> writeActive batch c p w) = (r, p', w')"
    using run by (auto simp: appendEncodedLocked_def Let_def split: if_splits sum.splits)
  then show ?thesis
  proof cases
    case refused
    then show ?thesis by blast
  next
    case fits
    have lim: "unat (oBatchBytes (pOptions p)) < 2 ^ 32" "unat (oSegmentBytes (pOptions p)) < 2 ^ 63"
      using opt unat_uint32_less [of "oBatchBytes (pOptions p)"] by (simp_all add: options_ok_def)
    have "unat (of_nat (length c) + of_nat (sgSize ?active) :: uint64) = length c + sgSize ?active"
      using lim fits(5) size by (simp add: unat_word_ariths unat_of_nat)
    then have "sgSize ?active + length c \<le> unat (oSegmentBytes (pOptions p))"
      using fits(6) by (simp add: word_less_nat_alt)
    moreover have "p = p\<lparr>pSegments := pSegments p\<rparr>" by simp
    ultimately show ?thesis using fits img by blast
  next
    case roll
    obtain r1 w1 where rs: "rollSegment random ts p w = (r1, w1)" by fastforce
    note im = rollSegment_image [OF img opt roll(1) ts rs]
    show ?thesis
    proof (cases r1)
      case (Inl e)
      then show ?thesis using im roll(6) rs by auto
    next
      case (Inr q)
      then have "partition_inv w1 q (css @ [[]])" "sgSize (last (pSegments q)) = 72"
        "\<exists>segments. q = p\<lparr>pSegments := segments\<rparr>" "writeActive batch c q w1 = (r, p', w')"
        using im roll(6) rs by auto
      moreover have "72 + length c \<le> unat (oSegmentBytes (pOptions p))"
        using opt roll(5) by (simp add: options_ok_def)
      ultimately show ?thesis using roll(2-4) log_of_rolled by metis
    qed
  qed
qed

text \<open>A partition with an empty log that starts at offset 41.\<close>

definition example_path :: path where
  "example_path = path_join [0x64] (segment_name 41)"

definition example_options :: PartitionOptions where
  "example_options = zero_options\<lparr>oSegmentBytes := 1073741824, oInitialOffset := 41, oIndexStride := 4096,
     oBatchBytes := MaxBatchBytes, oBatchRecords := 100, oRecordBytes := 1000000, oInFlightBytes := 2000000,
     oInFlightRecords := 16, oAdmissionWaiters := 4\<rparr>"

definition example_partition :: Partition where
  "example_partition = \<lparr>pDir = [0x64], pTopic = 7, pPartition = 3, pOptions = example_options, pStoreID = 5,
     pTail = None, pSegments = [recovered_segment example_path example_header []], pLogEnd = 41,
     pPrefixDigest = None, pClosed = False, pClosing = False, pFetchWake = False, pFetchWaiters = 0, pUnavailable = False\<rparr>"

definition example_world :: "outcome list \<Rightarrow> world" where
  "example_world faults = \<lparr>wFiles = [(example_path, segment_image example_header [])], wFaults = faults\<rparr>"

definition example_bytes :: bytes where
  "example_bytes = batch_bytes (zero_pads (bRecords example_batch)) example_batch"

lemma example_encoded: "EncodeBatch example_batch = Inr example_bytes"
  using encodable_example_batch by (simp add: EncodeBatch_Inr_iff example_bytes_def)

lemma example_inv: "partition_inv (example_world faults) example_partition [[]]"
proof -
  have "segment_inv 7 3 [0x64] (recovered_segment example_path example_header []) []"
    by (simp add: segment_inv_def segment_core_def recovered_segment_def scan_start_def example_header_def
        example_path_def valid_header_def)
  moreover have "log_paths (example_world faults) [0x64] = {example_path}"
    by (auto simp: log_paths_def example_world_def content_def example_path_def)
  ultimately show ?thesis
    by (simp add: partition_image_def stored_def example_partition_def example_world_def content_def)
      (simp add: recovered_segment_def scan_start_def example_header_def)
qed

lemma example_options_ok: "options_ok (pOptions example_partition)"
  by (simp add: options_ok_def example_partition_def example_options_def)

lemma example_append:
  "appendEncodedLocked 1 ([0x70], [0x70]) example_batch example_bytes example_partition w
     = writeActive example_batch example_bytes example_partition w"
proof -
  have "length example_bytes \<le> unat MaxBatchBytes"
    using DecodeBatch_facts(3) [OF decode_encoded [OF example_encoded]] by simp
  moreover have "checkRecordSizes 1000000 [example_record] = Inr ()"
    by (simp add: example_record_def recordEncodedBytes_def andThen_def checkedAdd_def Let_def validHeaderCount_def
        len_def validHeaderName_def)
  ultimately show ?thesis
    by (simp add: appendEncodedLocked_def example_partition_def example_options_def example_batch_def
        recovered_segment_def scan_start_def word_less_nat_alt unat_word_ariths unat_of_nat)
qed

text \<open>C13. An append implements the abstract log: whatever the file system does, when it reports
  success, the returned offset is the old end of the log, the partition's files and segments now hold
  the old log followed by exactly the records of the batch, and the end of the log has moved by their
  number, without wrapping around. Rolling to a new segment does not show.\<close>

theorem append_refines_log:
  assumes "partition_inv w p css" and "options_ok (pOptions p)" and "EncodeBatch batch = Inr encoded"
    and "last (fst ts) = 0x70" and "last (snd ts) = 0x70"
    and "appendEncodedLocked random ts batch encoded p w = (Inr (off, pub), p', w')"
  shows "off = pLogEnd p
    \<and> (\<exists>css'. partition_inv w' p' css' \<and> log_of css' = log_of css @ bRecords batch)
    \<and> unat (pLogEnd p') = unat (pLogEnd p) + length (bRecords batch)"
proof -
  obtain q v qss segments where q: "writeActive batch encoded q v = (Inr (off, pub), p', w')" "partition_inv v q qss"
    "log_of qss = log_of css" "q = p\<lparr>pSegments := segments\<rparr>" "bTopic batch = pTopic p" "bPartition batch = pPartition p"
    "bBaseOffset batch = pLogEnd p"
    "sgSize (last (pSegments q)) + length encoded \<le> unat (oSegmentBytes (pOptions p))"
    using append_steps [OF assms] by auto
  have "off = pLogEnd q" "partition_inv w' p' (butlast qss @ [last qss @ [(encoded, batch)]])"
    "pLogEnd p' = pLogEnd q + of_nat (length (bRecords batch))"
    using writeActive_image [OF q(2) _ assms(3) _ _ _ _ q(1)] assms(2) q(4-8) by auto
  moreover have "qss \<noteq> []" using q(2) by (simp add: partition_image_def)
  moreover have "unat (bBaseOffset batch + of_nat (length (bRecords batch)))
      = unat (bBaseOffset batch) + length (bRecords batch)"
    using DecodeBatch_facts(4-6) [OF decode_encoded [OF assms(3)]]
    by (simp add: unat_word_ariths unat_of_nat)
  ultimately show ?thesis using q(3,4,7) log_of_snoc by auto
qed

theorem append_refines_log_witness:
  "\<exists>p' w' css'. appendEncodedLocked 1 ([0x70], [0x70]) example_batch example_bytes example_partition (example_world [])
      = (Inr (41, None), p', w') \<and> partition_inv w' p' css' \<and> log_of css' = [example_record]"
proof -
  obtain p' w' where run: "appendEncodedLocked 1 ([0x70], [0x70]) example_batch example_bytes example_partition (example_world [])
      = (Inr (41, None), p', w')"
    unfolding example_append
    by (simp add: writeActive_def Let_def example_partition_def example_world_def fileWriteAt_def
        fileSync_def fileEffect_def extendPrefixDigestLocked_def signalFetchWaitersLocked_def example_batch_def)
  show ?thesis
    using append_refines_log [OF example_inv example_options_ok example_encoded _ _ run] run
    by (auto simp: log_of_def example_batch_def)
qed

text \<open>C14. An append that reports an error loses nothing and acknowledges nothing: either it has changed
  neither the partition nor the files, or it has fenced the partition, and then the files still hold
  the whole log, followed by at most a prefix of the batch that was being written (perhaps in a new
  segment that the partition does not list). No later append of this partition is accepted.\<close>

theorem append_failure_keeps_log:
  assumes "partition_inv w p css" and "options_ok (pOptions p)" and "EncodeBatch batch = Inr encoded"
    and "last (fst ts) = 0x70" and "last (snd ts) = 0x70"
    and "appendEncodedLocked random ts batch encoded p w = (Inl e, p', w')"
  shows "(p' = p \<and> w' = w)
    \<or> (pUnavailable p' \<and> ErrPartitionUnavailable \<in> set e \<and> pLogEnd p' = pLogEnd p
       \<and> (\<exists>segments css' k. partition_image w' (p'\<lparr>pSegments := segments\<rparr>) css' (take k encoded)
              \<and> log_of css' = log_of css)
       \<and> (\<forall>random ts b d w. \<exists>e. appendEncodedLocked random ts b d p' w = (Inl e, p', w)))"
proof -
  have fenced: "\<exists>e. appendEncodedLocked random ts b d (q\<lparr>pUnavailable := True\<rparr>) w = (Inl e, q\<lparr>pUnavailable := True\<rparr>, w)"
    for random ts b d q w by (simp add: appendEncodedLocked_def)
  have mark: "partition_image v (q\<lparr>pUnavailable := True\<rparr>) ds tl = partition_image v q ds tl" for v q ds tl
    by (simp add: partition_image_def stored_def [abs_def])
  from append_steps [OF assms]
  consider "p' = p" "w' = w"
    | e' where "e = ErrPartitionUnavailable # e'" "p' = p\<lparr>pUnavailable := True\<rparr>"
        "\<exists>segments css'. partition_inv w' (p\<lparr>pSegments := segments\<rparr>) css' \<and> log_of css' = log_of css"
    | q v qss segments where "writeActive batch encoded q v = (Inl e, p', w')" "partition_inv v q qss"
      "log_of qss = log_of css" "q = p\<lparr>pSegments := segments\<rparr>" "bTopic batch = pTopic p" "bPartition batch = pPartition p"
      "bBaseOffset batch = pLogEnd p" "sgSize (last (pSegments q)) + length encoded \<le> unat (oSegmentBytes (pOptions p))"
    by auto
  then show ?thesis
  proof cases
    case 1
    then show ?thesis by simp
  next
    case 2
    then obtain segments css' where im: "partition_inv w' (p\<lparr>pSegments := segments\<rparr>) css'" "log_of css' = log_of css"
      by blast
    have "p'\<lparr>pSegments := segments\<rparr> = p\<lparr>pSegments := segments, pUnavailable := True\<rparr>" using 2(2) by simp
    then have "partition_image w' (p'\<lparr>pSegments := segments\<rparr>) css' (take 0 encoded)"
      using im(1) mark [of w' "p\<lparr>pSegments := segments\<rparr>" css' "[]"] by simp
    moreover have "pLogEnd p' = pLogEnd p" "pUnavailable p'" "ErrPartitionUnavailable \<in> set e" using 2 by simp_all
    ultimately show ?thesis using fenced 2(2) im(2) by blast
  next
    case 3
    have "ErrPartitionUnavailable \<in> set e" and p': "p' = q\<lparr>pUnavailable := True\<rparr>"
      and im: "\<exists>k. partition_image w' p' qss (take k encoded)"
      using writeActive_image [OF 3(2) _ assms(3) _ _ _ _ 3(1)] assms(2) 3(4-8) by auto
    moreover have "p'\<lparr>pSegments := pSegments p'\<rparr> = p'" by simp
    then have "\<exists>segments k. partition_image w' (p'\<lparr>pSegments := segments\<rparr>) qss (take k encoded)"
      using im by metis
    moreover have "pLogEnd p' = pLogEnd p" "pUnavailable p'" using p' 3(4) by simp_all
    ultimately show ?thesis using 3(3) fenced by blast
  qed
qed

theorem append_failure_keeps_log_witness:
  "\<exists>e p' w' segments css' k. appendEncodedLocked 1 ([0x70], [0x70]) example_batch example_bytes example_partition
        (example_world [Fail 60 [ErrNew]]) = (Inl e, p', w')
      \<and> pUnavailable p' \<and> partition_image w' (p'\<lparr>pSegments := segments\<rparr>) css' (take k example_bytes)
      \<and> log_of css' = []"
proof -
  obtain e p' w' where run: "appendEncodedLocked 1 ([0x70], [0x70]) example_batch example_bytes example_partition
      (example_world [Fail 60 [ErrNew]]) = (Inl e, p', w')" and p': "p' \<noteq> example_partition"
    unfolding example_append
    by (simp add: writeActive_def Let_def example_partition_def example_world_def fileWriteAt_def next_outcome_def)
  show ?thesis
    using append_failure_keeps_log [OF example_inv example_options_ok example_encoded _ _ run] run p'
    by (auto simp: log_of_def)
qed

end
