(* ===== verification/Reopen.thy ===== *)
theory Reopen
  imports Log
begin

text \<open>
  Opening a partition on the files it left behind: the segment files are found, put in order and
  recovered one by one, and the partition that results has the log that the files hold. Together
  with the theory Log this gives durability: what an append acknowledged is there after a restart.
\<close>

section \<open>Segment file names\<close>

lemma parse_digits_snoc: "parse_digits (ds @ [c]) = parse_digits ds * 10 + (unat c - 48)"
  by (simp add: parse_digits_def)

lemma parse_decimal: "n < 10 ^ k \<Longrightarrow> parse_digits (decimal k n) = n"
proof (induction k arbitrary: n)
  case 0
  then show ?case by (simp add: parse_digits_def)
next
  case (Suc k)
  have "48 + n mod 10 < 256" using mod_less_divisor [of 10 n] by linarith
  then have d: "unat (of_nat (48 + n mod 10) :: byte) = 48 + n mod 10"
    by (simp add: unat_of_nat del: of_nat_add)
  have "n div 10 < 10 ^ k" using Suc.prems by (auto simp: less_mult_imp_div_less)
  then show ?case using Suc.IH d by (simp add: parse_digits_snoc del: of_nat_add)
qed

lemma segment_name_parts:
  "length (segment_name b) = 24" "take 20 (segment_name b) = decimal 20 (unat b)"
  "drop 20 (segment_name b) = log_suffix" "parse_digits (decimal 20 (unat b)) = unat b"
  "list_all (\<lambda>c. 48 \<le> c \<and> c \<le> 57) (decimal 20 (unat b))"
  using set_decimal [of 20 "unat b"] parse_decimal [of "unat b" 20] unat_uint64_less [of b]
  by (auto simp: segment_name_def log_suffix_def list_all_iff)

lemma discoverLoop_segments:
  assumes "distinct entries"
    and "\<forall>e \<in> set entries. is_log_name e \<longrightarrow> (\<exists>b. b \<le> maxOffset \<and> b \<notin> seen \<and> e = segment_name b)"
  shows "\<exists>found. discoverLoop dir entries seen files = Inr (files @ found) \<and> distinct (map dsBase found)
    \<and> set found = {\<lparr>dsPath = path_join dir (segment_name b), dsBase = b\<rparr> | b. segment_name b \<in> set entries}"
  using assms
proof (induction entries arbitrary: seen files)
  case (Cons e es)
  show ?case
  proof (cases "is_log_name e")
    case False
    then have "segment_name b \<noteq> e" for b by auto
    moreover have "discoverLoop dir (e # es) seen files = discoverLoop dir es seen files"
      using False by (simp add: is_log_name_def)
    moreover have "\<exists>found. discoverLoop dir es seen files = Inr (files @ found) \<and> distinct (map dsBase found)
      \<and> set found = {\<lparr>dsPath = path_join dir (segment_name b), dsBase = b\<rparr> | b. segment_name b \<in> set es}"
      using Cons.prems by (intro Cons.IH) auto
    ultimately show ?thesis by auto
  next
    case True
    then obtain b where b: "b \<le> maxOffset" "b \<notin> seen" "e = segment_name b" using Cons.prems(2) by auto
    let ?d = "\<lparr>dsPath = path_join dir (segment_name b), dsBase = b\<rparr>"
    have "discoverLoop dir (e # es) seen files = discoverLoop dir es (insert b seen) (files @ [?d])"
      using b True segment_name_parts [of b]
      by (simp add: is_log_name_def Let_def word_le_nat_alt not_less)
    moreover have "\<exists>found. discoverLoop dir es (insert b seen) (files @ [?d]) = Inr ((files @ [?d]) @ found)
      \<and> distinct (map dsBase found)
      \<and> set found = {\<lparr>dsPath = path_join dir (segment_name b), dsBase = b\<rparr> | b. segment_name b \<in> set es}"
      using Cons.prems b(3) by (intro Cons.IH) auto
    ultimately obtain found where f: "discoverLoop dir (e # es) seen files = Inr (files @ ?d # found)"
      "distinct (map dsBase found)"
      "set found = {\<lparr>dsPath = path_join dir (segment_name b), dsBase = b\<rparr> | b. segment_name b \<in> set es}"
      by auto
    moreover have "b \<notin> set (map dsBase found)" using f(3) Cons.prems(1) b(3) by auto
    ultimately show ?thesis using b(3) by (intro exI [of _ "?d # found"]) auto
  qed
qed simp

lemma entry_name_Some: "entry_name dir q = Some name \<longleftrightarrow> q = path_join dir name \<and> 0x2F \<notin> set name"
proof
  assume "entry_name dir q = Some name"
  then have "take (length dir + 1) q = dir @ [0x2F]" "name = drop (length dir + 1) q" "0x2F \<notin> set name"
    by (auto simp: entry_name_def split: if_splits)
  then show "q = path_join dir name \<and> 0x2F \<notin> set name"
    using append_take_drop_id [of "length dir + 1" q] by (simp add: path_join_def)
qed (simp add: entry_name_def path_join_def)

definition discovered :: "segment \<Rightarrow> discoveredSegment" where
  "discovered s = \<lparr>dsPath = sgPath s, dsBase = sBaseOffset (sgHeader s)\<rparr>"

text \<open>Bases of chained segments increase.\<close>

lemma chained_sorted:
  assumes "chained off (ss @ [s]) e" and "\<forall>x \<in> set ss. unat (sBaseOffset (sgHeader x)) < unat (sgEnd x)"
  shows "sorted_wrt (<) (map (\<lambda>s. sBaseOffset (sgHeader s)) (ss @ [s]))"
  using assms
proof (induction ss arbitrary: off)
  case (Cons x ss)
  have ih: "sorted_wrt (<) (map (\<lambda>s. sBaseOffset (sgHeader s)) (ss @ [s]))" using Cons by auto
  have "\<exists>y ys. ss @ [s] = y # ys \<and> sBaseOffset (sgHeader y) = sgEnd x"
    using Cons.prems(1) by (cases ss) auto
  then obtain y ys where y: "ss @ [s] = y # ys" "sBaseOffset (sgHeader y) = sgEnd x" by blast
  have "sBaseOffset (sgHeader x) < sBaseOffset (sgHeader y)" using Cons.prems(2) y(2) by (simp add: word_less_nat_alt)
  then have "sorted_wrt (<) (map (\<lambda>s. sBaseOffset (sgHeader s)) (x # y # ys))"
    using ih unfolding y(1) by (auto dest: less_trans)
  then show ?case using y(1) by (simp only: append_Cons)
qed simp

lemma discoverSegments_image:
  assumes img: "partition_image w p css tail" and quiet: "wFaults w = []"
  shows "\<exists>files. discoverSegments (pDir p) w = (Inr files, w) \<and> files \<noteq> []
    \<and> sort_key dsBase files = map discovered (pSegments p)"
proof -
  obtain ss s dss cs where p: "pSegments p = ss @ [s]" and css: "css = dss @ [cs]"
    and early: "list_all2 (stored w p []) ss dss" and act: "stored w p tail s cs" and ne: "[] \<notin> set dss"
    and ch: "chained (sBaseOffset (sgHeader (hd (ss @ [s])))) (ss @ [s]) (pLogEnd p)"
    and lp: "log_paths w (pDir p) = sgPath ` set (ss @ [s])"
    using img by (auto simp: partition_image_split)
  have seg: "sgPath x = path_join (pDir p) (segment_name (sBaseOffset (sgHeader x)))
      \<and> sBaseOffset (sgHeader x) \<le> maxOffset" if x: "x \<in> set (ss @ [s])" for x
  proof -
    have "\<exists>t ds. stored w p t x ds" using x act list_all2_ex [OF early, of x] by (cases "x = s") auto
    then show ?thesis by (auto simp: stored_def segment_inv_def valid_header_def)
  qed
  define entries where "entries = sort (remdups (List.map_filter (entry_name (pDir p)) (map fst (wFiles w))))"
  have names: "name \<in> set entries \<longleftrightarrow> content w (path_join (pDir p) name) \<noteq> None \<and> 0x2F \<notin> set name" for name
  proof -
    have "name \<in> set entries \<longleftrightarrow> (\<exists>q. q \<in> fst ` set (wFiles w) \<and> entry_name (pDir p) q = Some name)"
      by (force simp: entries_def List.map_filter_def)
    also have "\<dots> \<longleftrightarrow> path_join (pDir p) name \<in> fst ` set (wFiles w) \<and> 0x2F \<notin> set name"
      by (auto simp: entry_name_Some image_iff)
    finally show ?thesis by (simp add: content_def map_of_eq_None_iff del: not_None_eq)
  qed
  have log: "name \<in> set entries \<and> is_log_name name \<longleftrightarrow> (\<exists>x \<in> set (ss @ [s]). name = segment_name (sBaseOffset (sgHeader x)))"
    for name
  proof -
    have "name \<in> set entries \<and> is_log_name name \<longleftrightarrow> path_join (pDir p) name \<in> log_paths w (pDir p)"
      by (auto simp: names log_paths_def log_path_def path_join_def)
    also have "\<dots> \<longleftrightarrow> (\<exists>x \<in> set (ss @ [s]). name = segment_name (sBaseOffset (sgHeader x)))"
      unfolding lp using seg by (auto simp: path_join_def)
    finally show ?thesis .
  qed
  obtain found where f: "discoverLoop (pDir p) entries {} [] = Inr found" "distinct (map dsBase found)"
    "set found = {\<lparr>dsPath = path_join (pDir p) (segment_name b), dsBase = b\<rparr> | b. segment_name b \<in> set entries}"
  proof -
    have l: "\<forall>e \<in> set entries. is_log_name e \<longrightarrow> (\<exists>b. b \<le> maxOffset \<and> b \<notin> {} \<and> e = segment_name b)"
      using log seg by (metis empty_iff)
    have d: "distinct entries" by (simp add: entries_def)
    show thesis
      using discoverLoop_segments [OF d l, of "pDir p" "[]"] by (elim exE conjE) (rule that, simp_all)
  qed
  have "set found = set (map discovered (ss @ [s]))"
  proof -
    have "segment_name b \<in> set entries \<longleftrightarrow> (\<exists>x \<in> set (ss @ [s]). b = sBaseOffset (sgHeader x))" for b
      using log [of "segment_name b"] by simp
    then show ?thesis unfolding f(3) discovered_def using seg by auto
  qed
  moreover have "map dsBase (map discovered (ss @ [s])) = map (\<lambda>s. sBaseOffset (sgHeader s)) (ss @ [s])"
    by (simp add: discovered_def)
  moreover have "sorted_wrt (<) (map (\<lambda>s. sBaseOffset (sgHeader s)) (ss @ [s]))"
    using chained_sorted [OF ch] stored_nonempty [OF early ne] by blast
  ultimately have "sort_key dsBase found = map discovered (ss @ [s])"
    using f(2) by (intro sorted_key_unique [of dsBase])
      (auto simp: strict_sorted_iff distinct_map simp del: map_append map_map)
  moreover have "discoverSegments (pDir p) w = (Inr found, w)"
    using quiet f(1) by (simp add: discoverSegments_def fsReadDir_def entries_def)
  moreover have "found \<noteq> []" using \<open>set found = set (map discovered (ss @ [s]))\<close> by auto
  ultimately show ?thesis using p by auto
qed

section \<open>Loading the indexes of a recovered segment\<close>

lemma readFile_content: "readFile path n w = (r, w') \<Longrightarrow> content w' q = content w q"
  by (auto simp: readFile_def dest: fileReadAt_content split: prod.splits if_splits)

lemma touches_readFile [intro]: "touches S (readFile path n)"
  by (auto simp: touches_def dest: readFile_content)

lemma readIndexFile_content:
  assumes "readIndexFile path w = (r, w')"
  shows "content w' q = content w q"
proof -
  let ?body = "ioThen (fsStat path) (\<lambda>n. if n < unat IndexHeaderBytes \<or> n > unat MaxIndexFileBytes
    then ioReturn (Inl [ErrNew]) else readFile path n)"
  have b: "touches {} ?body" by (intro touches_ioThen touches_reads touches_if touches_ioReturn touches_readFile)
  have "touches {} (\<lambda>w. case ?body w of (r, w) \<Rightarrow> (r, snd (fileClose path w)))"
    unfolding touches_def
  proof (intro allI impI)
    fix w1 r1 w2 q assume "(case ?body w1 of (r, w) \<Rightarrow> (r, snd (fileClose path w))) = (r1, w2)"
    then obtain w3 where "?body w1 = (r1, w3)" "w2 = snd (fileClose path w3)" by (auto split: prod.splits)
    then show "content w2 q = content w1 q" using touchesD [OF b, of w1 r1 w3 q] by simp
  qed
  then have "touches {} (readIndexFile path)" unfolding readIndexFile_def
    by (intro touches_ioThen touches_reads)
  from touchesD [OF this assms] show ?thesis by simp
qed

lemma readIndexFile_quiet_world: "wFaults w = [] \<Longrightarrow> \<exists>r. readIndexFile path w = (r, w)"
  by (auto simp: readIndexFile_def ioThen_def fsOpen_def fsStat_def readFile_def fileReadAt_def Let_def
      fileClose_def fileEffect_def ioReturn_def split: option.splits)

lemma loadOrBuildIndexes_frame:
  assumes "loadOrBuildIndexes sg sid stride w = (sg', w')"
  shows "segment_core sg' = segment_core sg" and "sgOpen sg' = sgOpen sg"
    and "content w' q = content w q" and "wFaults w = [] \<Longrightarrow> w' = w"
proof -
  obtain r1 w1 r2 w2 where r: "readIndexFile (indexPath (sgPath sg) False) w = (r1, w1)"
    "readIndexFile (indexPath (sgPath sg) True) w1 = (r2, w2)" by fastforce
  have w': "w' = w2" and c: "segment_core sg' = segment_core sg \<and> sgOpen sg' = sgOpen sg"
    using assms r by (auto simp: loadOrBuildIndexes_def Let_def segment_core_def split: prod.splits if_splits sum.splits)
  show "segment_core sg' = segment_core sg" "sgOpen sg' = sgOpen sg" using c by simp_all
  show "content w' q = content w q" using w' readIndexFile_content [OF r(1)] readIndexFile_content [OF r(2)] by simp
  show "w' = w" if "wFaults w = []"
    using that r w' readIndexFile_quiet_world [OF that, of "indexPath (sgPath sg) False"]
      readIndexFile_quiet_world [OF that, of "indexPath (sgPath sg) True"] by auto
qed

lemma loadOrBuildIndexes_inv:
  assumes run: "loadOrBuildIndexes (recovered_segment path h cs) sid stride w = (sg, w')"
    and path: "path = path_join dir (segment_name (sBaseOffset h))"
    and h: "valid_header h" "sTopic h = t" "sPartition h = p"
    and cs: "chunks_ok t p (sBaseOffset h) cs" "72 + length (chunk_bytes cs) < 2 ^ 63"
  shows "segment_inv t p dir sg cs" and "sgPath sg = path" and "sgHeader sg = h"
    and "sgSize sg = 72 + length (chunk_bytes cs)" and "sgEnd sg = sBaseOffset h + of_nat (length (chunk_records cs))"
proof -
  let ?r = "recovered_segment path h cs"
  have core: "segment_core sg = ?r"
    using loadOrBuildIndexes_frame(1) [OF run] by (simp add: segment_core_def recovered_segment_def Let_def)
  have ids: "sgPath ?r = path" "sgHeader ?r = h" by (simp_all add: recovered_segment_def Let_def)
  have f: "sgPath sg = path" "sgHeader sg = h" "sgSize sg = 72 + length (chunk_bytes cs)"
    "sgEnd sg = sBaseOffset h + of_nat (length (chunk_records cs))" "sgBatches sg = sgBatches ?r"
    using arg_cong [OF core, of sgPath] arg_cong [OF core, of sgHeader] arg_cong [OF core, of sgSize]
      arg_cong [OF core, of sgEnd] arg_cong [OF core, of sgBatches]
    by (simp_all add: recovered_fields ids)
  show "sgPath sg = path" "sgHeader sg = h" "sgSize sg = 72 + length (chunk_bytes cs)"
    "sgEnd sg = sBaseOffset h + of_nat (length (chunk_records cs))" using f by simp_all
  have "\<exists>os ts. sgOffsetIndex sg = Some os \<and> true_offset_index (sgBatches ?r) os
      \<and> sgTimeIndex sg = Some ts \<and> true_time_index (sgBatches ?r) ts"
    using chunks_batches_ok [OF cs, of path] run
    by (intro loadOrBuildIndexes_true) (simp_all add: recovered_segment_def Let_def)
  then show "segment_inv t p dir sg cs"
    using core f path h cs(1) by (auto simp: segment_inv_def)
qed

section \<open>Recovering the segments\<close>

text \<open>What matters of a segment for its place in the partition.\<close>

definition same_place :: "segment \<Rightarrow> segment \<Rightarrow> bool" where
  "same_place x y \<longleftrightarrow> sgPath x = sgPath y \<and> sgHeader x = sgHeader y \<and> sgSize x = sgSize y \<and> sgEnd x = sgEnd y"

lemma chained_same_place: "list_all2 same_place xs ys \<Longrightarrow> chained off xs e \<longleftrightarrow> chained off ys e"
  by (induction arbitrary: off rule: list_all2_induct) (auto simp: same_place_def)

lemma recover_stored:
  assumes st: "stored w p [] s cs" and ne: "cs \<noteq> []" and quiet: "wFaults w = []"
  shows "recoverSegment (sgPath s) (pTopic p) (pPartition p) False (sBaseOffset (sgHeader s)) w
    = (Inr (recovered_segment (sgPath s) (sgHeader s) cs, sgEnd s), w)"
proof -
  have inv: "segment_inv (pTopic p) (pPartition p) (pDir p) s cs"
    and c: "content w (sgPath s) = Some (segment_image (sgHeader s) cs)"
    using st by (simp_all add: stored_def)
  have fits: "segment_fits (sgPath s) (pTopic p) (pPartition p) (sgHeader s)"
    using inv by (simp add: segment_inv_def segment_fits_def)
  have ok: "chunks_ok (pTopic p) (pPartition p) (sBaseOffset (sgHeader s)) cs" using inv by (simp add: segment_inv_def)
  have "0 < length (chunk_records cs)" "length (chunk_records cs) < 2 ^ 64"
    using segment_inv_end [OF inv ne] unat_uint64_less [of "sgEnd s"] by simp_all
  then have "(of_nat (length (chunk_records cs)) :: uint64) \<noteq> 0"
    by (simp add: word_unat_eq_iff unat_of_nat)
  then have "scRecords (fold scan_chunk cs (scan_start (sgHeader s))) \<noteq> 0"
    by (simp add: fold_scan_records scan_start_def)
  moreover have "sgEnd (recovered_segment (sgPath s) (sgHeader s) cs) = sgEnd s"
    by (simp add: recovered_fields segment_inv_fields(1) [OF inv])
  ultimately show ?thesis using recover_image [OF fits ok c quiet, of False] by simp
qed

text \<open>The loop runs through the sealed segments and arrives at the last one.\<close>

lemma recoverLoop_sealed:
  assumes quiet: "wFaults w = []"
    and "list_all2 (stored w p []) ss dss" and "[] \<notin> set dss" and "chained off (ss @ [s]) e"
    and "acc = [] \<Longrightarrow> off = oInitialOffset options" and "acc \<noteq> [] \<Longrightarrow> expected = off"
  shows "\<exists>opened next. recoverLoop (pTopic p) (pPartition p) options sid (map discovered (ss @ [s])) expected acc w
      = recoverLoop (pTopic p) (pPartition p) options sid [discovered s] next (acc @ opened) w
    \<and> (if acc @ opened = [] then sBaseOffset (sgHeader s) = oInitialOffset options else next = sBaseOffset (sgHeader s))
    \<and> list_all2 (segment_inv (pTopic p) (pPartition p) (pDir p)) opened dss \<and> list_all2 same_place opened ss"
  using assms(2-)
proof (induction ss dss arbitrary: off acc expected rule: list_all2_induct)
  case Nil
  then show ?case by (intro exI [of _ "[]"] exI [of _ expected]) auto
next
  case (Cons x ss ds dss)
  have st: "stored w p [] x ds" and ne: "ds \<noteq> []" using Cons by auto
  have inv: "segment_inv (pTopic p) (pPartition p) (pDir p) x ds" using st by (simp add: stored_def)
  let ?r = "recovered_segment (sgPath x) (sgHeader x) ds"
  obtain o' w2 where load: "loadOrBuildIndexes ?r sid (oIndexStride options) w = (o', w2)" by fastforce
  have w2: "w2 = w" using loadOrBuildIndexes_frame(4) [OF load quiet] .
  have size: "72 + length (chunk_bytes ds) < 2 ^ 63" using st segment_inv_fields(2) [OF inv] by (simp add: stored_def)
  have o': "segment_inv (pTopic p) (pPartition p) (pDir p) o' ds" "same_place o' x"
    using loadOrBuildIndexes_inv [OF load, of "pDir p" "pTopic p" "pPartition p"] size inv segment_inv_fields [OF inv]
    by (simp_all add: same_place_def segment_inv_def)
  have base: "sBaseOffset (sgHeader x) = off" using Cons.prems(2) by simp
  have rec: "recoverSegment (sgPath x) (pTopic p) (pPartition p) False off w = (Inr (?r, sgEnd x), w)"
    using recover_stored [OF st ne quiet] base by simp
  have step: "recoverLoop (pTopic p) (pPartition p) options sid (map discovered ((x # ss) @ [s])) expected acc w
      = recoverLoop (pTopic p) (pPartition p) options sid (map discovered (ss @ [s])) (sgEnd x) (acc @ [o']) w"
    using rec load w2 base Cons.prems(3,4) by (auto simp: discovered_def)
  have "\<exists>opened next. recoverLoop (pTopic p) (pPartition p) options sid (map discovered (ss @ [s])) (sgEnd x) (acc @ [o']) w
      = recoverLoop (pTopic p) (pPartition p) options sid [discovered s] next ((acc @ [o']) @ opened) w
    \<and> (if (acc @ [o']) @ opened = [] then sBaseOffset (sgHeader s) = oInitialOffset options else next = sBaseOffset (sgHeader s))
    \<and> list_all2 (segment_inv (pTopic p) (pPartition p) (pDir p)) opened dss \<and> list_all2 same_place opened ss"
    using Cons.prems(1,2) by (intro Cons.IH) auto
  then obtain opened "next" where "recoverLoop (pTopic p) (pPartition p) options sid (map discovered (ss @ [s])) (sgEnd x) (acc @ [o']) w
      = recoverLoop (pTopic p) (pPartition p) options sid [discovered s] next ((acc @ [o']) @ opened) w"
    "next = sBaseOffset (sgHeader s)"
    "list_all2 (segment_inv (pTopic p) (pPartition p) (pDir p)) opened dss" "list_all2 same_place opened ss"
    by (elim exE conjE) (rule that, simp_all)
  with step o' show ?case by (intro exI [of _ "o' # opened"] exI [of _ "next"]) simp
qed

lemma recoverLoop_last:
  assumes "if acc = [] then sBaseOffset (sgHeader s) = oInitialOffset options else next = sBaseOffset (sgHeader s)"
  shows "recoverLoop t p options sid [discovered s] next acc w =
    (case recoverSegment (sgPath s) t p True (sBaseOffset (sgHeader s)) w of
       (Inl e, w) \<Rightarrow> (Inl e, snd (closeSegments acc w))
     | (Inr (sg, off), w) \<Rightarrow>
         (case loadOrBuildIndexes sg sid (oIndexStride options) w of
            (sg, w) \<Rightarrow> (Inr (acc @ [sg], off), w)))"
  using assms by (auto simp: discovered_def split: prod.splits sum.splits if_splits)

lemma closeSegments_quiet: "wFaults w = [] \<Longrightarrow> closeSegments ss w = ([], w)"
  by (induction ss) (auto simp: fileClose_def fileEffect_def)

lemma segment_inv_closed [simp]: "segment_inv t p dir (s\<lparr>sgOpen := b\<rparr>) cs = segment_inv t p dir s cs"
  by (simp add: segment_inv_def segment_core_def)

section \<open>Opening a partition\<close>

text \<open>The last segment, of which the files may hold the beginning of one more batch.\<close>

text \<open>What the file of the last segment may hold after its complete batches, and what recovery makes of
  it: nothing, a whole batch, or a part of a batch that includes its header.\<close>

definition tail_ok :: "TopicID \<Rightarrow> uint32 \<Rightarrow> uint64 \<Rightarrow> bytes \<Rightarrow> chunk list \<Rightarrow> bool" where
  "tail_ok t p off tail extra \<longleftrightarrow>
     tail = [] \<and> extra = []
     \<or> (\<exists>c b k. DecodeBatch c t p = Inr b \<and> bBaseOffset b = off \<and> 48 \<le> k \<and> k \<le> length c
          \<and> tail = take k c \<and> extra = (if k = length c then [(c, b)] else []))"

lemma recover_active:
  assumes st: "stored w p tail s cs" and quiet: "wFaults w = []"
    and t: "tail_ok (pTopic p) (pPartition p) (sgEnd s) tail extra" and size: "sgSize s + length tail < 2 ^ 63"
  shows "\<exists>w1. recoverSegment (sgPath s) (pTopic p) (pPartition p) True (sBaseOffset (sgHeader s)) w
      = (Inr (recovered_segment (sgPath s) (sgHeader s) (cs @ extra),
              sBaseOffset (sgHeader s) + of_nat (length (chunk_records (cs @ extra)))), w1)
    \<and> wFaults w1 = [] \<and> content w1 (sgPath s) = Some (segment_image (sgHeader s) (cs @ extra))
    \<and> (\<forall>q. q \<noteq> sgPath s \<longrightarrow> content w1 q = content w q)
    \<and> chunks_ok (pTopic p) (pPartition p) (sBaseOffset (sgHeader s)) (cs @ extra)
    \<and> 72 + length (chunk_bytes (cs @ extra)) < 2 ^ 63"
proof -
  let ?h = "sgHeader s" and ?f = "sgPath s"
  have inv: "segment_inv (pTopic p) (pPartition p) (pDir p) s cs"
    and cont: "content w ?f = Some (segment_image ?h cs @ tail)"
    using st by (simp_all add: stored_def)
  have fits: "segment_fits ?f (pTopic p) (pPartition p) ?h"
    using inv by (simp add: segment_inv_def segment_fits_def)
  have ok: "chunks_ok (pTopic p) (pPartition p) (sBaseOffset ?h) cs" using inv by (simp add: segment_inv_def)
  have len: "72 + length (chunk_bytes cs) < 2 ^ 63" using st segment_inv_fields(2) [OF inv] by (simp add: stored_def)
  from t consider "tail = []" "extra = []"
    | c b k where "DecodeBatch c (pTopic p) (pPartition p) = Inr b" "bBaseOffset b = sgEnd s" "48 \<le> k" "k \<le> length c"
        "tail = take k c" "extra = (if k = length c then [(c, b)] else [])"
    unfolding tail_ok_def by blast
  then show ?thesis
  proof cases
    case 1
    then show ?thesis
      using recover_image [OF fits ok _ quiet, of True] cont quiet ok len
      by (intro exI [of _ w]) (simp add: recovered_fields)
  next
    case 2
    let ?w = "if k < length c then put_file ?f (segment_image ?h cs) w else w"
    have ok': "chunks_ok (pTopic p) (pPartition p) (sBaseOffset ?h) (cs @ [(c, b)])"
      using ok 2(1,2) segment_inv_fields(1) [OF inv] by (simp add: chunks_ok_append)
    have "recoverSegment ?f (pTopic p) (pPartition p) True (sBaseOffset ?h) w
        = (Inr (recovered_segment ?f ?h (cs @ extra), sgEnd (recovered_segment ?f ?h (cs @ extra))), ?w)"
      using recover_crash [OF fits ok' 2(4) cont [unfolded 2(5)] quiet] 2(3,4,6) by auto
    moreover have "content ?w ?f = Some (segment_image ?h (cs @ extra))"
      using cont 2 by (auto simp: segment_image_def)
    moreover have "72 + length (chunk_bytes (cs @ extra)) < 2 ^ 63"
      using size segment_inv_fields(2) [OF inv] 2(4-6) by (simp split: if_splits)
    moreover have "chunks_ok (pTopic p) (pPartition p) (sBaseOffset ?h) (cs @ extra)" using ok' ok 2(6) by simp
    ultimately show ?thesis
      using quiet by (intro exI [of _ ?w]) (simp add: recovered_fields)
  qed
qed

lemma openPartition_image:
  assumes img: "partition_image w p css tail" and quiet: "wFaults w = []"
    and t: "tail_ok (pTopic p) (pPartition p) (pLogEnd p) tail extra"
    and size: "sgSize (last (pSegments p)) + length tail < 2 ^ 63"
    and opts: "newPartitionTail options = Inr t" "startWriter newRing options = Inr n"
      "oInitialOffset options = sBaseOffset (sgHeader (hd (pSegments p)))"
  shows "\<exists>p' w' css'. openPartition newRing random (pDir p) (pTopic p) (pPartition p) options sid w = (Inr p', w')
    \<and> partition_inv w' p' css' \<and> log_of css' = log_of css @ chunk_records extra
    \<and> pTopic p' = pTopic p \<and> pPartition p' = pPartition p \<and> pDir p' = pDir p \<and> pOptions p' = options
    \<and> \<not> pUnavailable p' \<and> \<not> pClosed p' \<and> wFaults w' = []
    \<and> sBaseOffset (sgHeader (hd (pSegments p'))) = oInitialOffset options"
proof -
  obtain ss s dss cs where p: "pSegments p = ss @ [s]" and css: "css = dss @ [cs]"
    and early: "list_all2 (stored w p []) ss dss" and act: "stored w p tail s cs" and ne: "[] \<notin> set dss"
    and ch: "chained (sBaseOffset (sgHeader (hd (ss @ [s])))) (ss @ [s]) (pLogEnd p)"
    and lp: "log_paths w (pDir p) = sgPath ` set (ss @ [s])"
    using img by (auto simp: partition_image_split)
  let ?off = "sBaseOffset (sgHeader (hd (ss @ [s])))"
  obtain files where d: "discoverSegments (pDir p) w = (Inr files, w)" "files \<noteq> []"
    "sort_key dsBase files = map discovered (ss @ [s])"
    using discoverSegments_image [OF img quiet] p by auto
  have inv: "segment_inv (pTopic p) (pPartition p) (pDir p) s cs" using act by (simp add: stored_def)
  have t': "tail_ok (pTopic p) (pPartition p) (sgEnd s) tail extra" using ch t by (simp add: chained_snoc)
  have ssz: "sgSize s + length tail < 2 ^ 63" using size p by simp
  define cs' where "cs' = cs @ extra"
  obtain w1 where r: "recoverSegment (sgPath s) (pTopic p) (pPartition p) True (sBaseOffset (sgHeader s)) w
      = (Inr (recovered_segment (sgPath s) (sgHeader s) cs',
              sBaseOffset (sgHeader s) + of_nat (length (chunk_records cs'))), w1)"
    and q1: "wFaults w1 = []"
    and cont: "content w1 (sgPath s) = Some (segment_image (sgHeader s) cs')"
    and oth: "\<forall>q. q \<noteq> sgPath s \<longrightarrow> content w1 q = content w q"
    and ok: "chunks_ok (pTopic p) (pPartition p) (sBaseOffset (sgHeader s)) cs'"
    and sz: "72 + length (chunk_bytes cs') < 2 ^ 63"
    using recover_active [OF act quiet t' ssz, folded cs'_def] by (elim exE conjE) (rule that)
  let ?stop = "sBaseOffset (sgHeader s) + of_nat (length (chunk_records cs'))"
  obtain sg w2 where ld: "loadOrBuildIndexes (recovered_segment (sgPath s) (sgHeader s) cs') sid (oIndexStride options) w1 = (sg, w2)"
    by fastforce
  have w2: "w2 = w1" using loadOrBuildIndexes_frame(4) [OF ld q1] .
  note sg = loadOrBuildIndexes_inv [OF ld, of "pDir p" "pTopic p" "pPartition p"]
  have sg': "segment_inv (pTopic p) (pPartition p) (pDir p) sg cs'" "sgPath sg = sgPath s" "sgHeader sg = sgHeader s"
    "sgSize sg < 2 ^ 63" "sgEnd sg = ?stop"
    using sg inv ok sz by (simp_all add: segment_inv_def)
  have off: "?off = oInitialOffset options" using opts(3) p by simp
  obtain opened "next" where op: "recoverLoop (pTopic p) (pPartition p) options sid (map discovered (ss @ [s])) 0 [] w
      = recoverLoop (pTopic p) (pPartition p) options sid [discovered s] next opened w"
    and nx: "if opened = [] then sBaseOffset (sgHeader s) = oInitialOffset options else next = sBaseOffset (sgHeader s)"
    and oi: "list_all2 (segment_inv (pTopic p) (pPartition p) (pDir p)) opened dss" and os: "list_all2 same_place opened ss"
  proof -
    have "\<exists>opened next. recoverLoop (pTopic p) (pPartition p) options sid (map discovered (ss @ [s])) 0 [] w
      = recoverLoop (pTopic p) (pPartition p) options sid [discovered s] next opened w
      \<and> (if opened = [] then sBaseOffset (sgHeader s) = oInitialOffset options else next = sBaseOffset (sgHeader s))
      \<and> list_all2 (segment_inv (pTopic p) (pPartition p) (pDir p)) opened dss \<and> list_all2 same_place opened ss"
      using recoverLoop_sealed [OF quiet early ne ch, of "[]" options 0 sid] off by (simp only: append_Nil simp_thms)
    then show thesis by (elim exE conjE) (rule that)
  qed
  let ?segs = "map (\<lambda>s. s\<lparr>sgOpen := False\<rparr>) opened @ [sg]"
  define p' where "p' = \<lparr>pDir = pDir p, pTopic = pTopic p, pPartition = pPartition p, pOptions = options,
    pStoreID = sid, pTail = t, pSegments = ?segs, pLogEnd = ?stop, pPrefixDigest = None, pClosed = False,
    pClosing = False, pFetchWake = False, pFetchWaiters = 0, pUnavailable = False\<rparr>"
  have run: "openPartition newRing random (pDir p) (pTopic p) (pPartition p) options sid w = (Inr p', w1)"
    using opts(1,2) d op recoverLoop_last [OF nx] r ld w2 closeSegments_quiet [OF q1]
    by (simp add: openPartition_def releaseSealedHandles_def p'_def)
  have other: "sgPath x \<noteq> sgPath s" if "x \<in> set ss" for x
    using earlier_paths [OF early ne ch _ that, of "sBaseOffset (sgHeader s)"] ch inv
    by (auto simp: chained_snoc segment_inv_def)
  have same: "list_all2 same_place (map (\<lambda>s. s\<lparr>sgOpen := False\<rparr>) opened) ss"
    using os by (simp add: list_all2_map1 same_place_def [abs_def])
  have "list_all2 (stored w1 p' []) (map (\<lambda>s. s\<lparr>sgOpen := False\<rparr>) opened) dss"
    unfolding list_all2_conv_all_nth
  proof (intro conjI allI impI)
    show "length (map (\<lambda>s. s\<lparr>sgOpen := False\<rparr>) opened) = length dss" using oi by (simp add: list_all2_lengthD)
    fix i assume "i < length (map (\<lambda>s. s\<lparr>sgOpen := False\<rparr>) opened)"
    then have i: "i < length opened" "i < length ss" using list_all2_lengthD [OF os] by simp_all
    then have "segment_inv (pTopic p) (pPartition p) (pDir p) (opened ! i) (dss ! i)" "same_place (opened ! i) (ss ! i)"
      "stored w p [] (ss ! i) (dss ! i)"
      using oi os early by (simp_all add: list_all2_conv_all_nth)
    moreover have "content w1 (sgPath (ss ! i)) = content w (sgPath (ss ! i))" using oth other i by simp
    ultimately show "stored w1 p' [] (map (\<lambda>s. s\<lparr>sgOpen := False\<rparr>) opened ! i) (dss ! i)"
      using i by (simp add: stored_def same_place_def p'_def)
  qed
  moreover have "stored w1 p' [] sg cs'" using sg' cont by (simp add: stored_def p'_def)
  moreover have hd: "sBaseOffset (sgHeader (hd ?segs)) = ?off"
    using os sg'(3) by (cases opened; cases ss) (auto simp: same_place_def)
  moreover have "chained (sBaseOffset (sgHeader (hd ?segs))) ?segs ?stop"
  proof -
    have "chained ?off ss (sBaseOffset (sgHeader s))" using ch by (simp add: chained_snoc)
    then have c: "chained ?off (map (\<lambda>s. s\<lparr>sgOpen := False\<rparr>) opened) (sBaseOffset (sgHeader s))"
      using chained_same_place [OF same] by simp
    then show ?thesis using sg'(3,5) hd by (simp add: chained_snoc)
  qed
  moreover have "log_paths w1 (pDir p) = sgPath ` set ?segs"
  proof -
    have "content w1 q = None \<longleftrightarrow> content w q = None" for q
      using oth cont act by (cases "q = sgPath s") (simp_all add: stored_def)
    then have "log_paths w1 (pDir p) = sgPath ` set (ss @ [s])" using log_paths_cong lp by metis
    moreover have "map sgPath (map (\<lambda>s. s\<lparr>sgOpen := False\<rparr>) opened) = map sgPath ss"
      using same by (simp add: list_eq_iff_nth_eq list_all2_conv_all_nth same_place_def)
    then have "sgPath ` set (map (\<lambda>s. s\<lparr>sgOpen := False\<rparr>) opened) = sgPath ` set ss" by (metis set_map)
    ultimately show ?thesis using sg'(2) by simp
  qed
  ultimately have "partition_inv w1 p' (dss @ [cs'])"
    unfolding partition_image_split using ne
    by (intro exI [of _ "map (\<lambda>s. s\<lparr>sgOpen := False\<rparr>) opened"] exI [of _ sg] exI [of _ dss] exI [of _ cs'])
      (simp add: p'_def)
  moreover have "log_of (dss @ [cs']) = log_of css @ chunk_records extra"
    using css by (simp add: log_of_def cs'_def)
  ultimately show ?thesis using run q1 by (intro exI [of _ p'] exI [of _ w1] exI [of _ "dss @ [cs']"])
      (use hd off in \<open>simp add: p'_def\<close>)
qed

lemma openPartition_fragment:
  assumes img: "partition_image w p css (take k c)" and quiet: "wFaults w = []"
    and dec: "DecodeBatch c (pTopic p) (pPartition p) = Inr b" "bBaseOffset b = pLogEnd p"
    and k: "0 < k" "k < 48"
    and opts: "newPartitionTail options = Inr t"
      "oInitialOffset options = sBaseOffset (sgHeader (hd (pSegments p)))"
  shows "\<exists>w'. openPartition newRing random (pDir p) (pTopic p) (pPartition p) options sid w
    = (Inl (corrupt ErrInvalidBatch), w')"
proof -
  obtain ss s dss cs where p: "pSegments p = ss @ [s]" and css: "css = dss @ [cs]"
    and early: "list_all2 (stored w p []) ss dss" and act: "stored w p (take k c) s cs" and ne: "[] \<notin> set dss"
    and ch: "chained (sBaseOffset (sgHeader (hd (ss @ [s])))) (ss @ [s]) (pLogEnd p)"
    using img by (auto simp: partition_image_split)
  obtain files where d: "discoverSegments (pDir p) w = (Inr files, w)" "files \<noteq> []"
    "sort_key dsBase files = map discovered (ss @ [s])"
    using discoverSegments_image [OF img quiet] p by auto
  have inv: "segment_inv (pTopic p) (pPartition p) (pDir p) s cs"
    and cont: "content w (sgPath s) = Some (segment_image (sgHeader s) cs @ take k c)"
    using act by (simp_all add: stored_def)
  have fits: "segment_fits (sgPath s) (pTopic p) (pPartition p) (sgHeader s)"
    using inv by (simp add: segment_inv_def segment_fits_def)
  have ok: "chunks_ok (pTopic p) (pPartition p) (sBaseOffset (sgHeader s)) (cs @ [(c, b)])"
    using inv dec ch segment_inv_fields(1) [OF inv] by (simp add: segment_inv_def chunks_ok_append chained_snoc)
  have "k \<le> length c" using DecodeBatch_facts(2) [OF dec(1)] k by simp
  then have r: "recoverSegment (sgPath s) (pTopic p) (pPartition p) True (sBaseOffset (sgHeader s)) w
      = (Inl (corrupt ErrInvalidBatch), w)"
    using recover_crash [OF fits ok _ cont quiet] k by simp
  have off: "sBaseOffset (sgHeader (hd (ss @ [s]))) = oInitialOffset options" using opts(2) p by simp
  have "\<exists>opened next. recoverLoop (pTopic p) (pPartition p) options sid (map discovered (ss @ [s])) 0 [] w
      = recoverLoop (pTopic p) (pPartition p) options sid [discovered s] next opened w
    \<and> (if opened = [] then sBaseOffset (sgHeader s) = oInitialOffset options else next = sBaseOffset (sgHeader s))"
    using recoverLoop_sealed [OF quiet early ne ch, of "[]" options 0 sid] off by (auto simp only: append_Nil simp_thms)
  then obtain opened "next" where "recoverLoop (pTopic p) (pPartition p) options sid (map discovered (ss @ [s])) 0 [] w
      = recoverLoop (pTopic p) (pPartition p) options sid [discovered s] next opened w"
    "if opened = [] then sBaseOffset (sgHeader s) = oInitialOffset options else next = sBaseOffset (sgHeader s)"
    by (elim exE conjE) (rule that)
  then show ?thesis using opts(1) d recoverLoop_last r by (simp add: openPartition_def)
qed

lemma image_end:
  assumes "partition_image w p css tail"
  shows "pLogEnd p = sBaseOffset (sgHeader (hd (pSegments p))) + of_nat (length (log_of css))"
proof -
  obtain ss s dss cs where p: "pSegments p = ss @ [s]" and css: "css = dss @ [cs]"
    and early: "list_all2 (stored w p []) ss dss" and act: "stored w p tail s cs"
    and ch: "chained (sBaseOffset (sgHeader (hd (ss @ [s])))) (ss @ [s]) (pLogEnd p)"
    using assms by (auto simp: partition_image_split)
  have one: "sgEnd x = sBaseOffset (sgHeader x) + of_nat (length (chunk_records ds))" if "stored w p t x ds" for t x ds
    using that segment_inv_fields(1) by (auto simp: stored_def)
  have "e = off + of_nat (length (log_of (dss @ [cs])))" if "chained off (ss @ [s]) e" for off e
    using early that
  proof (induction ss dss arbitrary: off rule: list_all2_induct)
    case Nil
    then show ?case using one [OF act] by (auto simp: log_of_def)
  next
    case (Cons x ss ds dss)
    have "e = sgEnd x + of_nat (length (log_of (dss @ [cs])))" using Cons.IH Cons.prems by simp
    then show ?case using one [OF Cons(1)] Cons.prems by (auto simp: log_of_def)
  qed
  from this [OF ch] show ?thesis using p css by simp
qed

lemma append_static:
  assumes "appendEncodedLocked random ts batch c p w = (r, p', w')"
  shows "pTopic p' = pTopic p" and "pPartition p' = pPartition p" and "pDir p' = pDir p" and "pOptions p' = pOptions p"
proof -
  have wa: "pTopic p' = pTopic q \<and> pPartition p' = pPartition q \<and> pDir p' = pDir q \<and> pOptions p' = pOptions q"
    if "writeActive batch c q v = (r, p', w')" for q v
    using that by (auto simp: writeActive_def Let_def extendPrefixDigestLocked_def signalFetchWaitersLocked_def
        split: prod.splits if_splits sum.splits option.splits)
  have ro: "pTopic q = pTopic p \<and> pPartition q = pPartition p \<and> pDir q = pDir p \<and> pOptions q = pOptions p"
    if "rollSegment random ts p w = (Inr q, v)" for q v
    using that by (auto simp: rollSegment_def split: prod.splits sum.splits)
  have "pTopic p' = pTopic p \<and> pPartition p' = pPartition p \<and> pDir p' = pDir p \<and> pOptions p' = pOptions p"
  proof -
    have "p' = p \<or> p' = p\<lparr>pUnavailable := True\<rparr> \<or> writeActive batch c p w = (r, p', w')
      \<or> (\<exists>q v. rollSegment random ts p w = (Inr q, v) \<and> writeActive batch c q v = (r, p', w'))"
      using assms by (auto simp: appendEncodedLocked_def Let_def split: if_splits sum.splits prod.splits)
    then show ?thesis
    proof (elim disjE exE conjE)
      assume "writeActive batch c p w = (r, p', w')"
      then show ?thesis by (rule wa)
    next
      fix q v assume a: "rollSegment random ts p w = (Inr q, v)" and b: "writeActive batch c q v = (r, p', w')"
      show ?thesis using wa [OF b] ro [OF a] by simp
    qed simp_all
  qed
  then show "pTopic p' = pTopic p" "pPartition p' = pPartition p" "pDir p' = pDir p" "pOptions p' = pOptions p" by auto
qed

lemma partition_image_faults [simp]: "partition_image (w\<lparr>wFaults := fs\<rparr>) p css tail = partition_image w p css tail"
  by (simp add: partition_image_def stored_def [abs_def] log_paths_def content_def)

definition log_start :: "Partition \<Rightarrow> uint64" where
  "log_start p = sBaseOffset (sgHeader (hd (pSegments p)))"

lemma append_success_image:
  assumes "partition_inv w p css" and "options_ok (pOptions p)" and "EncodeBatch batch = Inr encoded"
    and "last (fst ts) = 0x70" and "last (snd ts) = 0x70"
    and "appendEncodedLocked random ts batch encoded p w = (Inr (off, pub), p', w')"
  shows "\<exists>css'. partition_inv w' p' css' \<and> log_of css' = log_of css @ bRecords batch"
    and "pLogEnd p' = pLogEnd p + of_nat (length (bRecords batch))"
proof -
  obtain q v qss segments where q: "writeActive batch encoded q v = (Inr (off, pub), p', w')" "partition_inv v q qss"
    "log_of qss = log_of css" "q = p\<lparr>pSegments := segments\<rparr>" "bTopic batch = pTopic p" "bPartition batch = pPartition p"
    "bBaseOffset batch = pLogEnd p"
    "sgSize (last (pSegments q)) + length encoded \<le> unat (oSegmentBytes (pOptions p))"
    using append_steps [OF assms] by auto
  have "partition_inv w' p' (butlast qss @ [last qss @ [(encoded, batch)]])"
    "pLogEnd p' = pLogEnd q + of_nat (length (bRecords batch))"
    using writeActive_image [OF q(2) _ assms(3) _ _ _ _ q(1)] assms(2) q(4-8) by auto
  moreover have "qss \<noteq> []" using q(2) by (simp add: partition_image_def)
  ultimately show "\<exists>css'. partition_inv w' p' css' \<and> log_of css' = log_of css @ bRecords batch"
    "pLogEnd p' = pLogEnd p + of_nat (length (bRecords batch))"
    using q(3,4) log_of_snoc by auto
qed

text \<open>C11. Durability: when an append has reported success, opening the partition again on the files it
  left behind succeeds, and the log is the old log followed by the records of the batch; its end is
  the end that the writer had. The append may have run into any I/O failures that it tolerates, such
  as a failed checkpoint of the indexes of a sealed segment.\<close>

theorem acknowledged_append_survives_restart:
  assumes "partition_inv w p css" and "options_ok (pOptions p)" and "EncodeBatch batch = Inr encoded"
    and "last (fst ts) = 0x70" and "last (snd ts) = 0x70"
    and "appendEncodedLocked random ts batch encoded p w = (Inr (off, pub), p', w')"
    and "newPartitionTail options = Inr t" and "startWriter newRing options = Inr n"
    and "oInitialOffset options = log_start p"
  shows "\<exists>p'' w'' css''.
      openPartition newRing random' (pDir p) (pTopic p) (pPartition p) options sid (w'\<lparr>wFaults := []\<rparr>) = (Inr p'', w'')
    \<and> partition_inv w'' p'' css'' \<and> log_of css'' = log_of css @ bRecords batch \<and> pLogEnd p'' = pLogEnd p'"
proof -
  obtain css' where im: "partition_inv w' p' css'" "log_of css' = log_of css @ bRecords batch"
    using append_success_image(1) [OF assms(1-6)] by blast
  note st = append_static [OF assms(6)]
  have le': "pLogEnd p' = log_start p' + of_nat (length (log_of css'))"
    using image_end [OF im(1)] by (simp add: log_start_def)
  have start: "log_start p' = log_start p"
    using le' image_end [OF assms(1)] append_success_image(2) [OF assms(1-6)] im(2) by (simp add: log_start_def)
  have "sgSize (last (pSegments p')) < 2 ^ 63" using im(1) by (simp add: partition_image_def stored_def)
  then obtain p'' w'' css'' where op: "openPartition newRing random' (pDir p') (pTopic p') (pPartition p') options sid
      (w'\<lparr>wFaults := []\<rparr>) = (Inr p'', w'')" "partition_inv w'' p'' css''" "log_of css'' = log_of css'" "log_start p'' = log_start p"
    using openPartition_image [of "w'\<lparr>wFaults := []\<rparr>" p' css' "[]" "[]" options t newRing n random' sid]
      im(1) assms(7-9) start by (auto simp: tail_ok_def log_start_def)
  moreover have "pLogEnd p'' = pLogEnd p'"
    using image_end [OF op(2)] le' start op(3,4) by (simp add: log_start_def)
  ultimately show ?thesis using st im(2) by auto
qed

lemma example_reopen:
  "newPartitionTail example_options = Inr None" "startWriter (\<lambda>_. Inr ()) example_options = Inr 32"
  "oInitialOffset example_options = log_start example_partition"
proof -
  show "newPartitionTail example_options = Inr None"
    by (simp add: newPartitionTail_def example_options_def zero_options_def)
  have "ingressCapacity 16 = Inr 32" by code_simp
  then show "startWriter (\<lambda>_. Inr ()) example_options = Inr 32"
    by (simp add: startWriter_def example_options_def andThen_def)
  show "oInitialOffset example_options = log_start example_partition"
    by (simp add: log_start_def example_partition_def example_options_def recovered_segment_def
        example_header_def Let_def)
qed

theorem acknowledged_append_survives_restart_witness:
  "\<exists>p' w' p'' w'' css''.
     appendEncodedLocked 1 ([0x70], [0x70]) example_batch example_bytes example_partition (example_world [])
       = (Inr (41, None), p', w')
     \<and> openPartition (\<lambda>_. Inr ()) 2 [0x64] 7 3 example_options 5 (w'\<lparr>wFaults := []\<rparr>) = (Inr p'', w'')
     \<and> partition_inv w'' p'' css'' \<and> log_of css'' = [example_record]"
proof -
  obtain p' w' where run: "appendEncodedLocked 1 ([0x70], [0x70]) example_batch example_bytes example_partition (example_world [])
      = (Inr (41, None), p', w')"
    unfolding example_append
    by (simp add: writeActive_def Let_def example_partition_def example_world_def fileWriteAt_def
        fileSync_def fileEffect_def extendPrefixDigestLocked_def signalFetchWaitersLocked_def example_batch_def)
  have "\<exists>p'' w'' css''. openPartition (\<lambda>_. Inr ()) 2 [0x64] 7 3 example_options 5 (w'\<lparr>wFaults := []\<rparr>) = (Inr p'', w'')
     \<and> partition_inv w'' p'' css'' \<and> log_of css'' = [example_record]"
    using acknowledged_append_survives_restart [OF example_inv example_options_ok example_encoded _ _ run example_reopen,
        of 2 5] by (auto simp: log_of_def example_batch_def example_partition_def)
  then show ?thesis using run by blast
qed

text \<open>The files of \<open>p\<close> hold \<open>log\<close>, and perhaps the first bytes of the batch \<open>c\<close> that would follow.\<close>

definition torn_image :: "world \<Rightarrow> Partition \<Rightarrow> Record list \<Rightarrow> bytes \<Rightarrow> RecordBatch \<Rightarrow> bool" where
  "torn_image w p log c b \<longleftrightarrow>
     (\<exists>segments css k. partition_image w (p\<lparr>pSegments := segments\<rparr>) css (take k c) \<and> log_of css = log
        \<and> sgSize (last segments) + length (take k c) < 2 ^ 63 \<and> k \<le> length c
        \<and> (0 < k \<longrightarrow> DecodeBatch c (pTopic p) (pPartition p) = Inr b \<and> bBaseOffset b = pLogEnd p))"

lemma torn_imageI:
  assumes "partition_inv w (p\<lparr>pSegments := segments\<rparr>) css" and "log_of css = log"
  shows "torn_image w p log c b"
  unfolding torn_image_def using assms
  by (intro exI [of _ segments] exI [of _ css] exI [of _ 0]) (simp add: partition_image_def stored_def)

lemma append_failure_torn:
  assumes "partition_inv w p css" and "options_ok (pOptions p)" and "EncodeBatch batch = Inr encoded"
    and "last (fst ts) = 0x70" and "last (snd ts) = 0x70"
    and "appendEncodedLocked random ts batch encoded p w = (Inl e, p', w')"
  shows "torn_image w' p (log_of css) encoded batch"
proof -
  from append_steps [OF assms]
  consider "p' = p" "w' = w"
    | segments css' where "partition_inv w' (p\<lparr>pSegments := segments\<rparr>) css'" "log_of css' = log_of css"
    | q v qss segments where "writeActive batch encoded q v = (Inl e, p', w')" "partition_inv v q qss"
      "log_of qss = log_of css" "q = p\<lparr>pSegments := segments\<rparr>" "bTopic batch = pTopic p" "bPartition batch = pPartition p"
      "bBaseOffset batch = pLogEnd p" "sgSize (last (pSegments q)) + length encoded \<le> unat (oSegmentBytes (pOptions p))"
    by auto
  then show ?thesis
  proof cases
    case 1
    moreover have "p\<lparr>pSegments := pSegments p\<rparr> = p" by simp
    ultimately show ?thesis using torn_imageI [where segments = "pSegments p" and css = css] assms(1) by simp
  next
    case 2
    then show ?thesis by (rule torn_imageI)
  next
    case 3
    obtain k where k: "k \<le> length encoded" "partition_image w' p' qss (take k encoded)" "p' = q\<lparr>pUnavailable := True\<rparr>"
      using writeActive_image [OF 3(2) _ assms(3) _ _ _ _ 3(1)] assms(2) 3(4-8) by auto
    then have "partition_image w' q qss (take k encoded)"
      by (simp add: partition_image_def stored_def [abs_def])
    moreover have "sgSize (last segments) + length (take k encoded) < 2 ^ 63"
      using 3(4,8) assms(2) k(1) by (simp add: options_ok_def)
    ultimately show ?thesis unfolding torn_image_def using 3(3-7) k(1) decode_encoded [OF assms(3)]
      by (intro exI [of _ segments] exI [of _ qss] exI [of _ k]) simp
  qed
qed

lemma torn_restart:
  assumes "torn_image w p log c b" and "newPartitionTail options = Inr t" and "startWriter newRing options = Inr n"
    and "oInitialOffset options = pLogEnd p - of_nat (length log)"
  shows "case openPartition newRing random (pDir p) (pTopic p) (pPartition p) options sid (w\<lparr>wFaults := []\<rparr>) of
      (Inr p', w') \<Rightarrow> \<exists>css'. partition_inv w' p' css' \<and> log_of css' \<in> {log, log @ bRecords b}
    | (Inl err, w') \<Rightarrow> err = corrupt ErrInvalidBatch"
proof -
  obtain segments css k where im: "partition_image w (p\<lparr>pSegments := segments\<rparr>) css (take k c)"
    and lg: "log_of css = log" and sz: "sgSize (last segments) + length (take k c) < 2 ^ 63" and k: "k \<le> length c"
    and dec: "0 < k \<longrightarrow> DecodeBatch c (pTopic p) (pPartition p) = Inr b \<and> bBaseOffset b = pLogEnd p"
    using assms(1) unfolding torn_image_def by (elim exE conjE) (rule that)
  let ?p = "p\<lparr>pSegments := segments\<rparr>" and ?w = "w\<lparr>wFaults := []\<rparr>"
  have start: "sBaseOffset (sgHeader (hd segments)) = oInitialOffset options"
    using image_end [OF im] lg assms(4) by simp
  show ?thesis
  proof (cases "0 < k \<and> k < 48")
    case True
    have "\<exists>w'. openPartition newRing random (pDir ?p) (pTopic ?p) (pPartition ?p) options sid ?w
        = (Inl (corrupt ErrInvalidBatch), w')"
      using im True conjunct1 [OF mp [OF dec]] conjunct2 [OF mp [OF dec]] assms(2) start
      by (intro openPartition_fragment [where k = k and css = css and b = b]) simp_all
    then show ?thesis by auto
  next
    case False
    define extra where "extra = (if 0 < k \<and> k = length c then [(c, b)] else [])"
    have "tail_ok (pTopic ?p) (pPartition ?p) (pLogEnd ?p) (take k c) extra"
    proof (cases "k = 0")
      case False
      then show ?thesis
        unfolding tail_ok_def extra_def using \<open>\<not> (0 < k \<and> k < 48)\<close> dec k
        by (intro disjI2 exI [of _ c] exI [of _ b] exI [of _ k]) auto
    qed (simp add: tail_ok_def extra_def)
    then have "\<exists>p' w' css'. openPartition newRing random (pDir ?p) (pTopic ?p) (pPartition ?p) options sid ?w = (Inr p', w')
      \<and> partition_inv w' p' css' \<and> log_of css' = log_of css @ chunk_records extra"
      using openPartition_image [of ?w ?p css "take k c" extra options t newRing n random sid] im sz assms(2,3) start
      by auto
    then obtain p' w' css' where "openPartition newRing random (pDir p) (pTopic p) (pPartition p) options sid ?w = (Inr p', w')"
      "partition_inv w' p' css'" "log_of css' = log_of css @ chunk_records extra" by auto
    then show ?thesis using lg by (auto simp: extra_def intro!: exI [of _ css'])
  qed
qed



section \<open>Offsets of the log\<close>

definition numbered :: "uint64 \<Rightarrow> Record list \<Rightarrow> bool" where
  "numbered off rs \<longleftrightarrow> (\<forall>k < length rs. rOffset (rs ! k) = off + of_nat k)"

lemma numbered_Nil [simp]: "numbered off []"
  by (simp add: numbered_def)

lemma numbered_append [simp]:
  "numbered off (xs @ ys) \<longleftrightarrow> numbered off xs \<and> numbered (off + of_nat (length xs)) ys"
proof
  assume n: "numbered off (xs @ ys)"
  have "rOffset (xs ! k) = off + of_nat k" if "k < length xs" for k
    using n [unfolded numbered_def, rule_format, of k] that by (simp add: nth_append)
  moreover have "rOffset (ys ! k) = off + of_nat (length xs) + of_nat k" if "k < length ys" for k
    using n [unfolded numbered_def, rule_format, of "length xs + k"] that by (simp add: nth_append add.assoc)
  ultimately show "numbered off xs \<and> numbered (off + of_nat (length xs)) ys" by (simp add: numbered_def)
next
  assume n: "numbered off xs \<and> numbered (off + of_nat (length xs)) ys"
  show "numbered off (xs @ ys)"
    unfolding numbered_def
  proof (intro allI impI)
    fix k assume k: "k < length (xs @ ys)"
    show "rOffset ((xs @ ys) ! k) = off + of_nat k"
    proof (cases "k < length xs")
      case True
      then show ?thesis using n by (simp add: numbered_def nth_append)
    next
      case False
      then have "rOffset (ys ! (k - length xs)) = off + of_nat (length xs) + of_nat (k - length xs)"
        using n k by (auto simp: numbered_def)
      moreover have "(of_nat (length xs) :: uint64) + of_nat (k - length xs) = of_nat k"
        using False by (simp flip: of_nat_add)
      ultimately show ?thesis using False by (simp add: nth_append add.assoc)
    qed
  qed
qed

lemma numbered_chunks: "chunks_ok t p off cs \<Longrightarrow> numbered off (chunk_records cs)"
proof (induction t p off cs rule: chunks_ok.induct)
  case (2 t p off c b cs)
  then have "numbered off (bRecords b)"
    using DecodeBatch_facts(8) [of c t p b] by (auto simp: numbered_def encodable_batch_def all_index_nth record_in_batch_def)
  then show ?case using 2 by simp
qed simp

lemma numbered_image:
  assumes "partition_image w p css tail"
  shows "numbered (sBaseOffset (sgHeader (hd (pSegments p)))) (log_of css)"
proof -
  obtain ss s dss cs where p: "pSegments p = ss @ [s]" and css: "css = dss @ [cs]"
    and early: "list_all2 (stored w p []) ss dss" and act: "stored w p tail s cs"
    and ch: "chained (sBaseOffset (sgHeader (hd (ss @ [s])))) (ss @ [s]) (pLogEnd p)"
    using assms by (auto simp: partition_image_split)
  have one: "sgEnd x = sBaseOffset (sgHeader x) + of_nat (length (chunk_records ds))"
    "numbered (sBaseOffset (sgHeader x)) (chunk_records ds)" if "stored w p t x ds" for t x ds
    using that segment_inv_fields(1) numbered_chunks by (auto simp: stored_def segment_inv_def)
  have "numbered off (log_of (dss @ [cs]))" if "chained off (ss @ [s]) e" for off e
    using early that
  proof (induction ss dss arbitrary: off rule: list_all2_induct)
    case Nil
    then show ?case using one [OF act] by (auto simp: log_of_def)
  next
    case (Cons x ss ds dss)
    then show ?case using one [OF Cons(1)] by (auto simp: log_of_def)
  qed
  from this [OF ch] show ?thesis using p css by simp
qed

lemma torn_numbered:
  assumes "torn_image w p log c b"
  shows "numbered (pLogEnd p - of_nat (length log)) log"
proof -
  obtain segments css k where "partition_image w (p\<lparr>pSegments := segments\<rparr>) css (take k c)" "log_of css = log"
    using assms unfolding torn_image_def by (elim exE conjE) (rule that)
  then show ?thesis using numbered_image image_end by fastforce
qed

text \<open>The offsets of a log do not wrap around.\<close>

lemma image_no_wrap:
  assumes "partition_image w p css tail"
  shows "unat (pLogEnd p) = unat (sBaseOffset (sgHeader (hd (pSegments p)))) + length (log_of css)"
proof -
  obtain ss s dss cs where p: "pSegments p = ss @ [s]" and css: "css = dss @ [cs]"
    and early: "list_all2 (stored w p []) ss dss" and act: "stored w p tail s cs" and ne: "[] \<notin> set dss"
    and ch: "chained (sBaseOffset (sgHeader (hd (ss @ [s])))) (ss @ [s]) (pLogEnd p)"
    using assms by (auto simp: partition_image_split)
  have one: "unat (sgEnd x) = unat (sBaseOffset (sgHeader x)) + length (chunk_records ds)" if "stored w p t x ds" for t x ds
  proof (cases "ds = []")
    case True
    then show ?thesis using that segment_inv_fields(1) [of "pTopic p" "pPartition p" "pDir p" x ds] by (simp add: stored_def)
  next
    case False
    then show ?thesis using that segment_inv_end(1) [of "pTopic p" "pPartition p" "pDir p" x ds] by (simp add: stored_def)
  qed
  have "unat e = unat off + length (log_of (dss @ [cs]))" if "chained off (ss @ [s]) e" for off e
    using early that
  proof (induction ss dss arbitrary: off rule: list_all2_induct)
    case Nil
    then show ?case using one [OF act] by (auto simp: log_of_def)
  next
    case (Cons x ss ds dss)
    have "unat e = unat (sgEnd x) + length (log_of (dss @ [cs]))" using Cons.IH Cons.prems by simp
    then show ?case using one [OF Cons(1)] Cons.prems by (auto simp: log_of_def)
  qed
  from this [OF ch] show ?thesis using p css by simp
qed

lemma torn_no_wrap:
  assumes "torn_image w p log c b"
  shows "length log \<le> unat (pLogEnd p)"
proof -
  obtain segments css k where "partition_image w (p\<lparr>pSegments := segments\<rparr>) css (take k c)" "log_of css = log"
    using assms unfolding torn_image_def by (elim exE conjE) (rule that)
  then show ?thesis using image_no_wrap by fastforce
qed

end
