(* ===== verification/Store_Options.thy ===== *)
theory Store_Options
  imports Reopen
begin

text \<open>
  The operating limits of a store, from \<open>src/storage/store.go\<close>, and the admission of growth of the
  system logs, from \<open>src/storage/capacity.go\<close>.
\<close>

record StoreOptions =
  soTailBytes :: uint64
  soMaxTopics :: uint32
  soMaxUserPartitions :: uint32
  soMaxOpenPartitions :: uint32
  soMaxOpenSegmentFiles :: uint32
  soMaxCatalogHistoryBytes :: uint64
  soMaxOffsetsHistoryBytes :: uint64
  soMaxConsumerGroups :: uint32
  soMaxConsumerProgressKeys :: uint32
  soDiskSafetyBytes :: uint64
  soDiskUserStopBytes :: uint64
  soDiskResumeBytes :: uint64
  soDiskSafetyInodes :: uint64
  soDiskUserStopInodes :: uint64
  soDiskResumeInodes :: uint64

definition defaultSystemLogCapacityBytes :: uint64 where
  [simp]: "defaultSystemLogCapacityBytes = 1073741824"

definition if_zero :: "'a::zero \<Rightarrow> 'a \<Rightarrow> 'a" where
  "if_zero v d = (if v = 0 then d else v)"

definition normalizeStore :: "StoreOptions \<Rightarrow> StoreOptions" where
  "normalizeStore options =
     \<lparr>soTailBytes = if_zero (soTailBytes options) maxTailBytes,
      soMaxTopics = if_zero (soMaxTopics options) 4096,
      soMaxUserPartitions = if_zero (soMaxUserPartitions options) (of_nat maxTopicPartitions),
      soMaxOpenPartitions = if_zero (soMaxOpenPartitions options) 1024,
      soMaxOpenSegmentFiles = if_zero (soMaxOpenSegmentFiles options) 512,
      soMaxCatalogHistoryBytes = if_zero (soMaxCatalogHistoryBytes options) defaultSystemLogCapacityBytes,
      soMaxOffsetsHistoryBytes = if_zero (soMaxOffsetsHistoryBytes options) defaultSystemLogCapacityBytes,
      soMaxConsumerGroups = if_zero (soMaxConsumerGroups options) 4096,
      soMaxConsumerProgressKeys = if_zero (soMaxConsumerProgressKeys options) (of_nat maxTopicPartitions),
      soDiskSafetyBytes = if_zero (soDiskSafetyBytes options) 33554432,
      soDiskUserStopBytes = if_zero (soDiskUserStopBytes options) 67108864,
      soDiskResumeBytes = if_zero (soDiskResumeBytes options) 100663296,
      soDiskSafetyInodes = if_zero (soDiskSafetyInodes options) 16,
      soDiskUserStopInodes = if_zero (soDiskUserStopInodes options) 32,
      soDiskResumeInodes = if_zero (soDiskResumeInodes options) 64\<rparr>"

definition validateStore :: "StoreOptions \<Rightarrow> unit result" where
  "validateStore options =
     (if soTailBytes options > maxTailBytes then Inl [ErrResourceLimit, ErrNew]
      else if soMaxTopics options = 0 \<or> soMaxTopics options > of_nat maxTopicPartitions
      then Inl [ErrResourceLimit, ErrNew]
      else if soMaxUserPartitions options = 0 \<or> soMaxUserPartitions options > of_nat maxTopicPartitions
      then Inl [ErrResourceLimit, ErrNew]
      else if soMaxCatalogHistoryBytes options = 0 \<or> soMaxOffsetsHistoryBytes options = 0
      then Inl [ErrResourceLimit, ErrNew]
      else if soMaxConsumerGroups options = 0 \<or> soMaxConsumerGroups options > of_nat maxTopicPartitions
      then Inl [ErrResourceLimit, ErrNew]
      else if soMaxConsumerProgressKeys options = 0 \<or> soMaxConsumerProgressKeys options > of_nat maxTopicPartitions
      then Inl [ErrResourceLimit, ErrNew]
      else if soDiskSafetyBytes options \<ge> soDiskUserStopBytes options
              \<or> soDiskUserStopBytes options \<ge> soDiskResumeBytes options
      then Inl [ErrInvalidArgument, ErrNew]
      else if soDiskSafetyInodes options \<ge> soDiskUserStopInodes options
              \<or> soDiskUserStopInodes options \<ge> soDiskResumeInodes options
      then Inl [ErrInvalidArgument, ErrNew]
      else if soMaxOpenPartitions options = 0 \<or> soMaxOpenPartitions options > of_nat maxTopicPartitions
      then Inl [ErrResourceLimit, ErrNew]
      else if soMaxOpenSegmentFiles options = 0 \<or> soMaxOpenSegmentFiles options > of_nat maxTopicPartitions
      then Inl [ErrResourceLimit, ErrNew]
      else Inr ())"

definition admitOpenPartitions :: "nat \<Rightarrow> uint32 \<Rightarrow> uint32 \<Rightarrow> unit result" where
  "admitOpenPartitions current needed limit =
     (if needed > limit \<or> (of_nat current :: uint64) + ucast needed > ucast limit
      then Inl [ErrResourceLimit, ErrNew] else Inr ())"

section \<open>Growth of the system logs\<close>

text \<open>The size of a segment is a length, so the check for a negative size has no counterpart.\<close>

fun usedBytes :: "segment list \<Rightarrow> uint64 \<Rightarrow> uint64 result" where
  "usedBytes [] used = Inr used"
| "usedBytes (s # ss) used =
     (if (of_nat (sgSize s) :: uint64) > 0xFFFFFFFFFFFFFFFF - used
      then Inl [ErrSystemLogCapacity, ErrNew]
      else usedBytes ss (used + of_nat (sgSize s)))"

definition systemLogAdmission :: "Partition option \<Rightarrow> uint64 \<Rightarrow> uint64 \<Rightarrow> unit result" where
  "systemLogAdmission part incoming limit =
     (case part of
        None \<Rightarrow> Inl [ErrSystemLogCapacity, ErrNew]
      | Some p \<Rightarrow>
          if pSegments p = [] then Inl [ErrSystemLogCapacity, ErrNew]
          else if limit = 0 then Inl [ErrSystemLogCapacity, ErrNew]
          else
            let active = last (pSegments p);
                rolls = sgRecords active > 0
                        \<and> of_nat (sgSize active) + incoming > oSegmentBytes (pOptions p)
            in if rolls \<and> incoming > 0xFFFFFFFFFFFFFFFF - ucast SegmentHeaderBytes
               then Inl [ErrSystemLogCapacity, ErrNew]
               else
                 let incoming = (if rolls then incoming + ucast SegmentHeaderBytes else incoming)
                 in andThen (usedBytes (pSegments p) 0) (\<lambda>used.
                      if incoming = 0 then Inr ()
                      else if used > limit \<or> incoming > limit - used
                      then Inl [ErrSystemLogCapacity, ErrNew]
                      else Inr ()))"

definition systemEventBatchBytes :: "TopicID \<Rightarrow> uint64 \<Rightarrow> bytes \<Rightarrow> uint64 result" where
  "systemEventBatchBytes topic base v =
     andThen (EncodeBatch \<lparr>bTopic = topic, bPartition = 0, bBaseOffset = base,
         bRecords = [\<lparr>rTopic = topic, rPartition = 0, rOffset = base, rTimestamp = 0, rKey = None,
                      rValue = Some v, rHeaders = []\<rparr>]\<rparr>)
       (\<lambda>encoded. Inr (of_nat (length encoded)))"

definition systemEventAdmission ::
  "Partition option \<Rightarrow> TopicID \<Rightarrow> uint64 \<Rightarrow> bytes \<Rightarrow> uint64 \<Rightarrow> unit result" where
  "systemEventAdmission part topic base v limit =
     andThen (systemEventBatchBytes topic base v) (\<lambda>bytes. systemLogAdmission part bytes limit)"

section \<open>Properties\<close>

lemma if_zero_neq [simp]: "d \<noteq> 0 \<Longrightarrow> if_zero v d \<noteq> 0"
  by (simp add: if_zero_def)

lemma usedBytes_sum:
  "unat u + sum_list (map sgSize ss) < 2 ^ 64 \<Longrightarrow>
     usedBytes ss u = Inr (u + of_nat (sum_list (map sgSize ss)))"
proof (induction ss arbitrary: u)
  case (Cons s ss)
  have s: "sgSize s < 2 ^ 64" "unat u + sgSize s < 2 ^ 64" using Cons.prems by simp_all
  then have v: "unat (u + of_nat (sgSize s)) = unat u + sgSize s"
    by (simp add: unat_word_ariths unat_of_nat)
  have "\<not> (of_nat (sgSize s) :: uint64) > 0xFFFFFFFFFFFFFFFF - u"
    using s by (simp add: checkedAdd_overflow unat_of_nat)
  moreover have "usedBytes ss (u + of_nat (sgSize s)) = Inr (u + of_nat (sgSize s) + of_nat (sum_list (map sgSize ss)))"
    using Cons.IH [of "u + of_nat (sgSize s)"] Cons.prems v by (simp add: add.assoc)
  ultimately show ?case by (simp add: add.assoc)
qed simp

lemma append_total_size:
  assumes "partition_inv w p css"
    and "appendEncodedLocked random ts batch encoded p w = (Inr (off, pub), p', w')"
  shows "sum_list (map sgSize (pSegments p')) = sum_list (map sgSize (pSegments p)) + length encoded
    + (if of_nat (length encoded) + of_nat (sgSize (last (pSegments p))) > oSegmentBytes (pOptions p) then 72 else 0)
    \<and> (of_nat (length encoded) + of_nat (sgSize (last (pSegments p))) > oSegmentBytes (pOptions p)
         \<longrightarrow> sgRecords (last (pSegments p)) \<noteq> 0)"
proof -
  have wa: "sum_list (map sgSize (pSegments p')) = sum_list (map sgSize (pSegments q)) + length encoded"
    if "writeActive batch encoded q v = (Inr (off, pub), p', w')" and ne: "pSegments q \<noteq> []" for q v
  proof -
    have "sgSize (refreshSegmentIndexes (extendSegment batch encoded s) sid stride) = sgSize s + length encoded" for s sid stride
      by (simp add: refreshSegmentIndexes_def extendSegment_def split: prod.split)
    moreover obtain ss s where q: "pSegments q = ss @ [s]" using ne by (metis append_butlast_last_id)
    ultimately show ?thesis
      using that(1) by (auto simp: writeActive_def Let_def extendPrefixDigestLocked_def signalFetchWaitersLocked_def
          split: prod.splits if_splits sum.splits option.splits)
  qed
  have ro: "sum_list (map sgSize (pSegments q)) = sum_list (map sgSize (pSegments p)) + 72 \<and> pSegments q \<noteq> []"
    if r: "rollSegment random ts p w = (Inr q, v)" for q v
  proof -
    obtain ss s where p: "pSegments p = ss @ [s]"
      using assms(1) by (metis append_butlast_last_id partition_image_def)
    obtain rolled w1 where c: "createSegment random (pDir p) (pTopic p) (pPartition p) (pLogEnd p) w = (Inr rolled, w1)"
      using r by (auto simp: rollSegment_def split: prod.splits sum.splits)
    then have "sgSize rolled = 72"
      by (rule createSegment_Inr) (simp add: recovered_segment_def scan_start_def)
    moreover obtain x active w2 where i: "installSegmentIndexes ts s (pStoreID p) (oIndexStride (pOptions p)) w1 = (x, active, w2)"
      by (metis surj_pair)
    moreover have "sgSize active = sgSize s" using installSegmentIndexes_segment [OF i] by auto
    ultimately show ?thesis using r c p by (auto simp: rollSegment_def)
  qed
  have ne: "pSegments p \<noteq> []" using assms(1) by (simp add: partition_image_def)
  let ?big = "of_nat (length encoded) + of_nat (sgSize (last (pSegments p))) > oSegmentBytes (pOptions p)"
  have "if ?big then sgRecords (last (pSegments p)) \<noteq> 0
      \<and> (\<exists>q v. rollSegment random ts p w = (Inr q, v) \<and> writeActive batch encoded q v = (Inr (off, pub), p', w'))
    else writeActive batch encoded p w = (Inr (off, pub), p', w')"
    using assms(2) by (auto simp: appendEncodedLocked_def Let_def split: if_splits sum.splits prod.splits)
  then show ?thesis
  proof (cases ?big)
    case True
    then obtain q v where q: "rollSegment random ts p w = (Inr q, v)" "writeActive batch encoded q v = (Inr (off, pub), p', w')"
      and r: "sgRecords (last (pSegments p)) \<noteq> 0"
      using \<open>if ?big then _ else _\<close> by auto
    show ?thesis using wa [OF q(2)] ro [OF q(1)] True r by simp
  next
    case False
    then show ?thesis using wa [OF _ ne] \<open>if ?big then _ else _\<close> by simp
  qed
qed

text \<open>C37. The history budget of a system log is never exceeded by an admitted append: when
  \<open>systemLogAdmission\<close> admits the encoded size of a batch and the append then succeeds, the segment
  files, with the header of a segment that the append had to start, fit in the limit. The arithmetic
  is that of 64-bit words; a log of less than half the address space does not wrap around.\<close>

theorem system_log_growth_bounded:
  assumes "partition_inv w p css" and "sum_list (map sgSize (pSegments p)) < 2 ^ 63"
    and "systemLogAdmission (Some p) (of_nat (length encoded)) limit = Inr ()"
    and "encoded \<noteq> []" and "length encoded \<le> unat MaxBatchBytes"
    and "appendEncodedLocked random ts batch encoded p w = (Inr (off, pub), p', w')"
  shows "sum_list (map sgSize (pSegments p')) \<le> unat limit"
proof -
  let ?used = "sum_list (map sgSize (pSegments p))"
  define big where "big \<longleftrightarrow> of_nat (length encoded) + of_nat (sgSize (last (pSegments p))) > oSegmentBytes (pOptions p)"
  define grow :: uint64 where "grow = of_nat (length encoded) + (if big then 72 else 0)"
  note t = append_total_size [OF assms(1,6), folded big_def]
  have n: "length encoded \<le> 67108864" using assms(5) by simp
  have in': "unat grow = length encoded + (if big then 72 else 0)"
    using n by (simp add: grow_def unat_word_ariths unat_of_nat)
  have rolls: "(sgRecords (last (pSegments p)) > 0 \<and> of_nat (sgSize (last (pSegments p))) + of_nat (length encoded)
      > oSegmentBytes (pOptions p)) = big"
    using t by (auto simp: word_greater_zero_iff add.commute big_def)
  have used: "usedBytes (pSegments p) 0 = Inr (of_nat ?used)" using usedBytes_sum [of 0 "pSegments p"] assms(2) by simp
  have ne: "pSegments p \<noteq> []" using assms(1) by (simp add: partition_image_def)
  have "grow \<noteq> 0" using in' assms(4) by (auto simp: word_unat_eq_iff)
  then have fits: "\<not> of_nat ?used > limit" "\<not> grow > limit - of_nat ?used"
    using assms(3) rolls by (cases big; force simp: systemLogAdmission_def Let_def ne used grow_def split: if_splits)+
  then have "unat grow \<le> unat limit - ?used" "?used \<le> unat limit"
    using assms(2) by (simp_all add: word_less_nat_alt unat_of_nat unat_sub word_le_nat_alt)
  then show ?thesis using in' t by simp
qed

theorem system_log_growth_bounded_witness:
  "\<exists>p' w'. systemLogAdmission (Some example_partition) (of_nat (length example_bytes)) 1073741824 = Inr ()
     \<and> appendEncodedLocked 1 ([0x70], [0x70]) example_batch example_bytes example_partition (example_world [])
       = (Inr (41, None), p', w')
     \<and> sum_list (map sgSize (pSegments p')) \<le> 1073741824"
proof -
  obtain p' w' where run: "appendEncodedLocked 1 ([0x70], [0x70]) example_batch example_bytes example_partition (example_world [])
      = (Inr (41, None), p', w')"
    unfolding example_append
    by (simp add: writeActive_def Let_def example_partition_def example_world_def fileWriteAt_def
        fileSync_def fileEffect_def extendPrefixDigestLocked_def signalFetchWaitersLocked_def example_batch_def)
  have l: "length example_bytes \<le> unat MaxBatchBytes" "80 \<le> length example_bytes"
    using DecodeBatch_facts(2,3) [OF decode_encoded [OF example_encoded]] by simp_all
  then have ne: "example_bytes \<noteq> []" by auto
  have s: "map sgSize (pSegments example_partition) = [72]"
    by (simp add: example_partition_def recovered_segment_def scan_start_def)
  have a: "systemLogAdmission (Some example_partition) (of_nat (length example_bytes)) 1073741824 = Inr ()"
    using l by (simp add: systemLogAdmission_def example_partition_def recovered_segment_def scan_start_def
        Let_def word_less_nat_alt unat_of_nat)
  show ?thesis
    using system_log_growth_bounded [OF example_inv _ a ne l(1) run] a run s by simp
qed

text \<open>Doubling from a power of two reaches every 32-bit number up to \<open>2 ^ 17\<close>.\<close>

lemma capacityLoop_power:
  assumes "k + fuel = 32" and "k \<le> 17" and "needed \<le> 131072" and "k = 0 \<or> 2 ^ (k - 1) < unat needed"
  shows "\<exists>m \<le> 17. capacityLoop fuel (of_nat (2 ^ k)) needed = Some (of_nat (2 ^ m)) \<and> unat needed \<le> 2 ^ m
    \<and> (m = 0 \<or> 2 ^ (m - 1) < unat needed)"
  using assms
proof (induction fuel arbitrary: k)
  case 0
  then show ?case by simp
next
  case (Suc fuel)
  have k: "(2::nat) ^ k \<le> 2 ^ 17" using Suc.prems(2) by (intro power_increasing) auto
  have u: "unat (of_nat (2 ^ k) :: uint32) = 2 ^ k" using k by (simp add: unat_of_nat del: of_nat_power)
  have n: "unat needed \<le> 2 ^ 17" using Suc.prems(3) by (simp add: word_le_nat_alt)
  show ?case
  proof (cases "(of_nat (2 ^ k) :: uint32) < needed")
    case True
    then have lt: "2 ^ k < unat needed" using u by (simp add: word_less_nat_alt del: of_nat_power)
    then have "(2::nat) ^ k < 2 ^ 17" using n by linarith
    then have "k < 17" using power_less_imp_less_exp [of 2 k 17] by simp
    moreover have "push_bit 1 (of_nat (2 ^ k) :: uint32) = of_nat (2 ^ Suc k)"
      by (simp add: push_bit_eq_mult)
    ultimately show ?thesis using Suc.IH [of "Suc k"] Suc.prems True lt by (simp add: mult.commute)
  next
    case False
    then have "unat needed \<le> 2 ^ k" using u by (simp add: word_less_nat_alt not_less del: of_nat_power)
    then show ?thesis using False Suc.prems(2,4) by (intro exI [of _ k]) auto
  qed
qed


lemma normalize_more:
  "oTailSlots (normalize o') = oTailSlots o'" "oTailBytes (normalize o') = oTailBytes o'"
  "oInFlightRecords (normalize o') = (if oInFlightRecords o' = 0 then 1024 else oInFlightRecords o')"
  by (simp_all add: normalize_def normalizeWriter_def Let_def)



end
