(* ===== verification/Disk_Pressure.thy ===== *)
theory Disk_Pressure
  imports Store_Options "HOL-Library.Multiset"
begin

text \<open>
  \<open>src/storage/disk_pressure.go\<close>: the ledger through which every append reserves file-system space.
  A reservation probes the file system between two critical sections, so concurrent reservations
  interleave: \<open>reserveBegin\<close> is the first section, \<open>reserveFinish\<close> the second, and the outcome of the
  probe, which the operating system gives, is an argument. The time of an observation only serves
  the statistics and is left out.
\<close>

record diskObservation =
  doAvailableBytes :: uint64
  doAvailableInodes :: uint64
  doInodesKnown :: bool

datatype diskReservationKind = diskReservationUser | diskReservationControl

record diskPressureLedger =
  dlSafetyBytes :: uint64
  dlUserStopBytes :: uint64
  dlResumeBytes :: uint64
  dlSafetyInodes :: uint64
  dlUserStopInodes :: uint64
  dlResumeInodes :: uint64
  dlReservedBytes :: uint64
  dlReservedInodes :: uint64
  dlHighWaterReservedBytes :: uint64
  dlHighWaterReservedInodes :: uint64
  dlObservation :: diskObservation
  dlHasObservation :: bool
  dlPressured :: bool
  dlProbeFailed :: bool
  dlNextProbe :: uint64
  dlAppliedProbe :: uint64

text \<open>A reservation and whether its \<open>sync.Once\<close> has fired.\<close>

record diskReservation =
  drBytes :: uint64
  drInodes :: uint64
  drReleased :: bool

definition releaseReservation ::
  "diskReservation option \<Rightarrow> diskPressureLedger \<Rightarrow> diskReservation option \<times> diskPressureLedger" where
  "releaseReservation reservation ledger =
     (case reservation of
        None \<Rightarrow> (None, ledger)
      | Some r \<Rightarrow>
          if drReleased r then (Some r, ledger)
          else
            (Some (r\<lparr>drReleased := True\<rparr>),
             ledger\<lparr>dlReservedBytes :=
                      (if drBytes r \<le> dlReservedBytes ledger then dlReservedBytes ledger - drBytes r else 0),
                    dlReservedInodes :=
                      (if drInodes r \<le> dlReservedInodes ledger then dlReservedInodes ledger - drInodes r
                       else 0)\<rparr>))"

definition remainingDiskCapacity :: "uint64 \<Rightarrow> uint64 \<Rightarrow> uint64" where
  "remainingDiskCapacity available debit = (if debit \<ge> available then 0 else available - debit)"

definition canResume :: "uint64 \<Rightarrow> uint64 \<Rightarrow> diskPressureLedger \<Rightarrow> bool" where
  "canResume bytes inodes ledger \<longleftrightarrow>
     (if bytes < dlResumeBytes ledger then False
      else \<not> doInodesKnown (dlObservation ledger) \<or> inodes \<ge> dlResumeInodes ledger)"

definition refusal :: error where
  "refusal = [ErrDiskPressure, ErrNew]"

definition reserveBegin :: "diskPressureLedger \<Rightarrow> uint64 \<times> diskPressureLedger" where
  "reserveBegin ledger =
     (let probeID = dlNextProbe ledger + 1 in (probeID, ledger\<lparr>dlNextProbe := probeID\<rparr>))"

text \<open>The second section, up to the new observation and the pressure flag.\<close>

definition applyObservation :: "uint64 \<Rightarrow> diskObservation \<Rightarrow> diskPressureLedger \<Rightarrow> diskPressureLedger" where
  "applyObservation probeID observation ledger =
     (if probeID \<ge> dlAppliedProbe ledger
      then ledger\<lparr>dlAppliedProbe := probeID, dlObservation := observation, dlHasObservation := True,
                  dlProbeFailed := False\<rparr>
      else ledger)"

definition currentBytes :: "diskPressureLedger \<Rightarrow> uint64" where
  "currentBytes ledger =
     remainingDiskCapacity (doAvailableBytes (dlObservation ledger)) (dlReservedBytes ledger)"

definition currentInodes :: "diskPressureLedger \<Rightarrow> uint64" where
  "currentInodes ledger =
     remainingDiskCapacity (doAvailableInodes (dlObservation ledger)) (dlReservedInodes ledger)"

definition updatePressure :: "diskPressureLedger \<Rightarrow> diskPressureLedger" where
  "updatePressure ledger =
     (let bytes = currentBytes ledger;
          inodes = currentInodes ledger;
          ledger =
            (if doInodesKnown (dlObservation ledger)
                \<and> (inodes < dlUserStopInodes ledger \<or> bytes < dlUserStopBytes ledger)
             then ledger\<lparr>dlPressured := True\<rparr>
             else if \<not> doInodesKnown (dlObservation ledger) \<and> bytes < dlUserStopBytes ledger
             then ledger\<lparr>dlPressured := True\<rparr>
             else ledger)
      in if dlPressured ledger \<and> canResume bytes inodes ledger
         then ledger\<lparr>dlPressured := False\<rparr> else ledger)"

definition reserveFinish ::
  "diskReservationKind \<Rightarrow> uint64 \<Rightarrow> uint64 \<Rightarrow> uint64 \<Rightarrow> diskObservation result \<Rightarrow> diskPressureLedger
     \<Rightarrow> diskReservation result \<times> diskPressureLedger" where
  "reserveFinish kind bytes inodes probeID outcome ledger =
     (case outcome of
        Inl e \<Rightarrow>
          (Inl (ErrDiskPressure # errorf e),
           if probeID \<ge> dlAppliedProbe ledger
           then ledger\<lparr>dlAppliedProbe := probeID, dlProbeFailed := True, dlPressured := True\<rparr>
           else ledger)
      | Inr observation \<Rightarrow>
          let ledger = applyObservation probeID observation ledger
          in if \<not> dlHasObservation ledger
             then (Inl [ErrDiskPressure, ErrNew], ledger\<lparr>dlPressured := True\<rparr>)
             else
               let ledger = updatePressure ledger;
                   afterBytes = remainingDiskCapacity (currentBytes ledger) bytes;
                   afterInodes = remainingDiskCapacity (currentInodes ledger) inodes;
                   known = doInodesKnown (dlObservation ledger)
               in if kind = diskReservationUser
                     \<and> (dlPressured ledger \<or> afterBytes < dlUserStopBytes ledger
                        \<or> known \<and> afterInodes < dlUserStopInodes ledger)
                  then (Inl refusal, ledger)
                  else if kind = diskReservationControl
                          \<and> (afterBytes < dlSafetyBytes ledger
                             \<or> known \<and> afterInodes < dlSafetyInodes ledger)
                  then (Inl refusal, ledger)
                  else if bytes > 0xFFFFFFFFFFFFFFFF - dlReservedBytes ledger
                          \<or> inodes > 0xFFFFFFFFFFFFFFFF - dlReservedInodes ledger
                  then (Inl [ErrDiskPressure, ErrNew], ledger)
                  else
                    (Inr \<lparr>drBytes = bytes, drInodes = inodes, drReleased = False\<rparr>,
                     ledger\<lparr>dlReservedBytes := dlReservedBytes ledger + bytes,
                            dlReservedInodes := dlReservedInodes ledger + inodes,
                            dlHighWaterReservedBytes :=
                              max (dlHighWaterReservedBytes ledger) (dlReservedBytes ledger + bytes),
                            dlHighWaterReservedInodes :=
                              max (dlHighWaterReservedInodes ledger) (dlReservedInodes ledger + inodes)\<rparr>))"

definition reserve ::
  "diskReservationKind \<Rightarrow> uint64 \<Rightarrow> uint64 \<Rightarrow> diskObservation result \<Rightarrow> diskPressureLedger
     \<Rightarrow> diskReservation result \<times> diskPressureLedger" where
  "reserve kind bytes inodes outcome ledger =
     (case reserveBegin ledger of
        (probeID, ledger) \<Rightarrow> reserveFinish kind bytes inodes probeID outcome ledger)"

definition freshLedger :: "StoreOptions \<Rightarrow> diskPressureLedger" where
  "freshLedger options =
     \<lparr>dlSafetyBytes = soDiskSafetyBytes options, dlUserStopBytes = soDiskUserStopBytes options,
      dlResumeBytes = soDiskResumeBytes options, dlSafetyInodes = soDiskSafetyInodes options,
      dlUserStopInodes = soDiskUserStopInodes options, dlResumeInodes = soDiskResumeInodes options,
      dlReservedBytes = 0, dlReservedInodes = 0, dlHighWaterReservedBytes = 0,
      dlHighWaterReservedInodes = 0,
      dlObservation = \<lparr>doAvailableBytes = 0, doAvailableInodes = 0, doInodesKnown = False\<rparr>,
      dlHasObservation = False, dlPressured = False, dlProbeFailed = False, dlNextProbe = 0,
      dlAppliedProbe = 0\<rparr>"

text \<open>\<open>probe\<close> is the outcome of the first probe, and absent when there is no probe function.\<close>

definition newDiskPressureLedger ::
  "StoreOptions \<Rightarrow> diskObservation result option \<Rightarrow> diskPressureLedger result" where
  "newDiskPressureLedger options probe =
     (case probe of
        None \<Rightarrow> Inl [ErrDiskPressure, ErrNew]
      | Some outcome \<Rightarrow>
          (case reserve diskReservationControl 0 0 outcome (freshLedger options) of
             (Inl e, _) \<Rightarrow> Inl e
           | (Inr _, ledger) \<Rightarrow> Inr ledger))"

definition estimateDiskBatchGrowth :: "uint64 \<Rightarrow> (uint64 \<times> uint64) result" where
  "estimateDiskBatchGrowth encodedBytes =
     (let overhead = ucast SegmentHeaderBytes
      in if encodedBytes > 0xFFFFFFFFFFFFFFFF - overhead then Inl [ErrDiskPressure, ErrNew]
         else Inr (encodedBytes + overhead, 1))"

text \<open>The class of a partition; without a store or a ledger nothing is reserved.\<close>

definition isSystemPartition :: "Partition option \<Rightarrow> bool" where
  "isSystemPartition part =
     (case part of
        None \<Rightarrow> False
      | Some p \<Rightarrow> pTopic p = ClusterMetadataTopicID \<or> pTopic p = ConsumerOffsetsTopicID)"

definition reserveDisk ::
  "Partition \<Rightarrow> uint64 \<Rightarrow> uint64 \<Rightarrow> diskObservation result \<Rightarrow> diskPressureLedger option
     \<Rightarrow> diskReservation option result \<times> diskPressureLedger option" where
  "reserveDisk p bytes inodes outcome ledger =
     (case ledger of
        None \<Rightarrow> (Inr None, None)
      | Some l \<Rightarrow>
          (case reserve (if isSystemPartition (Some p) then diskReservationControl else diskReservationUser)
                  bytes inodes outcome l of
             (Inl e, l) \<Rightarrow> (Inl e, Some l)
           | (Inr r, l) \<Rightarrow> (Inr (Some r), Some l)))"

section \<open>Interleaved reservations\<close>

text \<open>
  The states that the ledger of a store can reach: calls that have started and not yet finished, and
  the reservations that are held. A reservation is released once; further calls do nothing.
\<close>

inductive disk_reach ::
  "StoreOptions \<Rightarrow> diskPressureLedger \<Rightarrow> uint64 multiset \<Rightarrow> diskReservation multiset \<Rightarrow> bool"
  for options :: StoreOptions where
  fresh: "disk_reach options (freshLedger options) {#} {#}"
| begins: "disk_reach options l pending held \<Longrightarrow> reserveBegin l = (n, l') \<Longrightarrow>
     disk_reach options l' (add_mset n pending) held"
| granted: "disk_reach options l (add_mset n pending) held \<Longrightarrow>
     reserveFinish kind bytes inodes n outcome l = (Inr r, l') \<Longrightarrow>
     disk_reach options l' pending (add_mset r held)"
| refused: "disk_reach options l (add_mset n pending) held \<Longrightarrow>
     reserveFinish kind bytes inodes n outcome l = (Inl e, l') \<Longrightarrow> disk_reach options l' pending held"
| releases: "disk_reach options l pending (add_mset r held) \<Longrightarrow>
     releaseReservation (Some r) l = (r', l') \<Longrightarrow> disk_reach options l' pending held"

definition ledger_inv :: "StoreOptions \<Rightarrow> diskPressureLedger \<Rightarrow> diskReservation multiset \<Rightarrow> bool" where
  "ledger_inv options l held \<longleftrightarrow>
     unat (dlReservedBytes l) = (\<Sum>r \<in># held. unat (drBytes r))
     \<and> unat (dlReservedInodes l) = (\<Sum>r \<in># held. unat (drInodes r))
     \<and> (\<forall>r \<in># held. \<not> drReleased r)
     \<and> dlReservedBytes l \<le> dlHighWaterReservedBytes l \<and> dlReservedInodes l \<le> dlHighWaterReservedInodes l
     \<and> dlSafetyBytes l = soDiskSafetyBytes options \<and> dlUserStopBytes l = soDiskUserStopBytes options
     \<and> dlResumeBytes l = soDiskResumeBytes options \<and> dlSafetyInodes l = soDiskSafetyInodes options
     \<and> dlUserStopInodes l = soDiskUserStopInodes options \<and> dlResumeInodes l = soDiskResumeInodes options"

section \<open>Lemmas\<close>

text \<open>What the observation and the pressure flag do not change.\<close>

definition accounts :: "diskPressureLedger \<Rightarrow> uint64 list" where
  "accounts l = [dlReservedBytes l, dlReservedInodes l, dlHighWaterReservedBytes l, dlHighWaterReservedInodes l,
     dlSafetyBytes l, dlUserStopBytes l, dlResumeBytes l, dlSafetyInodes l, dlUserStopInodes l, dlResumeInodes l]"

lemma accounts_observe [simp]:
  "accounts (applyObservation n ob l) = accounts l" "accounts (updatePressure l) = accounts l"
  "accounts (l\<lparr>dlPressured := b\<rparr>) = accounts l"
  by (simp_all add: accounts_def applyObservation_def updatePressure_def Let_def)

lemma observation_updatePressure [simp]: "dlObservation (updatePressure l) = dlObservation l"
  by (simp add: updatePressure_def Let_def)

lemma ledger_inv_accounts: "accounts l' = accounts l \<Longrightarrow> ledger_inv options l held \<Longrightarrow> ledger_inv options l' held"
  by (simp add: accounts_def ledger_inv_def)

lemma remaining_unat: "unat (remainingDiskCapacity a d) = unat a - unat d"
proof (cases "d \<ge> a")
  case True
  then show ?thesis by (simp add: remainingDiskCapacity_def word_le_nat_alt)
next
  case False
  then show ?thesis by (simp add: remainingDiskCapacity_def unat_sub not_le word_le_nat_alt)
qed

lemma room_unat: "\<not> b > 0xFFFFFFFFFFFFFFFF - (a :: uint64) \<Longrightarrow> unat (a + b) = unat a + unat b"
  by (simp add: checkedAdd_overflow unat_word_ariths)

text \<open>A granted reservation, with the ledger it was granted on.\<close>

lemma reserveFinish_granted:
  assumes "reserveFinish kind bytes inodes n outcome l = (Inr r, l')"
  obtains ob l1 where "outcome = Inr ob" and "l1 = updatePressure (applyObservation n ob l)"
    and "r = \<lparr>drBytes = bytes, drInodes = inodes, drReleased = False\<rparr>"
    and "unat (dlReservedBytes l1 + bytes) = unat (dlReservedBytes l1) + unat bytes"
    and "unat (dlReservedInodes l1 + inodes) = unat (dlReservedInodes l1) + unat inodes"
    and "l' = l1\<lparr>dlReservedBytes := dlReservedBytes l1 + bytes, dlReservedInodes := dlReservedInodes l1 + inodes,
           dlHighWaterReservedBytes := max (dlHighWaterReservedBytes l1) (dlReservedBytes l1 + bytes),
           dlHighWaterReservedInodes := max (dlHighWaterReservedInodes l1) (dlReservedInodes l1 + inodes)\<rparr>"
    and "kind = diskReservationUser \<Longrightarrow> \<not> dlPressured l1
      \<and> \<not> remainingDiskCapacity (currentBytes l1) bytes < dlUserStopBytes l1
      \<and> (doInodesKnown ob' \<longrightarrow> ob' = dlObservation l1 \<longrightarrow> \<not> remainingDiskCapacity (currentInodes l1) inodes < dlUserStopInodes l1)"
    and "kind = diskReservationControl \<Longrightarrow> \<not> remainingDiskCapacity (currentBytes l1) bytes < dlSafetyBytes l1
      \<and> (doInodesKnown ob' \<longrightarrow> ob' = dlObservation l1 \<longrightarrow> \<not> remainingDiskCapacity (currentInodes l1) inodes < dlSafetyInodes l1)"
proof -
  obtain ob where ob: "outcome = Inr ob" using assms by (cases outcome) (auto simp: reserveFinish_def)
  let ?l = "updatePressure (applyObservation n ob l)"
  have "\<not> bytes > 0xFFFFFFFFFFFFFFFF - dlReservedBytes ?l" "\<not> inodes > 0xFFFFFFFFFFFFFFFF - dlReservedInodes ?l"
    using assms ob by (auto simp: reserveFinish_def Let_def split: if_splits)
  then have u: "unat (dlReservedBytes ?l + bytes) = unat (dlReservedBytes ?l) + unat bytes"
    "unat (dlReservedInodes ?l + inodes) = unat (dlReservedInodes ?l) + unat inodes"
    by (simp_all only: room_unat not_False_eq_True)
  show thesis
    by (rule that [OF ob refl _ u]) (use assms ob in \<open>auto simp: reserveFinish_def Let_def split: if_splits\<close>)
qed

lemma reserveFinish_refused:
  assumes "reserveFinish kind bytes inodes n outcome l = (Inl e, l')"
  shows "accounts l' = accounts l"
  using assms by (auto simp: reserveFinish_def Let_def split: sum.splits if_splits) (simp_all add: accounts_def)

lemma ledger_inv_granted:
  assumes inv: "ledger_inv options l held" and run: "reserveFinish kind bytes inodes n outcome l = (Inr r, l')"
  shows "ledger_inv options l' (add_mset r held)"
  using run
proof (rule reserveFinish_granted)
  fix ob l1
  assume l1: "l1 = updatePressure (applyObservation n ob l)"
    and r: "r = \<lparr>drBytes = bytes, drInodes = inodes, drReleased = False\<rparr>"
    and u: "unat (dlReservedBytes l1 + bytes) = unat (dlReservedBytes l1) + unat bytes"
      "unat (dlReservedInodes l1 + inodes) = unat (dlReservedInodes l1) + unat inodes"
    and l': "l' = l1\<lparr>dlReservedBytes := dlReservedBytes l1 + bytes, dlReservedInodes := dlReservedInodes l1 + inodes,
           dlHighWaterReservedBytes := max (dlHighWaterReservedBytes l1) (dlReservedBytes l1 + bytes),
           dlHighWaterReservedInodes := max (dlHighWaterReservedInodes l1) (dlReservedInodes l1 + inodes)\<rparr>"
  have "ledger_inv options l1 held" using ledger_inv_accounts [OF _ inv, of l1] l1 by simp
  then show ?thesis using r u l' by (simp add: ledger_inv_def)
qed

lemma ledger_inv_release:
  assumes inv: "ledger_inv options l (add_mset r held)" and run: "releaseReservation (Some r) l = (r', l')"
  shows "ledger_inv options l' held"
proof -
  have d: "\<not> drReleased r" and b: "unat (drBytes r) \<le> unat (dlReservedBytes l)"
    and i: "unat (drInodes r) \<le> unat (dlReservedInodes l)" using inv by (simp_all add: ledger_inv_def)
  have l': "l' = l\<lparr>dlReservedBytes := dlReservedBytes l - drBytes r, dlReservedInodes := dlReservedInodes l - drInodes r\<rparr>"
    using run d b i by (auto simp: releaseReservation_def word_le_nat_alt)
  have u: "unat (dlReservedBytes l - drBytes r) = unat (dlReservedBytes l) - unat (drBytes r)"
    "unat (dlReservedInodes l - drInodes r) = unat (dlReservedInodes l) - unat (drInodes r)"
    using b i by (simp_all add: unat_sub word_le_nat_alt)
  then have "dlReservedBytes l - drBytes r \<le> dlHighWaterReservedBytes l"
    "dlReservedInodes l - drInodes r \<le> dlHighWaterReservedInodes l"
    using inv by (auto simp: ledger_inv_def word_le_nat_alt)
  then show ?thesis using inv l' u by (simp add: ledger_inv_def)
qed

lemma disk_reach_inv: "disk_reach options l pending held \<Longrightarrow> ledger_inv options l held"
proof (induction rule: disk_reach.induct)
  case fresh
  then show ?case by (simp add: ledger_inv_def freshLedger_def)
next
  case (begins l pending held n l')
  then show ?case by (auto simp: reserveBegin_def Let_def accounts_def intro: ledger_inv_accounts)
next
  case (granted l n pending held kind bytes inodes outcome r l')
  then show ?case by (blast intro: ledger_inv_granted)
next
  case (refused l n pending held kind bytes inodes outcome e l')
  then show ?case by (blast intro: ledger_inv_accounts reserveFinish_refused)
next
  case (releases l pending r held r' l')
  then show ?case by (blast intro: ledger_inv_release)
qed

section \<open>Properties\<close>

text \<open>C35. The ledger's account is exact in every state that interleaved reservations and releases can
  reach: the reserved bytes and inodes are the sums over the reservations that are held, without
  wrapping around, and the high-water marks are not below them.\<close>

theorem disk_ledger_exact:
  assumes "disk_reach options l pending held"
  shows "unat (dlReservedBytes l) = (\<Sum>r \<in># held. unat (drBytes r))
    \<and> unat (dlReservedInodes l) = (\<Sum>r \<in># held. unat (drInodes r))
    \<and> dlReservedBytes l \<le> dlHighWaterReservedBytes l \<and> dlReservedInodes l \<le> dlHighWaterReservedInodes l"
  using disk_reach_inv [OF assms] by (simp add: ledger_inv_def)

definition example_disk :: StoreOptions where
  "example_disk = normalizeStore \<lparr>soTailBytes = 0, soMaxTopics = 0, soMaxUserPartitions = 0,
     soMaxOpenPartitions = 0, soMaxOpenSegmentFiles = 0, soMaxCatalogHistoryBytes = 0,
     soMaxOffsetsHistoryBytes = 0, soMaxConsumerGroups = 0, soMaxConsumerProgressKeys = 0,
     soDiskSafetyBytes = 0, soDiskUserStopBytes = 0, soDiskResumeBytes = 0, soDiskSafetyInodes = 0,
     soDiskUserStopInodes = 0, soDiskResumeInodes = 0\<rparr>"

definition example_observation :: diskObservation where
  "example_observation = \<lparr>doAvailableBytes = 1000000000, doAvailableInodes = 1000, doInodesKnown = True\<rparr>"

lemma example_grant:
  "\<exists>l. reserveFinish diskReservationUser 500 1 1 (Inr example_observation) (snd (reserveBegin (freshLedger example_disk)))
     = (Inr \<lparr>drBytes = 500, drInodes = 1, drReleased = False\<rparr>, l) \<and> dlReservedBytes l = 500"
  by (simp add: reserveFinish_def Let_def applyObservation_def updatePressure_def currentBytes_def
      currentInodes_def remainingDiskCapacity_def canResume_def reserveBegin_def freshLedger_def
      example_disk_def normalizeStore_def if_zero_def example_observation_def)
    (simp add: word_le_nat_alt)

theorem disk_ledger_exact_witness:
  "\<exists>l. disk_reach example_disk l {#} {#\<lparr>drBytes = 500, drInodes = 1, drReleased = False\<rparr>#}
     \<and> unat (dlReservedBytes l) = 500"
proof -
  have b: "reserveBegin (freshLedger example_disk) = (1, snd (reserveBegin (freshLedger example_disk)))"
    by (simp add: reserveBegin_def freshLedger_def)
  obtain l where "reserveFinish diskReservationUser 500 1 1 (Inr example_observation)
      (snd (reserveBegin (freshLedger example_disk))) = (Inr \<lparr>drBytes = 500, drInodes = 1, drReleased = False\<rparr>, l)"
    using example_grant by blast
  then have "disk_reach example_disk l {#} {#\<lparr>drBytes = 500, drInodes = 1, drReleased = False\<rparr>#}"
    using disk_reach.granted [OF disk_reach.begins [OF disk_reach.fresh b]] by simp
  with disk_ledger_exact [OF this] show ?thesis by (intro exI [of _ l]) simp
qed

text \<open>C36. Growth of user data never eats into the protected headroom: in every reachable state, when a
  user reservation is granted with validated options, what the last applied observation leaves after
  all reservations, the new one included, is at least the user-stop floor, in bytes and, where inodes
  are known, in inodes; and a ledger that was under pressure has seen at least the resume level, in
  bytes and inodes, before it grants.\<close>

theorem user_reservation_keeps_floor:
  assumes "validateStore options = Inr ()" and "disk_reach options l pending held"
    and "reserveFinish diskReservationUser bytes inodes n outcome l = (Inr r, l')"
  shows "unat (dlReservedBytes l') + unat (soDiskUserStopBytes options) \<le> unat (doAvailableBytes (dlObservation l'))
    \<and> (doInodesKnown (dlObservation l') \<longrightarrow>
         unat (dlReservedInodes l') + unat (soDiskUserStopInodes options) \<le> unat (doAvailableInodes (dlObservation l')))
    \<and> (dlPressured l \<longrightarrow>
         unat (dlReservedBytes l) + unat (soDiskResumeBytes options) \<le> unat (doAvailableBytes (dlObservation l'))
         \<and> (doInodesKnown (dlObservation l') \<longrightarrow>
              unat (dlReservedInodes l) + unat (soDiskResumeInodes options) \<le> unat (doAvailableInodes (dlObservation l'))))
    \<and> \<not> dlPressured l'"
proof -
  have v: "0 < unat (soDiskUserStopBytes options)" "0 < unat (soDiskUserStopInodes options)"
    "0 < unat (soDiskResumeBytes options)" "0 < unat (soDiskResumeInodes options)"
    using assms(1) by (auto simp: validateStore_def word_le_nat_alt word_less_nat_alt not_le split: if_splits)
  have inv: "ledger_inv options l held" using disk_reach_inv [OF assms(2)] .
  show ?thesis
    using assms(3)
  proof (rule reserveFinish_granted [where ob' = "dlObservation l'"])
    fix ob l1
    let ?o = "applyObservation n ob l"
    assume l1: "l1 = updatePressure ?o"
      and u: "unat (dlReservedBytes l1 + bytes) = unat (dlReservedBytes l1) + unat bytes"
        "unat (dlReservedInodes l1 + inodes) = unat (dlReservedInodes l1) + unat inodes"
      and l': "l' = l1\<lparr>dlReservedBytes := dlReservedBytes l1 + bytes, dlReservedInodes := dlReservedInodes l1 + inodes,
           dlHighWaterReservedBytes := max (dlHighWaterReservedBytes l1) (dlReservedBytes l1 + bytes),
           dlHighWaterReservedInodes := max (dlHighWaterReservedInodes l1) (dlReservedInodes l1 + inodes)\<rparr>"
      and g: "diskReservationUser = diskReservationUser \<Longrightarrow> \<not> dlPressured l1
        \<and> \<not> remainingDiskCapacity (currentBytes l1) bytes < dlUserStopBytes l1
        \<and> (doInodesKnown (dlObservation l') \<longrightarrow> dlObservation l' = dlObservation l1
             \<longrightarrow> \<not> remainingDiskCapacity (currentInodes l1) inodes < dlUserStopInodes l1)"
    have acc: "accounts l1 = accounts l" using l1 by simp
    then have a: "dlReservedBytes l1 = dlReservedBytes l" "dlReservedInodes l1 = dlReservedInodes l"
      "dlUserStopBytes l1 = soDiskUserStopBytes options" "dlUserStopInodes l1 = soDiskUserStopInodes options"
      using inv by (simp_all add: accounts_def ledger_inv_def)
    have ob: "dlObservation l' = dlObservation l1" using l' by simp
    have np: "\<not> dlPressured l1" using g by simp
    have "unat (soDiskUserStopBytes options) \<le> unat (doAvailableBytes (dlObservation l1)) - unat (dlReservedBytes l) - unat bytes"
      using g a by (simp add: word_less_nat_alt remaining_unat currentBytes_def not_less)
    moreover have "doInodesKnown (dlObservation l1) \<longrightarrow> unat (soDiskUserStopInodes options)
        \<le> unat (doAvailableInodes (dlObservation l1)) - unat (dlReservedInodes l) - unat inodes"
      using g a ob by (simp add: word_less_nat_alt remaining_unat currentInodes_def not_less)
    moreover have "unat (soDiskResumeBytes options) \<le> unat (doAvailableBytes (dlObservation l1)) - unat (dlReservedBytes l)
        \<and> (doInodesKnown (dlObservation l1) \<longrightarrow>
            unat (soDiskResumeInodes options) \<le> unat (doAvailableInodes (dlObservation l1)) - unat (dlReservedInodes l))"
      if "dlPressured l"
    proof -
      have p: "dlPressured ?o" using that by (simp add: applyObservation_def)
      have "canResume (currentBytes ?o) (currentInodes ?o) ?o"
        using p np l1 by (auto simp: updatePressure_def Let_def canResume_def split: if_splits)
      moreover have "accounts ?o = accounts l" "dlObservation ?o = dlObservation l1" using l1 by simp_all
      ultimately show ?thesis using inv
        by (simp add: canResume_def currentBytes_def currentInodes_def remaining_unat word_less_nat_alt
            word_le_nat_alt not_less accounts_def ledger_inv_def split: if_splits)
    qed
    ultimately show ?thesis using v u a ob np l' by auto
  qed
qed

theorem user_reservation_keeps_floor_witness:
  "\<exists>l. disk_reach example_disk (snd (reserveBegin (freshLedger example_disk))) {#1#} {#}
     \<and> reserveFinish diskReservationUser 500 1 1 (Inr example_observation) (snd (reserveBegin (freshLedger example_disk)))
       = (Inr \<lparr>drBytes = 500, drInodes = 1, drReleased = False\<rparr>, l)
     \<and> unat (dlReservedBytes l) + 67108864 \<le> unat (doAvailableBytes (dlObservation l))"
proof -
  have b: "reserveBegin (freshLedger example_disk) = (1, snd (reserveBegin (freshLedger example_disk)))"
    by (simp add: reserveBegin_def freshLedger_def)
  have r: "disk_reach example_disk (snd (reserveBegin (freshLedger example_disk))) {#1#} {#}"
    using disk_reach.begins [OF disk_reach.fresh b] by simp
  have v: "validateStore example_disk = Inr ()"
    by (simp add: validateStore_def example_disk_def normalizeStore_def if_zero_def)
  have s: "soDiskUserStopBytes example_disk = 67108864" by (simp add: example_disk_def normalizeStore_def if_zero_def)
  show ?thesis using example_grant user_reservation_keeps_floor [OF v r] r s by fastforce
qed

end
