(* ===== verification/Writer.thy ===== *)
theory Writer
  imports Disk_Pressure
begin

text \<open>
  \<open>src/storage/writer.go\<close> and \<open>src/storage/ingress.go\<close>: admission of append requests, their way through
  the ingress ring, and the one handler that forms batches, appends them and answers the requests.

  Requests are numbered; the state maps each number to its request. The ring is a library outside the
  repository: what the code relies on is that published requests are handed to the handler in the
  order of publication, in groups that the library chooses, and that publication can fail. A wake-up
  channel that is closed and replaced is a generation number: a waiter sleeps until the number has
  changed. Statistics counters are left out. The choices that the environment makes for one batch are
  a \<open>writeChoice\<close>.
\<close>

type_synonym request_id = nat
type_synonym appendResult = "Record result"

record appendRequest =
  aqRecord :: Record
  aqCharge :: uint64
  aqDisk :: "diskReservation option"
  aqCompleted :: bool
  aqResultVal :: "appendResult option"
  aqAbandoned :: bool
  aqWaited :: bool

text \<open>The fields of \<open>Partition\<close> that its queue lock protects, with \<open>sealed\<close> and \<open>capacity\<close> of the ingress.\<close>

record writerQueue =
  wqCapacity :: uint32
  wqSealed :: bool
  wqPublicationCredits :: uint32
  wqPublishing :: uint32
  wqPublisherWake :: nat
  wqAdmittedBytes :: uint64
  wqAdmittedRecords :: uint32
  wqWaiting :: uint32
  wqQueueWake :: nat
  wqSpaceWake :: nat
  wqClosingSignal :: bool
  wqQueueClosing :: bool
  wqQueueClosed :: bool
  wqWriterUnavailable :: bool
  wqCloseErr :: error

record writeChoice =
  wcRandom :: id16
  wcTemporaries :: "path \<times> path"
  wcTailLocked :: bool
  wcBudgetLocked :: bool

record writerState =
  wsPartition :: Partition
  wsQueue :: writerQueue
  wsLedger :: "diskPressureLedger option"
  wsBudget :: "tailBudget option"
  wsFiles :: "segmentFileCache option"
  wsWorld :: world
  wsRequests :: "request_id \<Rightarrow> appendRequest"

section \<open>Bookkeeping\<close>

definition signalQueueLocked :: "writerQueue \<Rightarrow> writerQueue" where
  "signalQueueLocked q = q\<lparr>wqQueueWake := wqQueueWake q + 1\<rparr>"

definition signalSpaceLocked :: "writerQueue \<Rightarrow> writerQueue" where
  "signalSpaceLocked q = q\<lparr>wqSpaceWake := wqSpaceWake q + 1\<rparr>"

definition signalPublisherLocked :: "writerQueue \<Rightarrow> writerQueue" where
  "signalPublisherLocked q = q\<lparr>wqPublisherWake := wqPublisherWake q + 1\<rparr>"

definition releaseAdmissionLocked :: "appendRequest \<Rightarrow> writerQueue \<Rightarrow> writerQueue" where
  "releaseAdmissionLocked request q =
     (let q = (if aqCharge request \<le> wqAdmittedBytes q
               then q\<lparr>wqAdmittedBytes := wqAdmittedBytes q - aqCharge request\<rparr>
               else q\<lparr>wqAdmittedBytes := 0\<rparr>);
          q = (if wqAdmittedRecords q > 0
               then q\<lparr>wqAdmittedRecords := wqAdmittedRecords q - 1\<rparr> else q)
      in signalSpaceLocked q)"

definition releasePublicationLocked :: "writerQueue \<Rightarrow> writerQueue" where
  "releasePublicationLocked q =
     (if wqPublicationCredits q > 0
      then q\<lparr>wqPublicationCredits := wqPublicationCredits q - 1\<rparr> else q)"

definition releaseReservationLocked :: "appendRequest \<Rightarrow> writerQueue \<Rightarrow> writerQueue" where
  "releaseReservationLocked request q = releaseAdmissionLocked request (releasePublicationLocked q)"

definition finishPublisher :: "writerQueue \<Rightarrow> writerQueue" where
  "finishPublisher q =
     signalPublisherLocked
       (if wqPublishing q > 0 then q\<lparr>wqPublishing := wqPublishing q - 1\<rparr> else q)"

definition markIngressUnavailable :: "error \<Rightarrow> Partition \<times> writerQueue \<Rightarrow> Partition \<times> writerQueue" where
  "markIngressUnavailable cause pq =
     (case pq of (p, q) \<Rightarrow>
        (signalFetchWaitersLocked (p\<lparr>pUnavailable := True\<rparr>),
         signalSpaceLocked (signalQueueLocked
           (q\<lparr>wqWriterUnavailable := True, wqCloseErr := errorf cause\<rparr>))))"

definition copyRequest :: "Partition \<Rightarrow> uint64 \<Rightarrow> AppendRequest \<Rightarrow> Record" where
  "copyRequest p now request =
     \<lparr>rTopic = pTopic p, rPartition = pPartition p, rOffset = 0, rTimestamp = now, rKey = aKey request,
      rValue = aValue request, rHeaders = aHeaders request\<rparr>"

text \<open>\<open>Append\<close> up to admission: the checks, the charge and the disk reservation. \<open>ctxErr\<close> is \<open>ctx.Err()\<close>
  and \<open>outcome\<close> the file-system probe.\<close>

definition request_record :: "Partition \<Rightarrow> AppendRequest \<Rightarrow> Record" where
  "request_record p request =
     \<lparr>rTopic = pTopic p, rPartition = pPartition p, rOffset = 0, rTimestamp = 0, rKey = aKey request,
      rValue = aValue request, rHeaders = aHeaders request\<rparr>"

definition prepareAppend ::
  "error \<Rightarrow> bool \<Rightarrow> diskObservation result \<Rightarrow> AppendRequest \<Rightarrow> Partition \<Rightarrow> diskPressureLedger option
     \<Rightarrow> appendRequest result \<times> diskPressureLedger option" where
  "prepareAppend ctxErr storeClosing outcome request p ledger =
     (if ctxErr \<noteq> [] then (Inl ctxErr, ledger)
      else if storeClosing then (Inl [ErrClosing], ledger)
      else
        case andThen (requestCharge (pTopic p) (pPartition p) (pOptions p) request) (\<lambda>charge.
               andThen (recordEncodedBytes (request_record p request)) (\<lambda>recordBytes.
               andThen (estimateDiskBatchGrowth (ucast BatchHeaderBytes + of_nat BatchTrailerBytes + recordBytes))
                 (\<lambda>(diskBytes, diskInodes). Inr (charge, diskBytes, diskInodes)))) of
          Inl e \<Rightarrow> (Inl e, ledger)
        | Inr (charge, diskBytes, diskInodes) \<Rightarrow>
            (case reserveDisk p diskBytes diskInodes outcome ledger of
               (Inl e, ledger) \<Rightarrow> (Inl e, ledger)
             | (Inr disk, ledger) \<Rightarrow>
                 (Inr \<lparr>aqRecord = request_record p request, aqCharge = charge, aqDisk = disk,
                       aqCompleted = False, aqResultVal = None, aqAbandoned = False, aqWaited = False\<rparr>,
                  ledger)))"

section \<open>Admission\<close>

text \<open>One pass of the loop of \<open>admit\<close> up to the point where it would wait; the number is the
  generation of \<open>spaceWake\<close> that the caller waits for.\<close>

datatype admission = Admitted | AdmitRefused error | AdmitWait nat

definition admit ::
  "bool \<Rightarrow> PartitionOptions \<Rightarrow> appendRequest \<Rightarrow> writerQueue \<Rightarrow> admission \<times> writerQueue" where
  "admit storeClosing options request q =
     (if storeClosing then (AdmitRefused [ErrClosing], q)
      else if wqQueueClosed q then (AdmitRefused [ErrClosed], q)
      else if wqWriterUnavailable q then (AdmitRefused [ErrPartitionUnavailable], q)
      else if wqQueueClosing q then (AdmitRefused [ErrClosing], q)
      else if aqCharge request > oInFlightBytes options
      then (AdmitRefused [ErrResourceLimit, ErrNew], q)
      else if wqAdmittedRecords q < oInFlightRecords options
              \<and> wqAdmittedBytes q \<le> oInFlightBytes options - aqCharge request
              \<and> wqPublicationCredits q < wqCapacity q
      then (Admitted, q\<lparr>wqAdmittedBytes := wqAdmittedBytes q + aqCharge request,
                        wqAdmittedRecords := wqAdmittedRecords q + 1,
                        wqPublicationCredits := wqPublicationCredits q + 1\<rparr>)
      else if wqWaiting q \<ge> oAdmissionWaiters options then (AdmitRefused [ErrBackpressure], q)
      else (AdmitWait (wqSpaceWake q), q\<lparr>wqWaiting := wqWaiting q + 1\<rparr>))"

text \<open>The three ways out of the wait: the context, free space, which repeats the loop, and closing.\<close>

definition stopWaiting :: "writerQueue \<Rightarrow> writerQueue" where
  "stopWaiting q = (if wqWaiting q > 0 then q\<lparr>wqWaiting := wqWaiting q - 1\<rparr> else q)"

definition closingError :: "writerQueue \<Rightarrow> error" where
  "closingError q = (if wqQueueClosed q then [ErrClosed] else [ErrClosing])"

text \<open>\<open>enqueue\<close> before and after the publication on the ring.\<close>

definition enqueueBegin :: "appendRequest \<Rightarrow> writerQueue \<Rightarrow> unit result \<times> writerQueue" where
  "enqueueBegin request q =
     (if wqQueueClosed q then (Inl [ErrClosed], releaseReservationLocked request q)
      else if wqWriterUnavailable q
      then (Inl [ErrPartitionUnavailable], releaseReservationLocked request q)
      else if wqQueueClosing q \<or> wqSealed q then (Inl [ErrClosing], releaseReservationLocked request q)
      else (Inr (), q\<lparr>wqPublishing := wqPublishing q + 1\<rparr>))"

definition publishFailed ::
  "error \<Rightarrow> appendRequest \<Rightarrow> Partition \<times> writerQueue \<Rightarrow> error \<times> Partition \<times> writerQueue" where
  "publishFailed err request pq =
     (case pq of (p, q) \<Rightarrow>
        let q = releaseReservationLocked request q
        in if errors_Is err ErrContextCanceled \<or> errors_Is err ErrDeadlineExceeded then (err, p, q)
           else (ErrPartitionUnavailable # err, markIngressUnavailable err (p, q)))"

section \<open>Answering requests\<close>

definition complete :: "request_id \<Rightarrow> appendResult \<Rightarrow> writerState \<Rightarrow> writerState" where
  "complete i result s =
     (let request = wsRequests s i
      in if aqCompleted request then s
         else
           let s = s\<lparr>wsQueue := releaseAdmissionLocked request (wsQueue s),
                     wsRequests := (wsRequests s)(i := request\<lparr>aqCompleted := True,
                       aqResultVal := Some result, aqDisk := None\<rparr>)\<rparr>
           in case wsLedger s of
                None \<Rightarrow> s
              | Some l \<Rightarrow> s\<lparr>wsLedger := Some (snd (releaseReservation (aqDisk request) l))\<rparr>)"

fun completeAll :: "request_id list \<Rightarrow> appendResult list \<Rightarrow> writerState \<Rightarrow> writerState" where
  "completeAll (i # is) (r # rs) s = completeAll is rs (complete i r s)"
| "completeAll _ _ s = s"

definition fence :: "error \<Rightarrow> writerState \<Rightarrow> writerState" where
  "fence cause s =
     (case markIngressUnavailable cause (wsPartition s, wsQueue s) of
        (p, q) \<Rightarrow> s\<lparr>wsPartition := p, wsQueue := q\<rparr>)"

text \<open>The records of a batch get their identity and offsets.\<close>

definition offsetRecords :: "Partition \<Rightarrow> Record list \<Rightarrow> Record list" where
  "offsetRecords p rs =
     map (\<lambda>(i, r). r\<lparr>rTopic := pTopic p, rPartition := pPartition p,
                      rOffset := pLogEnd p + of_nat i\<rparr>) (enumerate 0 rs)"

definition formBatch :: "Partition \<Rightarrow> Record list \<Rightarrow> RecordBatch" where
  "formBatch p rs =
     \<lparr>bTopic = pTopic p, bPartition = pPartition p, bBaseOffset = pLogEnd p, bRecords = offsetRecords p rs\<rparr>"

definition appendFormed ::
  "writeChoice \<Rightarrow> RecordBatch \<Rightarrow> Partition \<Rightarrow> world
     \<Rightarrow> (uint64 \<times> tailPublication option) result \<times> Partition \<times> world" where
  "appendFormed choice batch p w =
     (case EncodeBatch batch of
        Inl e \<Rightarrow> (Inl e, p, w)
      | Inr encoded \<Rightarrow>
          if length encoded > unat (oBatchBytes (pOptions p)) then (Inl [ErrRecordTooLarge, ErrNew], p, w)
          else appendEncodedLocked (wcRandom choice) (wcTemporaries choice) batch encoded p w)"

definition writeRequests :: "writeChoice \<Rightarrow> request_id list \<Rightarrow> writerState \<Rightarrow> writerState" where
  "writeRequests choice requests s =
     (let p = wsPartition s
      in if pUnavailable p then
           completeAll requests (map (\<lambda>_. Inl [ErrPartitionUnavailable]) requests)
             (fence [ErrPartitionUnavailable] s)
         else
           let batch = formBatch p (map (\<lambda>i. aqRecord (wsRequests s i)) requests)
           in case appendFormed choice batch p (wsWorld s) of
                (Inl err, p, w) \<Rightarrow>
                  let s = s\<lparr>wsPartition := p, wsWorld := w\<rparr>;
                      s = (if errors_Is err ErrPartitionUnavailable then fence err s else s);
                      resultErr = (if \<not> errors_Is err ErrAppendOutcomeUnknown
                                      \<and> errors_Is err ErrPartitionUnavailable
                                   then [ErrPartitionUnavailable] else err)
                  in completeAll requests (map (\<lambda>_. Inl resultErr) requests) s
              | (Inr (_, publication), p, w) \<Rightarrow>
                  (case publishTail (wcTailLocked choice) (wcBudgetLocked choice) publication p (wsBudget s) of
                     (p, budget) \<Rightarrow>
                       completeAll requests (map Inr (bRecords batch))
                         (s\<lparr>wsPartition := p, wsWorld := w, wsBudget := budget\<rparr>)))"

text \<open>\<open>writeIngressBatches\<close> splits the requests of one group into batches within the limits.\<close>

fun ingressLoop ::
  "(nat \<Rightarrow> writeChoice) \<Rightarrow> nat \<Rightarrow> request_id list \<Rightarrow> request_id list \<Rightarrow> uint64 \<Rightarrow> writerState \<Rightarrow> writerState" where
  "ingressLoop choices k [] batch batchBytes s =
     (if batch \<noteq> [] then writeRequests (choices k) batch s else s)"
| "ingressLoop choices k (i # is) batch batchBytes s =
     (case recordEncodedBytes (aqRecord (wsRequests s i)) of
        Inl e \<Rightarrow> ingressLoop choices k is batch batchBytes (complete i (Inl e) s)
      | Inr recordBytes \<Rightarrow>
          let options = pOptions (wsPartition s)
          in if batch \<noteq> [] \<and> (of_nat (length batch) = oBatchRecords options
                              \<or> batchBytes + recordBytes > ucast (oBatchBytes options))
             then ingressLoop choices (Suc k) is [i]
                    (ucast BatchHeaderBytes + of_nat BatchTrailerBytes + recordBytes)
                    (writeRequests (choices k) batch s)
             else ingressLoop choices k is (batch @ [i]) (batchBytes + recordBytes) s)"

definition writeIngressBatches ::
  "(nat \<Rightarrow> writeChoice) \<Rightarrow> request_id list \<Rightarrow> writerState \<Rightarrow> writerState" where
  "writeIngressBatches choices requests s =
     ingressLoop choices 0 requests [] (ucast BatchHeaderBytes + of_nat BatchTrailerBytes) s"

text \<open>\<open>Handle\<close>: one event of the ring, with the requests collected so far.\<close>

definition Handle ::
  "(nat \<Rightarrow> writeChoice) \<Rightarrow> request_id \<Rightarrow> bool \<Rightarrow> request_id list \<Rightarrow> writerState
     \<Rightarrow> request_id list \<times> writerState" where
  "Handle choices i endOfBatch requests s =
     (let s = s\<lparr>wsQueue := releasePublicationLocked (wsQueue s)\<rparr>;
          requests = requests @ [i]
      in if \<not> endOfBatch then (requests, s)
         else ([], writeIngressBatches choices requests s))"

definition failPending :: "error \<Rightarrow> request_id list \<Rightarrow> writerState \<Rightarrow> writerState" where
  "failPending cause requests s =
     completeAll requests
       (map (\<lambda>_. Inl (ErrAppendOutcomeUnknown # ErrPartitionUnavailable # cause)) requests) s"

fun drainPending :: "error \<Rightarrow> request_id list \<Rightarrow> writerState \<Rightarrow> writerState" where
  "drainPending cause [] s = s"
| "drainPending cause (i # is) s =
     drainPending cause is
       (complete i (Inl (ErrAppendOutcomeUnknown # ErrPartitionUnavailable # cause))
         (s\<lparr>wsQueue := releasePublicationLocked (wsQueue s)\<rparr>))"

text \<open>What a caller gets that stops waiting because its context ended.\<close>

definition waitCancelled :: "error \<Rightarrow> request_id \<Rightarrow> writerState \<Rightarrow> appendResult \<times> writerState" where
  "waitCancelled ctxErr i s =
     (let request = wsRequests s i
      in case (aqCompleted request, aqResultVal request) of
           (True, Some result) \<Rightarrow> (result, s)
         | _ \<Rightarrow> (Inl (ErrAppendOutcomeUnknown # ctxErr),
                  s\<lparr>wsRequests := (wsRequests s)(i := request\<lparr>aqAbandoned := True\<rparr>)\<rparr>))"

section \<open>Closing\<close>

definition closeBegin :: "writerQueue \<Rightarrow> writerQueue" where
  "closeBegin q =
     signalSpaceLocked (signalQueueLocked
       (q\<lparr>wqQueueClosing := True, wqSealed := True, wqClosingSignal := True\<rparr>))"

definition closeFence :: "writerState \<Rightarrow> writerState" where
  "closeFence s =
     (let p = signalFetchWaitersLocked ((wsPartition s)\<lparr>pClosing := True\<rparr>)
      in case tail_close (pTail p) (wsBudget s) of
           (tail, budget) \<Rightarrow> s\<lparr>wsPartition := p\<lparr>pTail := tail\<rparr>, wsBudget := budget\<rparr>)"

text \<open>Checkpointing the indexes that are not on disk, then closing the handles.\<close>

fun checkpointSegments ::
  "(nat \<Rightarrow> path \<times> path) \<Rightarrow> nat \<Rightarrow> StoreID \<Rightarrow> uint64 \<Rightarrow> segment list \<Rightarrow> world \<Rightarrow> segment list \<times> world" where
  "checkpointSegments ts k sid stride [] w = ([], w)"
| "checkpointSegments ts k sid stride (s # ss) w =
     (if \<not> sgIndexDirty s then
        (case checkpointSegments ts k sid stride ss w of (ss, w) \<Rightarrow> (s # ss, w))
      else
        case installSegmentIndexes (ts k) s sid stride w of
          (_, s, w) \<Rightarrow>
            (case checkpointSegments ts (Suc k) sid stride ss w of (ss, w) \<Rightarrow> (s # ss, w)))"

fun closeHandles ::
  "segment list \<Rightarrow> segmentFileCache option \<Rightarrow> world
     \<Rightarrow> error \<times> segment list \<times> segmentFileCache option \<times> world" where
  "closeHandles [] files w = ([], [], files, w)"
| "closeHandles (s # ss) files w =
     (case (if sgOpen s then fileClose (sgPath s) w else (Inr (), w)) of
        (r, w) \<Rightarrow>
          (case (case files of
                   None \<Rightarrow> (None, w)
                 | Some c \<Rightarrow> (case forget (sgPath s) c w of (c, w) \<Rightarrow> (Some c, w))) of
             (files, w) \<Rightarrow>
               (case closeHandles ss files w of
                  (e, ss, files, w) \<Rightarrow>
                    ((case r of Inl e' \<Rightarrow> e' @ e | Inr _ \<Rightarrow> e), s\<lparr>sgOpen := False\<rparr> # ss, files, w))))"

definition closeFinish :: "(nat \<Rightarrow> path \<times> path) \<Rightarrow> writerState \<Rightarrow> error \<times> writerState" where
  "closeFinish ts s =
     (let p = wsPartition s;
          q = wsQueue s
      in if pClosed p then (wqCloseErr q, s\<lparr>wsQueue := q\<lparr>wqQueueClosed := True\<rparr>\<rparr>)
         else
           case checkpointSegments ts 0 (pStoreID p) (oIndexStride (pOptions p)) (pSegments p) (wsWorld s) of
             (segments, w) \<Rightarrow>
               (case closeHandles segments (wsFiles s) w of
                  (e, segments, files, w) \<Rightarrow>
                    let closeErr = wqCloseErr q @ e
                    in (closeErr,
                        s\<lparr>wsPartition := signalFetchWaitersLocked (p\<lparr>pClosed := True, pSegments := segments\<rparr>),
                          wsQueue := q\<lparr>wqCloseErr := closeErr, wqQueueClosed := True\<rparr>,
                          wsFiles := files, wsWorld := w\<rparr>)))"

section \<open>Answering frees what was admitted\<close>

text \<open>\<open>frees n b q q'\<close>: the queue \<open>q'\<close> is \<open>q\<close> with \<open>n\<close> records and \<open>b\<close> bytes less in admission.\<close>

definition frees :: "nat \<Rightarrow> nat \<Rightarrow> writerQueue \<Rightarrow> writerQueue \<Rightarrow> bool" where
  "frees n b q q' \<longleftrightarrow>
     unat (wqAdmittedRecords q') + n = unat (wqAdmittedRecords q)
     \<and> unat (wqAdmittedBytes q') + b = unat (wqAdmittedBytes q)
     \<and> wqPublicationCredits q' = wqPublicationCredits q \<and> wqPublishing q' = wqPublishing q
     \<and> wqWaiting q' = wqWaiting q \<and> wqCapacity q' = wqCapacity q \<and> wqSealed q' = wqSealed q
     \<and> wqClosingSignal q' = wqClosingSignal q \<and> wqQueueClosing q' = wqQueueClosing q
     \<and> wqQueueClosed q' = wqQueueClosed q"

lemma frees_refl: "frees 0 0 q q"
  by (simp add: frees_def)

lemma frees_trans: "frees m a q r \<Longrightarrow> frees n b r s \<Longrightarrow> frees (m + n) (a + b) q s"
  by (simp add: frees_def)

lemma word_pred: "0 < unat (n :: 'a::len word) \<Longrightarrow> unat (n - 1) + 1 = unat n"
  by (simp add: unat_minus_one word_neq_0_conv [symmetric] unat_gt_0)

lemma releaseAdmission_frees:
  assumes "aqCharge request \<le> wqAdmittedBytes q" and "0 < unat (wqAdmittedRecords q)"
  shows "frees 1 (unat (aqCharge request)) q (releaseAdmissionLocked request q)"
proof -
  have "unat (wqAdmittedBytes q - aqCharge request) + unat (aqCharge request) = unat (wqAdmittedBytes q)"
    using assms(1) by (simp add: unat_sub word_le_nat_alt)
  then show ?thesis
    using assms word_pred [OF assms(2)]
    by (simp add: frees_def releaseAdmissionLocked_def signalSpaceLocked_def Let_def word_less_nat_alt)
qed

lemma fence_queue: "frees 0 0 q (snd (markIngressUnavailable e (p, q)))"
  by (simp add: frees_def markIngressUnavailable_def signalSpaceLocked_def signalQueueLocked_def)

text \<open>\<open>pending ids s\<close>: the requests \<open>ids\<close> are admitted and not answered. \<open>answers ids s s'\<close>: exactly
  these were answered.\<close>

definition charges :: "writerState \<Rightarrow> request_id list \<Rightarrow> nat" where
  "charges s ids = (\<Sum>i \<leftarrow> ids. unat (aqCharge (wsRequests s i)))"

definition pending :: "request_id list \<Rightarrow> writerState \<Rightarrow> bool" where
  "pending ids s \<longleftrightarrow>
     distinct ids \<and> (\<forall>i \<in> set ids. \<not> aqCompleted (wsRequests s i))
     \<and> length ids \<le> unat (wqAdmittedRecords (wsQueue s)) \<and> charges s ids \<le> unat (wqAdmittedBytes (wsQueue s))"

definition answers :: "request_id list \<Rightarrow> writerState \<Rightarrow> writerState \<Rightarrow> bool" where
  "answers ids s s' \<longleftrightarrow>
     (\<forall>i \<in> set ids. aqCompleted (wsRequests s' i))
     \<and> (\<forall>i. i \<notin> set ids \<longrightarrow> wsRequests s' i = wsRequests s i)
     \<and> (\<forall>i. aqRecord (wsRequests s' i) = aqRecord (wsRequests s i)
          \<and> aqCharge (wsRequests s' i) = aqCharge (wsRequests s i))
     \<and> frees (length ids) (charges s ids) (wsQueue s) (wsQueue s')"

lemma answers_none: "wsRequests s' = wsRequests s \<Longrightarrow> frees 0 0 (wsQueue s) (wsQueue s') \<Longrightarrow> answers [] s s'"
  by (simp add: answers_def charges_def)

lemma answers_charges: "answers ids s s' \<Longrightarrow> charges s' js = charges s js"
  by (simp add: answers_def charges_def)

lemma answers_trans:
  assumes "answers is s s1" and "answers js s1 s2"
  shows "answers (is @ js) s s2"
proof -
  have "frees (length is + length js) (charges s is + charges s js) (wsQueue s) (wsQueue s2)"
    using assms answers_charges [OF assms(1), of js] frees_trans unfolding answers_def by metis
  moreover have "charges s is + charges s js = charges s (is @ js)" by (simp add: charges_def)
  moreover have "aqCompleted (wsRequests s2 i)" if "i \<in> set is" for i
    using assms that by (cases "i \<in> set js") (simp_all add: answers_def)
  ultimately show ?thesis using assms by (auto simp: answers_def)
qed

lemma charges_mset: "mset is = mset js \<Longrightarrow> charges s is = charges s js"
  unfolding charges_def sum_mset_sum_list [symmetric] mset_map by simp

lemma answers_mset:
  assumes "answers is s s'" and "mset is = mset js"
  shows "answers js s s'"
  using assms(1) unfolding answers_def
  by (simp add: mset_eq_setD [OF assms(2)] mset_eq_length [OF assms(2)] charges_mset [OF assms(2)])

lemma pending_mset:
  assumes "pending is s" and "mset is = mset js"
  shows "pending js s"
  using assms(1) unfolding pending_def
  by (simp add: mset_eq_setD [OF assms(2)] mset_eq_length [OF assms(2)] charges_mset [OF assms(2)]
      mset_eq_imp_distinct_iff [OF assms(2)])

lemma pending_after:
  assumes "pending (is @ js) s" and "answers is s s'"
  shows "pending js s'"
proof -
  have "wsRequests s' i = wsRequests s i" if "i \<in> set js" for i
    using that assms by (auto simp: pending_def answers_def)
  moreover have "frees (length is) (charges s is) (wsQueue s) (wsQueue s')" using assms(2) by (simp add: answers_def)
  ultimately show ?thesis
    using assms(1) answers_charges [OF assms(2), of js]
    by (auto simp: pending_def frees_def charges_def)
qed

lemma pending_prefix: "pending (is @ js) s \<Longrightarrow> pending is s"
  by (auto simp: pending_def charges_def)

lemma complete_state:
  "wsPartition (complete i r s) = wsPartition s" "wsWorld (complete i r s) = wsWorld s"
  "wsBudget (complete i r s) = wsBudget s" "wsFiles (complete i r s) = wsFiles s"
  by (simp_all add: complete_def Let_def split: option.splits)

lemma complete_answers:
  assumes "pending [i] s"
  shows "answers [i] s (complete i r s)" and "aqResultVal (wsRequests (complete i r s) i) = Some r"
proof -
  have "aqCharge (wsRequests s i) \<le> wqAdmittedBytes (wsQueue s)" "0 < unat (wqAdmittedRecords (wsQueue s))"
    using assms by (auto simp: pending_def charges_def word_le_nat_alt)
  then have "frees 1 (charges s [i]) (wsQueue s) (wsQueue (complete i r s))"
    using releaseAdmission_frees assms by (auto simp: charges_def complete_def Let_def pending_def split: option.splits)
  then show "answers [i] s (complete i r s)"
    using assms by (auto simp: answers_def complete_def Let_def pending_def split: option.splits)
  show "aqResultVal (wsRequests (complete i r s) i) = Some r"
    using assms by (auto simp: complete_def Let_def pending_def split: option.splits)
qed

lemma completeAll_state:
  "wsPartition (completeAll ids rs s) = wsPartition s" "wsWorld (completeAll ids rs s) = wsWorld s"
  "wsBudget (completeAll ids rs s) = wsBudget s" "wsFiles (completeAll ids rs s) = wsFiles s"
  by (induction ids rs s rule: completeAll.induct) (simp_all add: complete_state)

lemma completeAll_answers:
  assumes "pending ids s" and "length rs = length ids"
  shows "answers ids s (completeAll ids rs s)
    \<and> map (\<lambda>i. aqResultVal (wsRequests (completeAll ids rs s) i)) ids = map Some rs"
  using assms
proof (induction ids rs s rule: completeAll.induct)
  case (1 i "is" r rs s)
  have p: "pending [i] s" using pending_prefix [of "[i]" "is" s] 1(2) by simp
  note c = complete_answers [OF p, of r]
  have "pending is (complete i r s)" using pending_after [of "[i]" "is" s] 1(2) c(1) by simp
  moreover have "length rs = length is" using 1(3) by simp
  ultimately have IH: "answers is (complete i r s) (completeAll is rs (complete i r s))
      \<and> map (\<lambda>j. aqResultVal (wsRequests (completeAll is rs (complete i r s)) j)) is = map Some rs"
    by (rule 1(1))
  have "i \<notin> set is" using 1(2) by (simp add: pending_def)
  then have "aqResultVal (wsRequests (completeAll is rs (complete i r s)) i) = Some r"
    using conjunct1 [OF IH] c(2) by (simp add: answers_def)
  then show ?case using answers_trans [OF c(1) conjunct1 [OF IH]] conjunct2 [OF IH] by simp
qed (simp_all add: answers_none frees_refl)

section \<open>Batches and the log\<close>

lemma partition_image_cong:
  assumes "pTopic q = pTopic p" and "pPartition q = pPartition p" and "pDir q = pDir p"
    and "pSegments q = pSegments p" and "pLogEnd q = pLogEnd p"
  shows "partition_image w q css tail = partition_image w p css tail"
  using assms by (simp add: partition_image_def stored_def [abs_def])

lemma torn_image_cong:
  assumes "pTopic q = pTopic p" and "pPartition q = pPartition p" and "pDir q = pDir p"
    and "pLogEnd q = pLogEnd p"
  shows "torn_image w q log c b = torn_image w p log c b"
proof -
  have "partition_image w (q\<lparr>pSegments := segments\<rparr>) css tail = partition_image w (p\<lparr>pSegments := segments\<rparr>) css tail"
    for segments css tail using assms by (intro partition_image_cong) simp_all
  then show ?thesis using assms by (simp add: torn_image_def)
qed

text \<open>\<open>log_state log s\<close>: the partition holds \<open>log\<close>. Once it is unavailable, only its files count, which
  may end in the beginning of a batch.\<close>

definition log_state :: "Record list \<Rightarrow> writerState \<Rightarrow> bool" where
  "log_state log s \<longleftrightarrow>
     options_ok (pOptions (wsPartition s))
     \<and> (if pUnavailable (wsPartition s) then \<exists>c b. torn_image (wsWorld s) (wsPartition s) log c b
        else \<exists>css. partition_inv (wsWorld s) (wsPartition s) css \<and> log_of css = log)"

lemma log_state_torn:
  assumes "log_state log s"
  shows "\<exists>c b. torn_image (wsWorld s) (wsPartition s) log c b"
proof (cases "pUnavailable (wsPartition s)")
  case False
  then obtain css where "partition_inv (wsWorld s) (wsPartition s) css" "log_of css = log"
    using assms by (auto simp: log_state_def)
  then show ?thesis
    using torn_imageI [where segments = "pSegments (wsPartition s)" and p = "wsPartition s"] by simp
qed (use assms in \<open>simp add: log_state_def\<close>)

lemma append_failure_cases:
  assumes "partition_inv w p css" and "options_ok (pOptions p)" and "EncodeBatch batch = Inr encoded"
    and "last (fst ts) = 0x70" and "last (snd ts) = 0x70"
    and "appendEncodedLocked random ts batch encoded p w = (Inl e, p', w')"
  shows "p' = p \<and> w' = w
    \<or> (\<exists>segments. p' = p\<lparr>pSegments := segments, pUnavailable := True\<rparr>)"
proof -
  have p: "p\<lparr>pUnavailable := True\<rparr> = p\<lparr>pSegments := pSegments p, pUnavailable := True\<rparr>" by simp
  from append_steps [OF assms]
  consider "p' = p" "w' = w" | "p' = p\<lparr>pUnavailable := True\<rparr>"
    | q v segments where "writeActive batch encoded q v = (Inl e, p', w')" "q = p\<lparr>pSegments := segments\<rparr>"
    by auto
  then show ?thesis
  proof cases
    case 2
    then show ?thesis using p by blast
  next
    case 3
    then have "p' = p\<lparr>pSegments := segments, pUnavailable := True\<rparr>"
      by (auto simp: writeActive_def Let_def split: prod.splits sum.splits if_splits)
    then show ?thesis by blast
  qed simp
qed

text \<open>The parts of a partition that a batch leaves alone, and how the end of the log moves.\<close>

definition same_partition :: "nat \<Rightarrow> Partition \<Rightarrow> Partition \<Rightarrow> bool" where
  "same_partition n p p' \<longleftrightarrow>
     pTopic p' = pTopic p \<and> pPartition p' = pPartition p \<and> pDir p' = pDir p \<and> pOptions p' = pOptions p
     \<and> pLogEnd p' = pLogEnd p + of_nat n \<and> (pUnavailable p \<longrightarrow> pUnavailable p')"

lemma same_partition_refl [simp]: "same_partition 0 p p"
  by (simp add: same_partition_def)

lemma same_partition_trans: "same_partition m p q \<Longrightarrow> same_partition n q r \<Longrightarrow> same_partition (m + n) p r"
  by (simp add: same_partition_def add.assoc)

lemma fence_state:
  "wsWorld (fence e s) = wsWorld s" "wsRequests (fence e s) = wsRequests s" "wsBudget (fence e s) = wsBudget s"
  "wsFiles (fence e s) = wsFiles s" "wsLedger (fence e s) = wsLedger s"
  "pUnavailable (wsPartition (fence e s))" "same_partition 0 (wsPartition s) (wsPartition (fence e s))"
  "pClosed (wsPartition (fence e s)) = pClosed (wsPartition s)"
  by (simp_all add: fence_def markIngressUnavailable_def signalFetchWaitersLocked_def same_partition_def)

lemma fence_answers: "answers [] s (fence e s)"
  using fence_queue [of "wsQueue s" e "wsPartition s"]
  by (intro answers_none) (auto simp: fence_def split: prod.splits)

lemma fence_log:
  assumes "log_state log s"
  shows "log_state log (fence e s)"
proof -
  obtain c b where "torn_image (wsWorld s) (wsPartition s) log c b" using log_state_torn [OF assms] by blast
  moreover have "torn_image w (wsPartition (fence e s)) log c b = torn_image w (wsPartition s) log c b" for w
    using fence_state(7) [of s e] by (intro torn_image_cong) (simp_all add: same_partition_def)
  ultimately show ?thesis
    using assms fence_state(7) [of s e] by (auto simp: log_state_def fence_state same_partition_def)
qed

text \<open>What \<open>writeRequests\<close> makes of a batch of pending requests: all get the same error and the log stays, or
  all get their record and the log grows by these records.\<close>

definition choice_ok :: "writeChoice \<Rightarrow> bool" where
  "choice_ok c \<longleftrightarrow> last (fst (wcTemporaries c)) = 0x70 \<and> last (snd (wcTemporaries c)) = 0x70"

definition written :: "request_id list \<Rightarrow> Record list \<Rightarrow> writerState \<Rightarrow> Record list \<Rightarrow> writerState \<Rightarrow> bool" where
  "written ids log s log' s' \<longleftrightarrow>
     answers ids s s' \<and> log_state log' s'
     \<and> ((\<exists>e. map (\<lambda>i. aqResultVal (wsRequests s' i)) ids = map (\<lambda>_. Some (Inl e)) ids) \<and> log' = log
          \<and> same_partition 0 (wsPartition s) (wsPartition s')
        \<or> (let rs = offsetRecords (wsPartition s) (map (aqRecord \<circ> wsRequests s) ids)
           in map (\<lambda>i. aqResultVal (wsRequests s' i)) ids = map (Some \<circ> Inr) rs \<and> log' = log @ rs
              \<and> same_partition (length ids) (wsPartition s) (wsPartition s')))"

lemma offsetRecords_length [simp]: "length (offsetRecords p rs) = length rs"
  by (simp add: offsetRecords_def)

lemma log_state_queue:
  "log_state log (s\<lparr>wsQueue := q\<rparr>) = log_state log s"
  by (simp add: log_state_def)

lemma completeAll_records:
  assumes "pending ids t" and "answers [] s t" and "log_state (log @ rs) t"
    and "rs = offsetRecords (wsPartition s) (map (aqRecord \<circ> wsRequests s) ids)"
    and "same_partition (length ids) (wsPartition s) (wsPartition t)"
  shows "written ids log s (log @ rs) (completeAll ids (map Inr rs) t)"
proof -
  have l: "length (map Inr rs) = length ids" using assms(4) by simp
  have c: "answers ids t (completeAll ids (map Inr rs) t)"
    "map (\<lambda>i. aqResultVal (wsRequests (completeAll ids (map Inr rs) t) i)) ids = map (Some \<circ> Inr) rs"
    using completeAll_answers [OF assms(1) l] by auto
  have "answers ids s (completeAll ids (map Inr rs) t)" using answers_trans [OF assms(2) c(1)] by simp
  moreover have "log_state (log @ rs) (completeAll ids (map Inr rs) t)"
    using assms(3) completeAll_state by (simp add: log_state_def)
  moreover have "same_partition (length ids) (wsPartition s) (wsPartition (completeAll ids (map Inr rs) t))"
    using assms(5) by (simp add: completeAll_state)
  ultimately show ?thesis using c(2) assms(4) unfolding written_def Let_def by blast
qed

lemma written_errors:
  assumes "pending ids t" and "answers [] s t" and "log_state log t" and "same_partition 0 (wsPartition s) (wsPartition t)"
  shows "written ids log s log (completeAll ids (map (\<lambda>_. Inl e) ids) t)"
proof -
  have c: "answers ids t (completeAll ids (map (\<lambda>_. Inl e) ids) t)"
    "map (\<lambda>i. aqResultVal (wsRequests (completeAll ids (map (\<lambda>_. Inl e) ids) t) i)) ids = map (\<lambda>_. Some (Inl e)) ids"
    using completeAll_answers [OF assms(1), of "map (\<lambda>_. Inl e) ids"] by (auto simp: o_def)
  have "answers ids s (completeAll ids (map (\<lambda>_. Inl e) ids) t)" using answers_trans [OF assms(2) c(1)] by simp
  moreover have "log_state log (completeAll ids (map (\<lambda>_. Inl e) ids) t)"
    using assms(3) completeAll_state by (simp add: log_state_def)
  moreover have "same_partition 0 (wsPartition s) (wsPartition (completeAll ids (map (\<lambda>_. Inl e) ids) t))"
    using assms(4) by (simp add: completeAll_state)
  ultimately show ?thesis using c(2) unfolding written_def by blast
qed

text \<open>The append inside \<open>writeRequests\<close>.\<close>

lemma appendFormed_effect:
  assumes inv: "partition_inv w p css" and opt: "options_ok (pOptions p)" and ch: "choice_ok choice"
    and run: "appendFormed choice batch p w = (r, p', w')"
  shows "case r of
      Inr (off, pub) \<Rightarrow> (\<exists>css'. partition_inv w' p' css' \<and> log_of css' = log_of css @ bRecords batch)
        \<and> same_partition (length (bRecords batch)) p p' \<and> pUnavailable p' = pUnavailable p
    | Inl e \<Rightarrow> same_partition 0 p p'
        \<and> (p' = p \<and> w' = w \<or> pUnavailable p' \<and> (\<exists>c b. torn_image w' p' (log_of css) c b))"
proof (cases "\<exists>encoded. EncodeBatch batch = Inr encoded \<and> \<not> length encoded > unat (oBatchBytes (pOptions p))")
  case False
  then have "\<exists>e. r = Inl e \<and> p' = p \<and> w' = w"
    using run by (auto simp: appendFormed_def split: sum.splits if_splits)
  then show ?thesis by auto
next
  case True
  then obtain encoded where enc: "EncodeBatch batch = Inr encoded"
    and a: "appendEncodedLocked (wcRandom choice) (wcTemporaries choice) batch encoded p w = (r, p', w')"
    using run by (auto simp: appendFormed_def)
  have ts: "last (fst (wcTemporaries choice)) = 0x70" "last (snd (wcTemporaries choice)) = 0x70"
    using ch by (simp_all add: choice_ok_def)
  show ?thesis
  proof (cases r)
    case (Inl e)
    note a' = a [unfolded Inl]
    have t: "torn_image w' p (log_of css) encoded batch" by (rule append_failure_torn [OF inv opt enc ts a'])
    from append_failure_cases [OF inv opt enc ts a'] show ?thesis
    proof (elim disjE exE)
      fix segments assume p': "p' = p\<lparr>pSegments := segments, pUnavailable := True\<rparr>"
      then have "torn_image w' p' (log_of css) encoded batch" using t torn_image_cong [of p' p] by simp
      then show ?thesis using Inl p' by (auto simp: same_partition_def)
    qed (simp add: Inl)
  next
    case (Inr x)
    obtain off pub where x: "x = (off, pub)" by (cases x)
    note a' = a [unfolded Inr x]
    note s = append_success_image [OF inv opt enc ts a']
    have "pUnavailable p' = pUnavailable p"
      using a' by (auto simp: appendEncodedLocked_def rollSegment_def writeActive_def Let_def extendPrefixDigestLocked_def
          signalFetchWaitersLocked_def split: if_splits sum.splits prod.splits option.splits)
    then show ?thesis using s append_static [OF a'] Inr x by (simp add: same_partition_def)
  qed
qed

lemma bRecords_formBatch [simp]: "bRecords (formBatch p rs) = offsetRecords p rs"
  by (simp add: formBatch_def)

lemma pending_cong:
  assumes "wsRequests t = wsRequests s" and "frees 0 0 (wsQueue s) (wsQueue t)" and "pending ids s"
  shows "pending ids t"
  using assms by (simp add: pending_def frees_def charges_def)

lemma writeRequests_failed:
  assumes "pending ids s" and "log_state log (s\<lparr>wsPartition := p, wsWorld := w\<rparr>)" and "same_partition 0 (wsPartition s) p"
    and "t = (if fenced then fence e (s\<lparr>wsPartition := p, wsWorld := w\<rparr>) else s\<lparr>wsPartition := p, wsWorld := w\<rparr>)"
  shows "written ids log s log (completeAll ids (map (\<lambda>_. Inl err) ids) t)"
proof (rule written_errors)
  let ?s = "s\<lparr>wsPartition := p, wsWorld := w\<rparr>"
  have a: "answers [] s ?s" by (rule answers_none) (simp_all add: frees_refl)
  show b: "answers [] s t" using answers_trans [OF a fence_answers, of e] a assms(4) by auto
  show "log_state log t" using assms(2,4) fence_log by auto
  show "same_partition 0 (wsPartition s) (wsPartition t)"
    using same_partition_trans [OF assms(3)] fence_state(7) [of ?s e] assms(3,4) by (auto split: if_splits)
  have "wsRequests t = wsRequests s" using assms(4) by (simp add: fence_state)
  then show "pending ids t" using b assms(1) by (intro pending_cong [of t s]) (simp_all add: answers_def charges_def)
qed

lemma writeRequests_written:
  assumes pend: "pending ids s" and log: "log_state log s" and ch: "choice_ok choice"
  shows "\<exists>log'. written ids log s log' (writeRequests choice ids s)"
proof (cases "pUnavailable (wsPartition s)")
  case True
  have "s\<lparr>wsPartition := wsPartition s, wsWorld := wsWorld s\<rparr> = s" by simp
  then have "written ids log s log (completeAll ids (map (\<lambda>_. Inl [ErrPartitionUnavailable]) ids)
      (fence [ErrPartitionUnavailable] s))"
    using pend log by (intro writeRequests_failed [where p = "wsPartition s" and w = "wsWorld s" and fenced = True
      and e = "[ErrPartitionUnavailable]"]) simp_all
  then show ?thesis using True by (auto simp: writeRequests_def)
next
  case False
  define rs where "rs = offsetRecords (wsPartition s) (map (aqRecord \<circ> wsRequests s) ids)"
  define batch where "batch = formBatch (wsPartition s) (map (\<lambda>i. aqRecord (wsRequests s i)) ids)"
  have rs: "bRecords batch = rs" by (simp add: batch_def rs_def o_def)
  obtain css where inv: "partition_inv (wsWorld s) (wsPartition s) css" "log_of css = log"
    and opt: "options_ok (pOptions (wsPartition s))"
    using log False by (auto simp: log_state_def)
  obtain r p w where run: "appendFormed choice batch (wsPartition s) (wsWorld s) = (r, p, w)"
    using prod_cases3 by blast
  note eff = appendFormed_effect [OF inv(1) opt ch run]
  show ?thesis
  proof (cases r)
    case (Inl e)
    let ?s = "s\<lparr>wsPartition := p, wsWorld := w\<rparr>"
    let ?t = "if errors_Is e ErrPartitionUnavailable then fence e ?s else ?s"
    have same: "same_partition 0 (wsPartition s) p" using eff Inl by simp
    have "log_state log ?s"
    proof (cases "p = wsPartition s \<and> w = wsWorld s")
      case True
      then show ?thesis using log by simp
    next
      case False
      then show ?thesis using eff Inl same opt inv(2) by (auto simp: log_state_def same_partition_def)
    qed
    then have "written ids log s log (completeAll ids (map (\<lambda>_. Inl err) ids) ?t)" for err
      by (intro writeRequests_failed [OF pend _ same refl])
    moreover have "\<exists>err. writeRequests choice ids s = completeAll ids (map (\<lambda>_. Inl err) ids) ?t"
      using False run Inl
      by (intro exI [of _ "if \<not> errors_Is e ErrAppendOutcomeUnknown \<and> errors_Is e ErrPartitionUnavailable
        then [ErrPartitionUnavailable] else e"]) (simp add: writeRequests_def batch_def [symmetric] Let_def)
    ultimately show ?thesis by metis
  next
    case (Inr x)
    obtain off pub where x: "x = (off, pub)" by (cases x)
    obtain q budget where pt: "publishTail (wcTailLocked choice) (wcBudgetLocked choice) pub p (wsBudget s) = (q, budget)"
      by fastforce
    have q: "\<exists>tl. q = p\<lparr>pTail := tl\<rparr> \<or> q = p"
      using pt by (auto simp: publishTail_def split: option.splits prod.splits)
    let ?t = "s\<lparr>wsPartition := q, wsWorld := w, wsBudget := budget\<rparr>"
    obtain css' where css': "partition_inv w p css'" "log_of css' = log @ rs"
      and same: "same_partition (length rs) (wsPartition s) p" "\<not> pUnavailable p"
      using eff Inr x rs inv(2) False by auto
    have "partition_inv w q css'" using css'(1) partition_image_cong [of q p] q by auto
    moreover have "\<not> pUnavailable q" "options_ok (pOptions q)" "same_partition (length ids) (wsPartition s) q"
      using q same opt by (auto simp: same_partition_def rs_def)
    ultimately have "log_state (log @ rs) ?t" "same_partition (length ids) (wsPartition s) (wsPartition ?t)"
      using css'(2) by (auto simp: log_state_def)
    moreover have "answers [] s ?t" by (rule answers_none) (simp_all add: frees_refl)
    moreover have "pending ids ?t" using pend by (intro pending_cong [of ?t s]) (simp_all add: frees_refl)
    ultimately have "written ids log s (log @ rs) (completeAll ids (map Inr rs) ?t)"
      by (intro completeAll_records) (simp_all add: rs_def)
    then show ?thesis
      using False run Inr x pt rs unfolding writeRequests_def batch_def [symmetric] Let_def by auto
  qed
qed

section \<open>The log is what was acknowledged\<close>

definition acked :: "writerState \<Rightarrow> request_id set" where
  "acked s = {i. \<exists>r. aqResultVal (wsRequests s i) = Some (Inr r)}"

definition result_of :: "writerState \<Rightarrow> request_id \<Rightarrow> Record" where
  "result_of s i = projr (the (aqResultVal (wsRequests s i)))"

text \<open>\<open>acks old log s\<close>: \<open>log\<close> is \<open>old\<close> and then the records of the acknowledged requests, each once; and each of
  these records is the one that was asked for, with its place in the log.\<close>

definition acks :: "Record list \<Rightarrow> Record list \<Rightarrow> writerState \<Rightarrow> bool" where
  "acks old log s \<longleftrightarrow>
     (\<forall>i. aqCompleted (wsRequests s i) \<longleftrightarrow> aqResultVal (wsRequests s i) \<noteq> None)
     \<and> (\<exists>ids. distinct ids \<and> set ids = acked s \<and> log = old @ map (result_of s) ids)
     \<and> (\<forall>i r. aqResultVal (wsRequests s i) = Some (Inr r) \<longrightarrow>
          r = (aqRecord (wsRequests s i))\<lparr>rTopic := pTopic (wsPartition s),
                rPartition := pPartition (wsPartition s), rOffset := rOffset r\<rparr>)"

lemma acks_cong:
  assumes "acks old log s" and "\<And>i. aqCompleted (wsRequests t i) = aqCompleted (wsRequests s i)"
    and "\<And>i. aqResultVal (wsRequests t i) = aqResultVal (wsRequests s i)"
    and "\<And>i. aqCompleted (wsRequests s i) \<Longrightarrow> aqRecord (wsRequests t i) = aqRecord (wsRequests s i)"
    and "pTopic (wsPartition t) = pTopic (wsPartition s)" and "pPartition (wsPartition t) = pPartition (wsPartition s)"
  shows "acks old log t"
proof -
  have "acked t = acked s" "result_of t = result_of s" using assms(3) by (auto simp: acked_def result_of_def)
  then show ?thesis using assms unfolding acks_def by (metis option.distinct(1))
qed

lemma nth_offsetRecords:
  "k < length rs \<Longrightarrow> offsetRecords p rs ! k
     = (rs ! k)\<lparr>rTopic := pTopic p, rPartition := pPartition p, rOffset := pLogEnd p + of_nat k\<rparr>"
  by (simp add: offsetRecords_def nth_enumerate_eq)

lemma written_acks:
  assumes w: "written js log s log' s'" and a: "acks old log s" and p: "pending js s"
  shows "acks old log' s'"
proof -
  let ?p = "wsPartition s" and ?p' = "wsPartition s'"
  obtain ids where ids: "distinct ids" "set ids = acked s" "log = old @ map (result_of s) ids"
    using a unfolding acks_def by blast
  have comp: "aqCompleted (wsRequests s i) \<longleftrightarrow> aqResultVal (wsRequests s i) \<noteq> None" for i
    using a by (simp add: acks_def)
  have ans: "\<forall>i \<in> set js. aqCompleted (wsRequests s' i)" "\<forall>i. i \<notin> set js \<longrightarrow> wsRequests s' i = wsRequests s i"
    "\<forall>i. aqRecord (wsRequests s' i) = aqRecord (wsRequests s i)"
    using w by (simp_all add: written_def answers_def)
  have st: "pTopic ?p' = pTopic ?p" "pPartition ?p' = pPartition ?p"
    using w by (auto simp: written_def same_partition_def Let_def)
  have dj: "set js \<inter> acked s = {}"
    using p comp by (auto simp: pending_def acked_def)
  have old: "r = (aqRecord (wsRequests s' i))\<lparr>rTopic := pTopic ?p', rPartition := pPartition ?p', rOffset := rOffset r\<rparr>"
    if "aqResultVal (wsRequests s' i) = Some (Inr r)" "i \<notin> set js" for i r
    using a ans st that unfolding acks_def by metis
  have keep: "map (result_of s') ids = map (result_of s) ids"
    using ids(2) dj ans(2) by (auto simp: result_of_def)
  have rest: "i \<in> acked s' \<longleftrightarrow> i \<in> acked s" if "i \<notin> set js" for i using ans(2) that by (simp add: acked_def)
  from w consider e where "map (\<lambda>i. aqResultVal (wsRequests s' i)) js = map (\<lambda>_. Some (Inl e)) js" "log' = log"
    | rs where "rs = offsetRecords ?p (map (aqRecord \<circ> wsRequests s) js)"
        "map (\<lambda>i. aqResultVal (wsRequests s' i)) js = map (Some \<circ> Inr) rs" "log' = log @ rs"
    unfolding written_def Let_def by blast
  then show ?thesis
  proof cases
    case 1
    then have r: "\<forall>i \<in> set js. aqResultVal (wsRequests s' i) = Some (Inl e)" by simp
    have "i \<notin> acked s' \<and> i \<notin> acked s" if "i \<in> set js" for i using r that dj by (auto simp: acked_def)
    then have "acked s' = acked s" using rest by blast
    moreover have "aqCompleted (wsRequests s' i) \<longleftrightarrow> aqResultVal (wsRequests s' i) \<noteq> None" for i
      using r ans(1,2) comp by (cases "i \<in> set js") auto
    moreover have "r = (aqRecord (wsRequests s' i))\<lparr>rTopic := pTopic ?p', rPartition := pPartition ?p', rOffset := rOffset r\<rparr>"
      if "aqResultVal (wsRequests s' i) = Some (Inr r)" for i r
      using old that r by (cases "i \<in> set js") auto
    ultimately show ?thesis unfolding acks_def using ids keep 1(2) by metis
  next
    case 2
    have len: "length rs = length js" using 2(1) by simp
    have r: "aqResultVal (wsRequests s' (js ! k)) = Some (Inr (rs ! k))" if "k < length js" for k
      using arg_cong [OF 2(2), of "\<lambda>xs. xs ! k"] that len by simp
    have r': "\<exists>k < length js. i = js ! k \<and> aqResultVal (wsRequests s' i) = Some (Inr (rs ! k))" if "i \<in> set js" for i
      using that r by (auto simp: in_set_conv_nth)
    have "set (ids @ js) = acked s'"
    proof -
      have "i \<in> acked s'" if "i \<in> set js" for i using r' [OF that] by (auto simp: acked_def)
      then show ?thesis using ids(2) rest by auto
    qed
    moreover have "distinct (ids @ js)" using ids(1,2) dj p by (auto simp: pending_def)
    moreover have "map (result_of s') js = rs" using r len by (intro nth_equalityI) (simp_all add: result_of_def)
    then have "log' = old @ map (result_of s') (ids @ js)" using ids(3) keep 2(3) by simp
    moreover have "aqCompleted (wsRequests s' i) \<longleftrightarrow> aqResultVal (wsRequests s' i) \<noteq> None" for i
      using r' ans(1,2) comp by (cases "i \<in> set js") auto
    moreover have "x = (aqRecord (wsRequests s' i))\<lparr>rTopic := pTopic ?p', rPartition := pPartition ?p', rOffset := rOffset x\<rparr>"
      if x: "aqResultVal (wsRequests s' i) = Some (Inr x)" for i x
    proof (cases "i \<in> set js")
      case True
      then obtain k where k: "k < length js" "i = js ! k" "x = rs ! k" using r' x by fastforce
      then show ?thesis using 2(1) nth_offsetRecords [of k "map (aqRecord \<circ> wsRequests s) js" ?p] st ans(3) by simp
    qed (use old x in blast)
    ultimately show ?thesis unfolding acks_def by metis
  qed
qed

text \<open>The partition holds the log that \<open>acks\<close> describes, from offset \<open>start\<close> on.\<close>

definition sound :: "uint64 \<Rightarrow> Record list \<Rightarrow> writerState \<Rightarrow> bool" where
  "sound start old s \<longleftrightarrow>
     (\<exists>log. log_state log s \<and> acks old log s \<and> pLogEnd (wsPartition s) = start + of_nat (length log))"

definition handled :: "request_id list \<Rightarrow> uint64 \<Rightarrow> Record list \<Rightarrow> writerState \<Rightarrow> writerState \<Rightarrow> bool" where
  "handled ids start old s s' \<longleftrightarrow>
     answers ids s s' \<and> sound start old s' \<and> (\<exists>n. same_partition n (wsPartition s) (wsPartition s'))"

lemma handled_trans:
  "handled is start old s s1 \<Longrightarrow> handled js start old s1 s2 \<Longrightarrow> handled (is @ js) start old s s2"
  unfolding handled_def using answers_trans same_partition_trans by blast

lemma handled_mset: "handled is start old s s' \<Longrightarrow> mset is = mset js \<Longrightarrow> handled js start old s s'"
  unfolding handled_def using answers_mset by blast

lemma handled_pending: "pending (is @ js) s \<Longrightarrow> handled is start old s s' \<Longrightarrow> pending js s'"
  unfolding handled_def using pending_after by blast

lemma written_handled:
  assumes "written ids log s log' s'" and "acks old log s" and "pending ids s"
    and "pLogEnd (wsPartition s) = start + of_nat (length log)"
  shows "handled ids start old s s'"
proof -
  obtain n where n: "same_partition n (wsPartition s) (wsPartition s')" "length log' = length log + n"
    using assms(1) unfolding written_def Let_def by fastforce
  then have "pLogEnd (wsPartition s') = start + of_nat (length log')"
    using assms(4) by (simp add: same_partition_def add.assoc)
  then show ?thesis
    using assms(1) n(1) written_acks [OF assms(1-3)] unfolding handled_def sound_def written_def by blast
qed

lemma writeRequests_handled:
  assumes "pending ids s" and "sound start old s" and "choice_ok choice"
  shows "handled ids start old s (writeRequests choice ids s)"
proof -
  obtain log where log: "log_state log s" "acks old log s" "pLogEnd (wsPartition s) = start + of_nat (length log)"
    using assms(2) unfolding sound_def by blast
  obtain log' where "written ids log s log' (writeRequests choice ids s)"
    using writeRequests_written [OF assms(1) log(1) assms(3)] by blast
  then show ?thesis using log assms(1) by (intro written_handled)
qed

lemma completeAll_handled:
  assumes "pending ids s" and "sound start old s"
  shows "handled ids start old s (completeAll ids (map (\<lambda>_. Inl e) ids) s)"
proof -
  obtain log where log: "log_state log s" "acks old log s" "pLogEnd (wsPartition s) = start + of_nat (length log)"
    using assms(2) unfolding sound_def by blast
  then show ?thesis
    using written_errors [of ids s s log e] assms(1) answers_none [of s s] frees_refl
    by (intro written_handled [where log = log and log' = log]) auto
qed

lemma complete_handled: "pending [i] s \<Longrightarrow> sound start old s \<Longrightarrow> handled [i] start old s (complete i (Inl e) s)"
  using completeAll_handled [of "[i]" s start old e] by simp

lemma handled_none: "sound start old s \<Longrightarrow> handled [] start old s s"
  unfolding handled_def using answers_none [of s s] frees_refl same_partition_refl by blast

lemma ingressLoop_handled:
  assumes "pending (batch @ is) s" and "sound start old s" and "\<forall>k. choice_ok (choices k)"
  shows "handled (batch @ is) start old s (ingressLoop choices k is batch n s)"
  using assms
proof (induction choices k "is" batch n s rule: ingressLoop.induct)
  case (1 choices k batch n s)
  then show ?case using writeRequests_handled [of batch s start old "choices k"] handled_none by simp
next
  case (2 choices k i "is" batch n s)
  show ?case
  proof (cases "recordEncodedBytes (aqRecord (wsRequests s i))")
    case (Inl e)
    have "pending ([i] @ batch @ is) s" by (rule pending_mset [OF 2(4)]) simp
    then have h: "handled [i] start old s (complete i (Inl e) s)" "pending (batch @ is) (complete i (Inl e) s)"
      using complete_handled [of i s] pending_prefix [of "[i]"] handled_pending [of "[i]"] 2(5) by blast+
    then have "handled (batch @ is) start old (complete i (Inl e) s) (ingressLoop choices k is batch n (complete i (Inl e) s))"
      using 2(1) [OF Inl] 2(6) by (simp add: handled_def)
    from handled_trans [OF h(1) this] show ?thesis
      using Inl by (auto intro: handled_mset)
  next
    case (Inr b)
    let ?options = "pOptions (wsPartition s)"
    show ?thesis
    proof (cases "batch \<noteq> [] \<and> (of_nat (length batch) = oBatchRecords ?options \<or> n + b > ucast (oBatchBytes ?options))")
      case True
      let ?s = "writeRequests (choices k) batch s"
      have h: "handled batch start old s ?s" "pending ([i] @ is) ?s"
        using writeRequests_handled [of batch s start old "choices k"] pending_prefix [of batch] handled_pending [of batch]
          2(4-6) by auto
      have "sound start old ?s" using h(1) by (simp add: handled_def)
      then show ?thesis
        using handled_trans [OF h(1) 2(2) [OF Inr refl True h(2) _ 2(6)]] Inr True by simp
    next
      case False
      then show ?thesis using 2(3) [OF Inr refl False] 2(4-6) Inr by (auto simp: Let_def)
    qed
  qed
qed

lemma sound_queue [simp]: "sound start old (s\<lparr>wsQueue := q\<rparr>) = sound start old s"
  by (simp add: sound_def acks_def log_state_queue acked_def result_of_def [abs_def])

text \<open>Setting the credits leaves \<open>pending\<close> and \<open>answers\<close> as they are.\<close>

abbreviation set_credits :: "uint32 \<Rightarrow> writerState \<Rightarrow> writerState" where
  "set_credits c s \<equiv> s\<lparr>wsQueue := (wsQueue s)\<lparr>wqPublicationCredits := c\<rparr>\<rparr>"

lemma pending_credits: "pending ids (set_credits c s) = pending ids s"
  by (simp add: pending_def charges_def)

lemma answers_credits:
  assumes "answers ids s s'"
  shows "answers ids (set_credits c s) (set_credits c s')"
proof -
  have "charges (set_credits c s) ids = charges s ids" by (simp add: charges_def)
  then show ?thesis using assms by (simp add: answers_def frees_def)
qed

lemma releasePublication_credits:
  assumes "0 < unat (wqPublicationCredits q)"
  shows "releasePublicationLocked q = q\<lparr>wqPublicationCredits := wqPublicationCredits q - 1\<rparr>"
  using assms by (simp add: releasePublicationLocked_def word_less_nat_alt)

lemma drainPending_handled:
  assumes "pending ids s" and "sound start old s" and "length ids \<le> unat (wqPublicationCredits (wsQueue s))"
  shows "handled ids start old (set_credits (wqPublicationCredits (wsQueue s) - of_nat (length ids)) s) (drainPending e ids s)"
  using assms
proof (induction e ids s rule: drainPending.induct)
  case (1 e s)
  then show ?case by (simp add: handled_none)
next
  case (2 e i "is" s)
  let ?c = "wqPublicationCredits (wsQueue s)"
  let ?s1 = "set_credits (?c - 1) s"
  let ?s2 = "complete i (Inl (ErrAppendOutcomeUnknown # ErrPartitionUnavailable # e)) ?s1"
  have r: "s\<lparr>wsQueue := releasePublicationLocked (wsQueue s)\<rparr> = ?s1"
    using 2(4) by (simp add: releasePublication_credits)
  have p: "pending ([i] @ is) ?s1" using 2(2) by (simp add: pending_credits)
  have h: "handled [i] start old ?s1 ?s2" using pending_prefix [OF p] 2(3) by (intro complete_handled) simp_all
  have "wqPublicationCredits (wsQueue ?s2) = ?c - 1" using h by (simp add: handled_def answers_def frees_def)
  moreover have "unat (?c - 1) + 1 = unat ?c" using 2(4) by (intro word_pred) simp
  moreover have "pending is ?s2" by (rule handled_pending [OF p h])
  moreover have "sound start old ?s2" using h by (simp add: handled_def)
  ultimately have IH: "handled is start old (set_credits (?c - 1 - of_nat (length is)) ?s2) (drainPending e (i # is) s)"
    using 2(1) 2(4) r by simp
  have c: "?c - 1 - of_nat (length is) = ?c - of_nat (length (i # is))" by simp
  have "handled [i] start old (set_credits (?c - of_nat (length (i # is))) s) (set_credits (?c - of_nat (length (i # is))) ?s2)"
    using h answers_credits [of "[i]" ?s1 ?s2 "?c - of_nat (length (i # is))"] by (simp add: handled_def)
  from handled_trans [OF this IH [unfolded c]] show ?case by simp
qed

section \<open>Closing keeps the log\<close>

text \<open>A segment whose indexes were rebuilt or whose handle was closed.\<close>

definition reindexed :: "segment \<Rightarrow> segment \<Rightarrow> bool" where
  "reindexed s s' \<longleftrightarrow>
     segment_core s' = segment_core s
     \<and> (sgOffsetIndex s' = sgOffsetIndex s \<and> sgTimeIndex s' = sgTimeIndex s
        \<or> (\<exists>stride. sgOffsetIndex s' = Some (fst (sampleBatchIndexes (sgBatches s) stride))
             \<and> sgTimeIndex s' = Some (snd (sampleBatchIndexes (sgBatches s) stride))))"

lemma reindexed_refl [simp]: "reindexed s s"
  by (simp add: reindexed_def)

lemma reindexed_fields:
  assumes "reindexed s s'"
  shows "sgPath s' = sgPath s" "sgHeader s' = sgHeader s" "sgEnd s' = sgEnd s" "sgSize s' = sgSize s"
    "sgBatches s' = sgBatches s"
  using assms segment_core_fields [of s] segment_core_fields [of s'] unfolding reindexed_def by metis+

lemma reindexed_open: "reindexed s (s'\<lparr>sgOpen := b\<rparr>) = reindexed s s'"
  by (simp add: reindexed_def segment_core_def)

lemma reindexed_trans: "reindexed a b \<Longrightarrow> reindexed b c \<Longrightarrow> reindexed a c"
  using reindexed_fields(5) [of a b] by (auto simp: reindexed_def)

lemma stored_reindexed:
  assumes "stored w p tail s cs" and "reindexed s s'" and "content w' (sgPath s) = content w (sgPath s)"
    and "pTopic p' = pTopic p" and "pPartition p' = pPartition p" and "pDir p' = pDir p"
  shows "stored w' p' tail s' cs"
proof -
  have inv: "segment_inv (pTopic p) (pPartition p) (pDir p) s cs" and size: "sgSize s < 2 ^ 63"
    using assms(1) by (simp_all add: stored_def)
  note f = reindexed_fields [OF assms(2)]
  have "segment_inv (pTopic p) (pPartition p) (pDir p) s' cs"
    using inv assms(2) f sampleBatchIndexes_true [OF segment_batches_ok [OF inv size]]
    by (auto simp: segment_inv_def reindexed_def)
  then show ?thesis using assms f by (simp add: stored_def)
qed

lemma chained_reindexed: "list_all2 reindexed ss ss' \<Longrightarrow> chained off ss' e = chained off ss e"
proof (induction ss ss' arbitrary: off rule: list_all2_induct)
  case (Cons s ss s' ss')
  then show ?case using reindexed_fields [OF Cons(1)] by simp
qed simp

lemma image_reindexed:
  assumes img: "partition_image w p css tail" and re: "list_all2 reindexed (pSegments p) ss'"
    and frame: "\<And>q. log_path (pDir p) q \<Longrightarrow> content w' q = content w q"
    and same: "pTopic p' = pTopic p" "pPartition p' = pPartition p" "pDir p' = pDir p" "pLogEnd p' = pLogEnd p"
      "pSegments p' = ss'"
  shows "partition_image w' p' css tail"
proof -
  obtain ss s dss cs where p: "pSegments p = ss @ [s]" and css: "css = dss @ [cs]"
    and early: "list_all2 (stored w p []) ss dss" and act: "stored w p tail s cs" and ne: "[] \<notin> set dss"
    and ch: "chained (sBaseOffset (sgHeader (hd (ss @ [s])))) (ss @ [s]) (pLogEnd p)"
    and lp: "log_paths w (pDir p) = sgPath ` set (ss @ [s])"
    using img by (auto simp: partition_image_split)
  obtain ts t where ss': "ss' = ts @ [t]" and ts: "list_all2 reindexed ss ts" and t: "reindexed s t"
    using re p by (auto simp: list_all2_append1 list_all2_Cons1)
  have last: "log_path (pDir p) (sgPath x)" if "x \<in> set (ss @ [s])" for x
    using that lp by (auto simp: log_paths_def)
  have keep: "content w' (sgPath x) = content w (sgPath x)" if "x \<in> set (ss @ [s])" for x
    using frame [OF last [OF that]] .
  have "list_all2 (stored w' p' []) ts dss"
  proof (rule list_all2_all_nthI)
    show l: "length ts = length dss" using ts early by (simp add: list_all2_lengthD [symmetric])
    fix n assume n: "n < length ts"
    then have n': "n < length ss" using ts by (simp add: list_all2_lengthD)
    have "stored w p [] (ss ! n) (dss ! n)" "reindexed (ss ! n) (ts ! n)"
      using early ts n' by (simp_all add: list_all2_nthD)
    then show "stored w' p' [] (ts ! n) (dss ! n)"
      by (rule stored_reindexed) (use keep n' same in auto)
  qed
  moreover have "stored w' p' tail t cs" using act t by (rule stored_reindexed) (use keep same in auto)
  moreover have "map sgPath (ts @ [t]) = map sgPath (ss @ [s])" "map sgHeader (ts @ [t]) = map sgHeader (ss @ [s])"
    using ts t reindexed_fields by (auto simp: list_all2_conv_all_nth intro!: nth_equalityI)
  then have "sgPath ` set (ts @ [t]) = sgPath ` set (ss @ [s])" "sgHeader (hd (ts @ [t])) = sgHeader (hd (ss @ [s]))"
    by (metis set_map) (metis append_is_Nil_conv hd_map list.distinct(1) \<open>map sgHeader (ts @ [t]) = map sgHeader (ss @ [s])\<close>)
  moreover have "chained off (ts @ [t]) e = chained off (ss @ [s]) e" for off e
    using chained_reindexed [of "ss @ [s]" "ts @ [t]"] ts t by (simp add: list_all2_appendI)
  moreover have "log_paths w' (pDir p) = log_paths w (pDir p)" using frame by (auto simp: log_paths_def)
  ultimately show ?thesis using ne ch lp css ss' same by (auto simp: partition_image_split)
qed

lemma checkpointSegments_reindexed:
  assumes "checkpointSegments ts k sid stride ss w = (ss', w')"
    and "\<forall>k. last (fst (ts k)) = 0x70 \<and> last (snd (ts k)) = 0x70"
  shows "list_all2 reindexed ss ss' \<and> (\<forall>q. last q = 0x67 \<longrightarrow> content w' q = content w q)"
  using assms
proof (induction ts k sid stride ss w arbitrary: ss' w' rule: checkpointSegments.induct)
  case (2 ts k sid stride s ss w)
  show ?case
  proof (cases "sgIndexDirty s")
    case False
    then show ?thesis using 2 by (auto split: prod.splits)
  next
    case True
    obtain r s1 w1 where i: "installSegmentIndexes (ts k) s sid stride w = (r, s1, w1)" by (metis surj_pair)
    obtain ss1 w2 where c: "checkpointSegments ts (Suc k) sid stride ss w1 = (ss1, w2)" by fastforce
    have e: "ss' = s1 # ss1" "w' = w2" using 2(3) True i c by auto
    have "reindexed s s1" using installSegmentIndexes_segment [OF i] by (auto simp: reindexed_def segment_core_def)
    moreover have "content w1 q = content w q" if "last q = 0x67" for q
      using installSegmentIndexes_frame [OF i _ _ that] 2(4) by simp
    ultimately show ?thesis using 2(2) [OF _ i [symmetric] refl c 2(4)] True e by simp
  qed
qed simp

lemma closeHandles_reindexed:
  assumes "closeHandles ss files w = (e, ss', files', w')"
  shows "list_all2 reindexed ss ss' \<and> (\<forall>q. content w' q = content w q)"
  using assms
proof (induction ss files w arbitrary: e ss' files' w' rule: closeHandles.induct)
  case (2 s ss files w)
  obtain r w1 where c: "(if sgOpen s then fileClose (sgPath s) w else (Inr (), w)) = (r, w1)" by fastforce
  obtain files1 w2 where f: "(case files of None \<Rightarrow> (None, w1)
      | Some c \<Rightarrow> (case forget (sgPath s) c w1 of (c, w) \<Rightarrow> (Some c, w))) = (files1, w2)" by fastforce
  obtain e1 ss1 files2 w3 where h: "closeHandles ss files1 w2 = (e1, ss1, files2, w3)" by (metis prod_cases4)
  have r: "ss' = s\<lparr>sgOpen := False\<rparr> # ss1" "w' = w3" using 2(2) c f h by (auto split: sum.splits)
  have "content w1 q = content w q" for q using c effect_content(2) by (auto split: if_splits)
  moreover have "content w2 q = content w1 q" for q
    using f by (auto simp: forget_def split: option.splits)
  ultimately show ?case using 2(1) [OF c [symmetric] f [symmetric] h] r by (simp add: reindexed_open)
qed simp

lemma torn_frame:
  assumes "torn_image w p log c b" and "\<And>q. log_path (pDir p) q \<Longrightarrow> content w' q = content w q"
  shows "torn_image w' p log c b"
proof -
  obtain segments css k where im: "partition_image w (p\<lparr>pSegments := segments\<rparr>) css (take k c)"
    and rest: "log_of css = log" "sgSize (last segments) + length (take k c) < 2 ^ 63" "k \<le> length c"
      "0 < k \<longrightarrow> DecodeBatch c (pTopic p) (pPartition p) = Inr b \<and> bBaseOffset b = pLogEnd p"
    using assms(1) unfolding torn_image_def by (elim exE conjE) (rule that)
  have "partition_image w' (p\<lparr>pSegments := segments\<rparr>) css (take k c)"
    by (rule image_reindexed [OF im _ assms(2)]) (simp_all add: list_all2_refl)
  then show ?thesis unfolding torn_image_def using rest by (intro exI conjI)
qed

lemma log_state_frame:
  assumes "log_state log s" and "list_all2 reindexed (pSegments (wsPartition s)) (pSegments (wsPartition s'))"
    and "same_partition 0 (wsPartition s) (wsPartition s')"
    and frame: "\<And>q. log_path (pDir (wsPartition s)) q \<Longrightarrow> content (wsWorld s') q = content (wsWorld s) q"
  shows "log_state log s'"
proof (cases "pUnavailable (wsPartition s')")
  case True
  obtain c b where "torn_image (wsWorld s) (wsPartition s) log c b" using log_state_torn [OF assms(1)] by blast
  then have "torn_image (wsWorld s') (wsPartition s) log c b" by (rule torn_frame) (rule frame)
  then have "torn_image (wsWorld s') (wsPartition s') log c b"
    using torn_image_cong [of "wsPartition s'" "wsPartition s"] assms(3) by (simp add: same_partition_def)
  then show ?thesis using True assms(1,3) by (auto simp: log_state_def same_partition_def)
next
  case False
  then obtain css where css: "partition_inv (wsWorld s) (wsPartition s) css" "log_of css = log"
    using assms(1,3) by (auto simp: log_state_def same_partition_def)
  have "partition_inv (wsWorld s') (wsPartition s') css"
    by (rule image_reindexed [OF css(1) assms(2) frame]) (use assms(3) in \<open>simp_all add: same_partition_def\<close>)
  then show ?thesis using False css(2) assms(1,3) by (auto simp: log_state_def same_partition_def)
qed

text \<open>A change that is none of the writer's business keeps \<open>sound\<close>.\<close>

lemma sound_frame:
  assumes "sound start old s" and "list_all2 reindexed (pSegments (wsPartition s)) (pSegments (wsPartition s'))"
    and "same_partition 0 (wsPartition s) (wsPartition s')"
    and "\<And>q. log_path (pDir (wsPartition s)) q \<Longrightarrow> content (wsWorld s') q = content (wsWorld s) q"
    and "\<And>i. aqCompleted (wsRequests s' i) = aqCompleted (wsRequests s i)"
    and "\<And>i. aqResultVal (wsRequests s' i) = aqResultVal (wsRequests s i)"
    and "\<And>i. aqCompleted (wsRequests s i) \<Longrightarrow> aqRecord (wsRequests s' i) = aqRecord (wsRequests s i)"
  shows "sound start old s'"
proof -
  obtain log where log: "log_state log s" "acks old log s" "pLogEnd (wsPartition s) = start + of_nat (length log)"
    using assms(1) unfolding sound_def by blast
  have "log_state log s'" by (rule log_state_frame [OF log(1) assms(2-4)])
  moreover have "acks old log s'"
    by (rule acks_cong [OF log(2) assms(5-7)]) (use assms(3) in \<open>simp_all add: same_partition_def\<close>)
  ultimately show ?thesis using log(3) assms(3) unfolding sound_def same_partition_def by auto
qed

lemma closeFence_sound:
  assumes "sound start old s"
  shows "sound start old (closeFence s)"
  by (rule sound_frame [OF assms])
    (auto simp: closeFence_def Let_def signalFetchWaitersLocked_def same_partition_def list_all2_refl split: prod.splits)

lemma closeFinish_sound:
  assumes "sound start old s" and ts: "\<forall>k. last (fst (ts k)) = 0x70 \<and> last (snd (ts k)) = 0x70"
    and run: "closeFinish ts s = (e, s')"
  shows "sound start old s'"
proof (cases "pClosed (wsPartition s)")
  case True
  then have "s' = s\<lparr>wsQueue := (wsQueue s)\<lparr>wqQueueClosed := True\<rparr>\<rparr>" using run by (simp add: closeFinish_def Let_def)
  then show ?thesis using assms(1) by simp
next
  case False
  let ?p = "wsPartition s"
  obtain ss w where c: "checkpointSegments ts 0 (pStoreID ?p) (oIndexStride (pOptions ?p)) (pSegments ?p) (wsWorld s) = (ss, w)"
    by fastforce
  obtain e' ss' files w' where h: "closeHandles ss (wsFiles s) w = (e', ss', files, w')" by (metis prod_cases4)
  note c' = checkpointSegments_reindexed [OF c ts] and h' = closeHandles_reindexed [OF h]
  have "list_all2 reindexed (pSegments ?p) ss'"
    using list_all2_trans [OF reindexed_trans conjunct1 [OF c'] conjunct1 [OF h']] .
  moreover have "content w' q = content (wsWorld s) q" if "log_path (pDir ?p) q" for q
    using c' h' log_path_last [OF that] by simp
  ultimately show ?thesis
    by (intro sound_frame [OF assms(1)])
      (use run False c h in \<open>auto simp: closeFinish_def Let_def signalFetchWaitersLocked_def same_partition_def\<close>)
qed

end
