(* ===== verification/Fetch.thy ===== *)
theory Fetch
  imports Writer
begin

text \<open>
  \<open>src/storage/fetch.go\<close>: bounded reads of a partition, from the tail cache or from the segment files,
  and the reader that keeps a position. A context is the list of the results that its calls of
  \<open>Err\<close> will give, and nil after that. \<open>tailLocked\<close> is the outcome of \<open>TryLock\<close> on the tail.
\<close>

section \<open>Contexts and limits\<close>

type_synonym fetchContext = "error list"

definition ctxErr :: "fetchContext \<Rightarrow> error \<times> fetchContext" where
  "ctxErr ctx = (case ctx of [] \<Rightarrow> ([], []) | e # ctx \<Rightarrow> (e, ctx))"

definition defaultFetchRecords :: uint32 where [simp]: "defaultFetchRecords = 1024"
definition defaultFetchBytes :: uint64 where [simp]: "defaultFetchBytes = 4194304"
definition maxFetchBytes :: uint64 where [simp]: "maxFetchBytes = ucast MaxBatchBytes"
definition maxFetchWaiters :: uint32 where [simp]: "maxFetchWaiters = 64"

text \<open>Twenty-four hours in nanoseconds bound the wait.\<close>

definition normalizeFetchOptions :: "FetchOptions \<Rightarrow> FetchOptions result" where
  "normalizeFetchOptions options =
     (let options = (if foMaxRecords options = 0 then options\<lparr>foMaxRecords := defaultFetchRecords\<rparr> else options)
      in if foMaxRecords options > MaxBatchRecords then Inl [ErrInvalidArgument, ErrNew]
         else
           let options = (if foMaxBytes options = 0 then options\<lparr>foMaxBytes := defaultFetchBytes\<rparr> else options)
           in if foMaxBytes options > maxFetchBytes then Inl [ErrInvalidArgument, ErrNew]
              else if sint (foMaxWait options) < 0 \<or> sint (foMaxWait options) > 86400000000000
              then Inl [ErrInvalidArgument, ErrNew]
              else Inr options)"

section \<open>Scanning a segment\<close>

definition readAtFull :: "path \<Rightarrow> nat \<Rightarrow> nat \<Rightarrow> bytes io" where
  "readAtFull path n position w =
     (if n = 0 then (Inr [], w)
      else
        case fileReadAt path n position w of
          ((data, err), w) \<Rightarrow>
            if length data \<noteq> n then (Inl (err @ [ErrUnexpectedEOF]), w)
            else if err \<noteq> [] then (Inl err, w)
            else (Inr data, w))"

fun fetchHint :: "offsetIndexEntry list \<Rightarrow> uint64 \<Rightarrow> nat \<Rightarrow> nat \<Rightarrow> nat result" where
  "fetchHint [] offset segmentSize position = Inr position"
| "fetchHint (h # hs) offset segmentSize position =
     (if oiBase h > offset then Inr position
      else if unat (oiPosition h) > segmentSize then Inl (corrupt ErrInvalidBatch)
      else fetchHint hs offset segmentSize (unat (oiPosition h)))"

text \<open>The batch loop of \<open>scanSegmentForFetch\<close>. The flag of the result tells that a limit was reached.\<close>

function scanLoop ::
  "TopicID \<Rightarrow> uint32 \<Rightarrow> path \<Rightarrow> nat \<Rightarrow> uint64 \<Rightarrow> FetchOptions \<Rightarrow> nat \<Rightarrow> FetchResult \<Rightarrow> uint64 \<Rightarrow> fetchContext \<Rightarrow> world
     \<Rightarrow> (bool \<times> FetchResult \<times> uint64) result \<times> fetchContext \<times> world" where
  "scanLoop topic part path segmentSize offset options position result resultBytes ctx w =
     (if \<not> position < segmentSize then (Inr (False, result, resultBytes), ctx, w)
      else
        case ctxErr ctx of
          (err, ctx) \<Rightarrow>
            if err \<noteq> [] then (Inl err, ctx, w)
            else
              case readAtFull path (unat BatchHeaderBytes) position w of
                (Inl e, w) \<Rightarrow> (Inl (errorf e), ctx, w)
              | (Inr header, w) \<Rightarrow>
                  let batchLength = Uint32 (slice 8 12 header)
                  in if batchLength < ucast BatchHeaderBytes + of_nat BatchTrailerBytes \<or> batchLength > MaxBatchBytes
                        \<or> unat batchLength > segmentSize - position
                     then (Inl (corrupt ErrInvalidBatch), ctx, w)
                     else
                       case readAtFull path (unat batchLength - unat BatchHeaderBytes)
                              (position + unat BatchHeaderBytes) w of
                         (Inl e, w) \<Rightarrow> (Inl (errorf e), ctx, w)
                       | (Inr body, w) \<Rightarrow>
                           (case DecodeBatch (header @ body) topic part of
                              Inl e \<Rightarrow> (Inl e, ctx, w)
                            | Inr batch \<Rightarrow>
                                (case fetchRecords options (filter (\<lambda>r. \<not> rOffset r < offset) (bRecords batch))
                                        result resultBytes of
                                   FetchFail e \<Rightarrow> (Inl e, ctx, w)
                                 | FetchFull result resultBytes \<Rightarrow> (Inr (True, result, resultBytes), ctx, w)
                                 | FetchMore result resultBytes \<Rightarrow>
                                     scanLoop topic part path segmentSize offset options (position + unat batchLength)
                                       result resultBytes ctx w)))"
  by pat_completeness auto
termination
  by (relation "measure (\<lambda>(topic, part, path, segmentSize, offset, options, position, _). segmentSize - position)")
    (auto simp: word_less_nat_alt)

declare scanLoop.simps [simp del]

definition scanSegmentForFetch ::
  "TopicID \<Rightarrow> uint32 \<Rightarrow> segment \<Rightarrow> uint64 \<Rightarrow> FetchOptions \<Rightarrow> FetchResult \<Rightarrow> uint64 \<Rightarrow> fetchContext
     \<Rightarrow> segmentFileCache option \<Rightarrow> world
     \<Rightarrow> (bool \<times> FetchResult \<times> uint64) result \<times> fetchContext \<times> segmentFileCache option \<times> world" where
  "scanSegmentForFetch topic part s offset options result resultBytes ctx files w =
     (case acquireSegmentFile s files w of
        (Inl e, files, w) \<Rightarrow> (Inl (errorf e), ctx, files, w)
      | (Inr _, files, w) \<Rightarrow>
          (case (case fetchHint (index_entries (sgOffsetIndex s)) offset (sgSize s) (unat SegmentHeaderBytes) of
                   Inl e \<Rightarrow> (Inl e, ctx, w)
                 | Inr position \<Rightarrow>
                     scanLoop topic part (sgPath s) (sgSize s) offset options position result resultBytes ctx w) of
             (r, ctx, w) \<Rightarrow> (case releaseSegmentFile s files w of (files, w) \<Rightarrow> (r, ctx, files, w))))"

section \<open>Fetching\<close>

text \<open>The segment loop; an error leaves the caller with an empty result.\<close>

fun fetchSegments ::
  "TopicID \<Rightarrow> uint32 \<Rightarrow> segment list \<Rightarrow> uint64 \<Rightarrow> FetchOptions \<Rightarrow> FetchResult \<Rightarrow> uint64 \<Rightarrow> fetchContext
     \<Rightarrow> segmentFileCache option \<Rightarrow> world \<Rightarrow> FetchResult result \<times> fetchContext \<times> segmentFileCache option \<times> world" where
  "fetchSegments topic part [] offset options result resultBytes ctx files w =
     (case ctxErr ctx of (err, ctx) \<Rightarrow> (if err \<noteq> [] then Inl err else Inr result, ctx, files, w))"
| "fetchSegments topic part (s # ss) offset options result resultBytes ctx files w =
     (if offset \<ge> sgEnd s then fetchSegments topic part ss offset options result resultBytes ctx files w
      else
        case scanSegmentForFetch topic part s offset options result resultBytes ctx files w of
          (Inl e, ctx, files, w) \<Rightarrow> (Inl e, ctx, files, w)
        | (Inr (True, result, _), ctx, files, w) \<Rightarrow> (Inr result, ctx, files, w)
        | (Inr (False, result, resultBytes), ctx, files, w) \<Rightarrow>
            fetchSegments topic part ss offset options result resultBytes ctx files w)"

text \<open>The checks on the partition and the offset that reads share.\<close>

definition validateReadOffset :: "uint64 \<Rightarrow> Partition \<Rightarrow> unit result" where
  "validateReadOffset offset p =
     (if pClosed p then Inl [ErrClosed]
      else if pClosing p then Inl [ErrClosing]
      else if pUnavailable p then Inl [ErrPartitionUnavailable]
      else if pSegments p = [] \<or> offset < sBaseOffset (sgHeader (hd (pSegments p))) \<or> offset > pLogEnd p
      then Inl [ErrOffsetOutOfRange]
      else Inr ())"

definition fetchLocked ::
  "bool \<Rightarrow> uint64 \<Rightarrow> FetchOptions \<Rightarrow> Partition \<Rightarrow> fetchContext \<Rightarrow> segmentFileCache option \<Rightarrow> world
     \<Rightarrow> (FetchResult \<times> error) \<times> fetchContext \<times> segmentFileCache option \<times> world" where
  "fetchLocked tailLocked offset options p ctx files w =
     (let empty = \<lparr>frRecords = [], frNextOffset = offset\<rparr>
      in case validateReadOffset offset p of
           Inl e \<Rightarrow> ((empty, e), ctx, files, w)
         | Inr _ \<Rightarrow>
             (case tail_fetch tailLocked (pTopic p) (pPartition p) offset (pLogEnd p) options (pTail p) of
                Some hit \<Rightarrow> (hit, ctx, files, w)
              | None \<Rightarrow>
                  (case fetchSegments (pTopic p) (pPartition p) (pSegments p) offset options empty 0 ctx files w of
                     (Inl e, ctx, files, w) \<Rightarrow> ((empty, e), ctx, files, w)
                   | (Inr result, ctx, files, w) \<Rightarrow> ((result, []), ctx, files, w))))"

definition shouldFenceFetchError :: "error \<Rightarrow> bool" where
  "shouldFenceFetchError err =
     (if err = [] \<or> errors_Is err ErrContextCanceled \<or> errors_Is err ErrDeadlineExceeded then False
      else \<not> errors_Is err ErrInvalidArgument \<and> \<not> errors_Is err ErrOffsetOutOfRange
           \<and> \<not> errors_Is err ErrFetchLimitTooSmall \<and> \<not> errors_Is err ErrClosed \<and> \<not> errors_Is err ErrClosing
           \<and> \<not> errors_Is err ErrPartitionUnavailable)"

definition Fetch ::
  "bool \<Rightarrow> fetchContext \<Rightarrow> uint64 \<Rightarrow> FetchOptions \<Rightarrow> writerState \<Rightarrow> (FetchResult \<times> error) \<times> fetchContext \<times> writerState" where
  "Fetch tailLocked ctx offset options s =
     (let empty = \<lparr>frRecords = [], frNextOffset = offset\<rparr>
      in case ctxErr ctx of
           (err, ctx) \<Rightarrow>
             if err \<noteq> [] then ((empty, err), ctx, s)
             else
               case normalizeFetchOptions options of
                 Inl e \<Rightarrow> ((empty, e), ctx, s)
               | Inr options \<Rightarrow>
                   (case fetchLocked tailLocked offset options (wsPartition s) ctx (wsFiles s) (wsWorld s) of
                      ((result, err), ctx, files, w) \<Rightarrow>
                        let s = s\<lparr>wsFiles := files, wsWorld := w\<rparr>
                        in ((result, err), ctx, if shouldFenceFetchError err then fence err s else s)))"

section \<open>Waiting for data\<close>

text \<open>\<open>waitForData\<close> before and after it blocks; the end of the wait is the context, the timer or a wake-up.\<close>

datatype waitEnd = WaitContext error | WaitTimer | WaitWoken

definition waitBegin :: "uint64 \<Rightarrow> Partition \<Rightarrow> unit result option \<times> Partition" where
  "waitBegin offset p =
     (case validateReadOffset offset p of
        Inl e \<Rightarrow> (Some (Inl e), p)
      | Inr _ \<Rightarrow>
          if offset < pLogEnd p then (Some (Inr ()), p)
          else if pFetchWaiters p \<ge> maxFetchWaiters then (Some (Inl [ErrBackpressure]), p)
          else (None, p\<lparr>pFetchWake := True, pFetchWaiters := pFetchWaiters p + 1\<rparr>))"

definition waitFinish :: "waitEnd \<Rightarrow> Partition \<Rightarrow> unit result \<times> Partition" where
  "waitFinish outcome p =
     (case outcome of WaitContext e \<Rightarrow> Inl e | _ \<Rightarrow> Inr (), p\<lparr>pFetchWaiters := pFetchWaiters p - 1\<rparr>)"

definition waitForData :: "uint64 \<Rightarrow> Duration \<Rightarrow> waitEnd \<Rightarrow> Partition \<Rightarrow> unit result \<times> Partition" where
  "waitForData offset maxWait outcome p =
     (if maxWait = 0 then (Inr (), p)
      else
        case waitBegin offset p of
          (Some r, p) \<Rightarrow> (r, p)
        | (None, p) \<Rightarrow> waitFinish outcome p)"

section \<open>Readers\<close>

text \<open>\<open>locked\<close> is the outcome of \<open>TryLock\<close> on the reader.\<close>

record Reader =
  rdNext :: uint64
  rdClosed :: bool

definition NewReader :: "uint64 \<Rightarrow> Partition \<Rightarrow> Reader result" where
  "NewReader start p = andThen (validateReadOffset start p) (\<lambda>_. Inr \<lparr>rdNext = start, rdClosed = False\<rparr>)"

definition no_result :: FetchResult where
  "no_result = \<lparr>frRecords = [], frNextOffset = 0\<rparr>"

definition Reader_Fetch ::
  "bool \<Rightarrow> bool \<Rightarrow> fetchContext \<Rightarrow> FetchOptions \<Rightarrow> Reader \<Rightarrow> writerState
     \<Rightarrow> (FetchResult \<times> error) \<times> Reader \<times> writerState" where
  "Reader_Fetch locked tailLocked ctx options reader s =
     (if \<not> locked then ((no_result, [ErrConcurrentOperation]), reader, s)
      else if rdClosed reader then ((no_result, [ErrClosed]), reader, s)
      else
        case Fetch tailLocked ctx (rdNext reader) options s of
          ((result, err), _, s) \<Rightarrow>
            if err \<noteq> [] then ((result, err), reader, s)
            else ((result, []), reader\<lparr>rdNext := frNextOffset result\<rparr>, s))"

definition Seek :: "bool \<Rightarrow> uint64 \<Rightarrow> Partition \<Rightarrow> Reader \<Rightarrow> unit result \<times> Reader" where
  "Seek locked offset p reader =
     (if \<not> locked then (Inl [ErrConcurrentOperation], reader)
      else if rdClosed reader then (Inl [ErrClosed], reader)
      else
        case validateReadOffset offset p of
          Inl e \<Rightarrow> (Inl e, reader)
        | Inr _ \<Rightarrow> (Inr (), reader\<lparr>rdNext := offset\<rparr>))"

definition NextOffset :: "Reader \<Rightarrow> uint64 result" where
  "NextOffset reader = (if rdClosed reader then Inl [ErrClosed] else Inr (rdNext reader))"

definition Reader_Close :: "Reader \<Rightarrow> Reader" where
  "Reader_Close reader = reader\<lparr>rdClosed := True\<rparr>"

end
