(* ===== verification/Reading.thy ===== *)
theory Reading
  imports Fetch
begin

text \<open>
  What reads return. The record loop of a fetch takes as many records as the limits allow; the batch loop,
  the index hint and the segment loop only add that these are the records of the log from the offset on;
  a hit in the tail cache is a slice of the same log. A failure of the file system or the end of the
  context can replace the result by an error, and cannot change it.
\<close>

section \<open>The record loop\<close>

text \<open>How many records of a list fit into a number of records and of bytes.\<close>

fun fetch_count :: "nat \<Rightarrow> nat \<Rightarrow> Record list \<Rightarrow> nat" where
  "fetch_count 0 b rs = 0"
| "fetch_count m b [] = 0"
| "fetch_count (Suc m) b (r # rs) =
     (if record_length r > b then 0 else Suc (fetch_count m (b - record_length r) rs))"

lemma fetch_count_Nil [simp]: "fetch_count m b [] = 0"
  by (cases m) auto

lemma fetch_count_bounds:
  "fetch_count m b rs \<le> length rs" "fetch_count m b rs \<le> m"
  "records_length (take (fetch_count m b rs) rs) \<le> b"
  by (induction m b rs rule: fetch_count.induct) (auto simp: records_length_def)

lemma fetch_count_take: "fetch_count m b (take n rs) = min n (fetch_count m b rs)"
proof (induction m b rs arbitrary: n rule: fetch_count.induct)
  case (3 m b r rs)
  then show ?case by (cases n) auto
qed auto

definition sized :: "Record list \<Rightarrow> bool" where
  "sized rs \<longleftrightarrow> (\<forall>r \<in> set rs. recordEncodedBytes r = Inr (of_nat (record_length r)) \<and> record_length r < 2 ^ 64)"

lemma numbered_Cons [simp]: "numbered off (r # rs) \<longleftrightarrow> rOffset r = off \<and> numbered (off + 1) rs"
  using numbered_append [of off "[r]" rs] by (simp add: numbered_def)

definition extend :: "FetchResult \<Rightarrow> Record list \<Rightarrow> FetchResult" where
  "extend result rs = \<lparr>frRecords = frRecords result @ rs, frNextOffset = frNextOffset result + of_nat (length rs)\<rparr>"

lemma extend_Nil [simp]: "extend result [] = result"
  by (simp add: extend_def)

lemma extend_append [simp]: "extend (extend result xs) ys = extend result (xs @ ys)"
  by (simp add: extend_def add.assoc)

definition room :: "FetchOptions \<Rightarrow> FetchResult \<Rightarrow> uint64 \<Rightarrow> nat \<Rightarrow> nat \<Rightarrow> bool" where
  "room options result resultBytes m b \<longleftrightarrow>
     length (frRecords result) + m = unat (foMaxRecords options) \<and> unat resultBytes + b = unat (foMaxBytes options)
     \<and> 0 < unat (foMaxRecords options)"

lemma fetchRecords_count:
  assumes "numbered (frNextOffset result) rs" and "sized rs" and "room options result resultBytes m b"
  shows "fetchRecords options rs result resultBytes =
    (let n = fetch_count m b rs; result' = extend result (take n rs);
         bytes' = resultBytes + of_nat (records_length (take n rs))
     in if n = length rs then FetchMore result' bytes'
        else if n = 0 \<and> frRecords result = [] then FetchFail [ErrFetchLimitTooSmall, ErrNew]
        else FetchFull result' bytes')"
  using assms
proof (induction rs arbitrary: result resultBytes m b)
  case Nil
  then show ?case by (simp add: records_length_def)
next
  case (Cons r rs)
  have full: "of_nat (length (frRecords result)) \<ge> foMaxRecords options \<longleftrightarrow> m = 0"
    using Cons.prems(3) unat_uint32_less [of "foMaxRecords options"]
    by (auto simp: room_def word_le_nat_alt unat_of_nat)
  have s: "recordEncodedBytes r = Inr (of_nat (record_length r))" "record_length r < 2 ^ 64"
    using Cons.prems(2) by (simp_all add: sized_def)
  have big: "of_nat (record_length r) > foMaxBytes options - resultBytes \<longleftrightarrow> record_length r > b"
    using Cons.prems(3) s(2) unat_uint64_less [of "foMaxBytes options"]
    by (auto simp: room_def word_less_nat_alt unat_of_nat unat_sub word_le_nat_alt)
  show ?case
  proof (cases "m = 0 \<or> record_length r > b")
    case True
    then show ?thesis using full big s Cons.prems(3) by (cases m) (auto simp: records_length_def room_def)
  next
    case False
    then obtain k where m: "m = Suc k" by (cases m) auto
    let ?res = "extend result [r]" and ?bytes = "resultBytes + of_nat (record_length r)"
    have res: "\<lparr>frRecords = frRecords result @ [r], frNextOffset = rOffset r + 1\<rparr> = ?res"
      using Cons.prems(1) by (simp add: extend_def)
    have "unat ?bytes = unat resultBytes + record_length r"
      using False Cons.prems(3) s(2) unat_uint64_less [of "foMaxBytes options"]
      by (simp add: room_def unat_word_ariths unat_of_nat)
    then have "room options ?res ?bytes k (b - record_length r)"
      using Cons.prems(3) False m by (simp add: room_def extend_def)
    moreover have "numbered (frNextOffset ?res) rs" "sized rs"
      using Cons.prems(1,2) by (simp_all add: extend_def sized_def)
    ultimately have "fetchRecords options rs ?res ?bytes = (let n = fetch_count k (b - record_length r) rs;
         result' = extend ?res (take n rs); bytes' = ?bytes + of_nat (records_length (take n rs))
     in if n = length rs then FetchMore result' bytes'
        else if n = 0 \<and> frRecords ?res = [] then FetchFail [ErrFetchLimitTooSmall, ErrNew]
        else FetchFull result' bytes')" by (intro Cons.IH)
    then show ?thesis using False m full big s
      by (simp add: res Let_def records_length_def add.assoc) (simp add: extend_def)
  qed
qed

lemma fetchRecords_append:
  "fetchRecords options (xs @ ys) result resultBytes =
     (case fetchRecords options xs result resultBytes of
        FetchMore result resultBytes \<Rightarrow> fetchRecords options ys result resultBytes
      | out \<Rightarrow> out)"
  by (induction xs arbitrary: result resultBytes) (auto split: sum.splits)

text \<open>The tail cache reads in the same way, up to the end of a batch.\<close>

lemma tailRecords_fetchRecords:
  assumes "sized rs"
  shows "tailRecords options offset rs result resultBytes =
    (case fetchRecords options rs result resultBytes of
       FetchMore result _ \<Rightarrow> Some (result, [])
     | FetchFull result _ \<Rightarrow> Some (result, [])
     | FetchFail e \<Rightarrow> Some (\<lparr>frRecords = [], frNextOffset = offset\<rparr>, e))"
  using assms by (induction rs arbitrary: result resultBytes) (auto simp: sized_def)

section \<open>Reading chunks\<close>

lemma readAtFull_effect:
  assumes "readAtFull path n position w = (r, w')" and "content w path = Some data"
    and "position + n \<le> length data"
  shows "(r = Inr (slice position (position + n) data) \<or> wFaults w \<noteq> [] \<and> (\<exists>e. r = Inl e))
    \<and> (\<forall>q. content w' q = content w q) \<and> (wFaults w = [] \<longrightarrow> w' = w)"
proof -
  have l: "length (slice position (position + n) data) = n" using assms(3) by (simp add: slice_def)
  show ?thesis
  proof (cases "n = 0")
    case True
    then show ?thesis using assms(1) l by (auto simp: readAtFull_def slice_def)
  next
    case False
    obtain d e v where f: "fileReadAt path n position w = ((d, e), v)" by (metis prod.collapse)
    have v: "\<forall>q. content v q = content w q" using fileReadAt_content [OF f] by simp
    have "\<exists>k. d = take k (slice position (position + n) data)"
      using f assms(2)
      by (auto simp: fileReadAt_def Let_def next_outcome_def split: list.splits outcome.splits
          intro: exI [of _ "length (slice position (position + n) data)"])
    then have same: "length d = n \<Longrightarrow> d = slice position (position + n) data"
      using l by (metis length_take min.absorb_iff2 take_all_iff min_def)
    have quiet: "wFaults w = [] \<Longrightarrow> d = slice position (position + n) data \<and> e = [] \<and> v = w"
      using f assms(2) by (auto simp: fileReadAt_def Let_def next_outcome_def)
    show ?thesis
    proof (cases "length d = n \<and> e = []")
      case True
      then show ?thesis using assms(1) f v quiet same False by (auto simp: readAtFull_def)
    next
      case nope: False
      then have "wFaults w \<noteq> []" using quiet l by auto
      then show ?thesis using nope assms(1) f v False by (auto simp: readAtFull_def split: if_splits)
    qed
  qed
qed

definition scan_result :: "fetchOutcome \<Rightarrow> (bool \<times> FetchResult \<times> uint64) result" where
  "scan_result out = (case out of
     FetchMore result b \<Rightarrow> Inr (False, result, b) | FetchFull result b \<Rightarrow> Inr (True, result, b) | FetchFail e \<Rightarrow> Inl e)"

text \<open>The filter that skips the records before the offset.\<close>

abbreviation from_offset :: "uint64 \<Rightarrow> Record list \<Rightarrow> Record list" where
  "from_offset offset rs \<equiv> filter (\<lambda>r. \<not> rOffset r < offset) rs"

text \<open>A step that succeeded as specified, or met a failure of the file system or the end of the context.\<close>

definition reads_as :: "'a result \<Rightarrow> fetchContext \<Rightarrow> world \<Rightarrow> 'a result \<Rightarrow> fetchContext \<Rightarrow> world \<Rightarrow> bool" where
  "reads_as spec ctx w r ctx' w' \<longleftrightarrow>
     (r = spec \<or> (wFaults w \<noteq> [] \<or> ctx \<noteq> []) \<and> (\<exists>e. r = Inl e \<and> e \<noteq> []))
     \<and> (\<forall>q. content w' q = content w q) \<and> (wFaults w = [] \<longrightarrow> wFaults w' = []) \<and> (ctx = [] \<longrightarrow> ctx' = [])"

lemma ctxErr_empty: "ctxErr ctx = (e, ctx') \<Longrightarrow> (e \<noteq> [] \<longrightarrow> ctx \<noteq> []) \<and> (ctx = [] \<longrightarrow> ctx' = [])"
  by (auto simp: ctxErr_def split: list.splits)

lemma reads_as_later:
  assumes "reads_as spec c v r ctx' w'" and "\<forall>q. content v q = content w q" and "wFaults w = [] \<longrightarrow> wFaults v = []"
    and "ctx = [] \<longrightarrow> c = []"
  shows "reads_as spec ctx w r ctx' w'"
  using assms by (auto simp: reads_as_def)

lemma scanLoop_chunks:
  assumes "chunks_ok t p off cs" and "content w path = Some (pre @ chunk_bytes cs @ rest)"
    and "scanLoop t p path (length pre + length (chunk_bytes cs)) offset options (length pre) result b ctx w = (r, ctx', w')"
  shows "reads_as (scan_result (fetchRecords options (from_offset offset (chunk_records cs)) result b)) ctx w r ctx' w'"
  using assms
proof (induction cs arbitrary: off pre result b ctx w)
  case Nil
  then show ?case by (simp add: scanLoop.simps reads_as_def scan_result_def)
next
  case (Cons x cs)
  obtain c bt where x: "x = (c, bt)" by (cases x)
  have dec: "DecodeBatch c t p = Inr bt" and ok: "chunks_ok t p (off + of_nat (length (bRecords bt))) cs"
    using Cons.prems(1) x by auto
  note f = DecodeBatch_facts [OF dec]
  let ?data = "pre @ chunk_bytes (x # cs) @ rest"
  define segsize where "segsize = length pre + length (chunk_bytes (x # cs))"
  have sz: "segsize = length pre + (length c + length (chunk_bytes cs))" using x by (simp add: segsize_def)
  note run0 = Cons.prems(3) [folded segsize_def]
  have cut: "slice (length pre + lo) (length pre + hi) ?data = slice lo hi c" if "lo \<le> hi" "hi \<le> length c" for lo hi
    using slice_middle [of lo hi c "length pre" pre "chunk_bytes cs @ rest"] that x by simp
  have len: "Uint32 (slice 8 12 (slice 0 48 c)) = of_nat (length c)" "unat (of_nat (length c) :: uint32) = length c"
    using f(1-3) by (simp_all add: slice_def take_drop min_def unat_of_nat)
  obtain e c1 where ce: "ctxErr ctx = (e, c1)" by (metis surj_pair)
  obtain r1 w1 where h: "readAtFull path 48 (length pre) w = (r1, w1)" by (metis surj_pair)
  have H: "(r1 = Inr (slice 0 48 c) \<or> wFaults w \<noteq> [] \<and> (\<exists>e. r1 = Inl e))
      \<and> (\<forall>q. content w1 q = content w q) \<and> (wFaults w = [] \<longrightarrow> w1 = w)"
    using readAtFull_effect [OF h Cons.prems(2)] cut [of 0 48] f(2) x by simp
  obtain r2 w2 where bd: "readAtFull path (length c - 48) (length pre + 48) w1 = (r2, w2)" by (metis surj_pair)
  have B: "(r2 = Inr (slice 48 (length c) c) \<or> wFaults w1 \<noteq> [] \<and> (\<exists>e. r2 = Inl e))
      \<and> (\<forall>q. content w2 q = content w1 q) \<and> (wFaults w1 = [] \<longrightarrow> w2 = w1)"
    using readAtFull_effect [OF bd, of ?data] H Cons.prems(2) cut [of 48 "length c"] f(2) x by simp
  have whole: "slice 0 48 c @ slice 48 (length c) c = c" using f(2) by (simp add: slice_def)
  have guard: "\<not> (of_nat (length c) < (ucast BatchHeaderBytes + of_nat BatchTrailerBytes :: uint32)
      \<or> of_nat (length c) > MaxBatchBytes \<or> length c > segsize - length pre)"
    using f(2,3) sz by (simp add: word_less_nat_alt unat_of_nat)
  have less: "length pre < segsize" using f(2) sz by (cases c) auto
  show ?case
  proof (cases "e \<noteq> [] \<or> (\<exists>e. r1 = Inl e) \<or> (\<exists>e. r2 = Inl e)")
    case True
    then show ?thesis
      using run0 ce ctxErr_empty [OF ce] h H bd B f(2) guard len sz
      by (subst (asm) scanLoop.simps) (auto simp: reads_as_def Let_def errorf_def split: if_splits sum.splits prod.splits)
  next
    case False
    then have go: "e = []" "r1 = Inr (slice 0 48 c)" "r2 = Inr (slice 48 (length c) c)" using H B by auto
    let ?out = "fetchRecords options (from_offset offset (bRecords bt)) result b"
    have run: "(r, ctx', w') = (case ?out of FetchFail e \<Rightarrow> (Inl e, c1, w2)
        | FetchFull result b \<Rightarrow> (Inr (True, result, b), c1, w2)
        | FetchMore result b \<Rightarrow> scanLoop t p path segsize offset options (length pre + length c) result b c1 w2)"
      using ce go h bd f(2) guard len dec whole less
      by (simp add: run0 [symmetric] scanLoop.simps [of t p path segsize offset options "length pre" result b ctx w] Let_def split: fetchOutcome.split)
    have later: "\<forall>q. content w2 q = content w q" "wFaults w = [] \<longrightarrow> wFaults w2 = []" "ctx = [] \<longrightarrow> c1 = []"
      using H B ctxErr_empty [OF ce] by auto
    show ?thesis
    proof (cases ?out)
      case (FetchMore result1 b1)
      have "content w2 path = Some ((pre @ c) @ chunk_bytes cs @ rest)" using later(1) Cons.prems(2) x by simp
      moreover have "scanLoop t p path (length (pre @ c) + length (chunk_bytes cs)) offset options (length (pre @ c)) result1 b1 c1 w2 = (r, ctx', w')"
        using run FetchMore sz by (simp add: add.assoc)
      ultimately have "reads_as (scan_result (fetchRecords options (from_offset offset (chunk_records cs)) result1 b1)) c1 w2 r ctx' w'"
        by (rule Cons.IH [OF ok])
      then show ?thesis using reads_as_later [OF _ later] FetchMore x by (simp add: fetchRecords_append)
    qed (use run later x in \<open>auto simp: reads_as_def scan_result_def fetchRecords_append\<close>)
  qed
qed

section \<open>Offsets and positions\<close>

lemma numbered_offsets:
  assumes "numbered off rs" and "unat off + length rs < 2 ^ 64" and "r \<in> set rs"
  shows "off \<le> rOffset r" and "rOffset r < off + of_nat (length rs)"
proof -
  obtain k where k: "k < length rs" "r = rs ! k" using assms(3) by (metis in_set_conv_nth)
  then have "rOffset r = off + of_nat k" using assms(1) by (simp add: numbered_def)
  moreover have "unat (off + of_nat j) = unat off + j" if "j \<le> length rs" for j
    using that assms(2) by (simp add: unat_word_ariths unat_of_nat)
  ultimately show "off \<le> rOffset r" "rOffset r < off + of_nat (length rs)"
    using k by (simp_all add: word_le_nat_alt word_less_nat_alt)
qed

lemma from_offset_numbered:
  assumes "numbered off rs" and "unat off + length rs < 2 ^ 64"
  shows "from_offset offset rs = drop (unat offset - unat off) rs"
  using assms
proof (induction rs arbitrary: off)
  case (Cons r rs)
  have u: "unat (off + 1) = unat off + 1" using Cons.prems(2) by (simp add: unat_word_ariths)
  show ?case
  proof (cases "off < offset")
    case True
    then have "unat offset - unat off = Suc (unat offset - unat (off + 1))" using u by (simp add: word_less_nat_alt)
    then show ?thesis using True Cons.IH [of "off + 1"] Cons.prems u by simp
  next
    case False
    have "\<not> rOffset x < offset" if "x \<in> set (r # rs)" for x
      using False numbered_offsets(1) [OF Cons.prems that] by simp
    then have "from_offset offset (r # rs) = r # rs" by (intro filter_True) simp
    then show ?thesis using False by (simp add: word_less_nat_alt)
  qed
qed simp

lemma chunk_offsets:
  assumes "chunks_ok t p off cs" and "r \<in> set (chunk_records cs)"
  shows "rOffset r < off + of_nat (length (chunk_records cs))"
proof -
  have "cs \<noteq> []" using assms(2) by auto
  then show ?thesis
    using numbered_offsets(2) [OF numbered_chunks [OF assms(1)] _ assms(2)] chunks_ok_end [OF assms(1)] by simp
qed

text \<open>The batch map of a segment gives the places of its chunks.\<close>

lemma scan_batches_places:
  assumes "b \<in> set (scBatches (fold scan_chunk cs st))"
  shows "b \<in> set (scBatches st)
    \<or> (\<exists>i < length cs. biBase b = bBaseOffset (snd (cs ! i))
         \<and> biPosition b = scPosition st + length (chunk_bytes (take i cs)))"
  using assms
proof (induction cs arbitrary: st)
  case (Cons x cs)
  obtain c bt where x: "x = (c, bt)" by (cases x)
  from Cons.IH [of "scan_chunk x st"] Cons.prems
  consider "b \<in> set (scBatches (scan_chunk x st))"
    | i where "i < length cs" "biBase b = bBaseOffset (snd (cs ! i))"
        "biPosition b = scPosition (scan_chunk x st) + length (chunk_bytes (take i cs))"
    by auto
  then show ?case
  proof cases
    case 1
    then have "b \<in> set (scBatches st) \<or> biBase b = bBaseOffset bt \<and> biPosition b = scPosition st"
      using x by (auto simp: scan_chunk_def)
    then show ?thesis using x by (auto intro!: exI [of _ 0])
  next
    case 2
    then have "Suc i < length (x # cs) \<and> biBase b = bBaseOffset (snd ((x # cs) ! Suc i))
        \<and> biPosition b = scPosition st + length (chunk_bytes (take (Suc i) (x # cs)))"
      using x by (simp add: scan_chunk_def)
    then show ?thesis by blast
  qed
qed simp

lemma chunk_base:
  assumes "chunks_ok t p off cs" and "i < length cs"
  shows "bBaseOffset (snd (cs ! i)) = off + of_nat (length (chunk_records (take i cs)))"
proof -
  have "chunks_ok t p off (take i cs @ cs ! i # drop (Suc i) cs)" using assms by (simp add: id_take_nth_drop [symmetric])
  then show ?thesis by (cases "cs ! i") (simp add: chunks_ok_append)
qed

lemma hintPosition_cases:
  "hintPosition es offset position = position
   \<or> (\<exists>h \<in> set es. oiBase h \<le> offset \<and> hintPosition es offset position = unat (oiPosition h))"
  by (induction es offset position rule: hintPosition.induct) (auto simp: not_less)

lemma fetchHint_hintPosition:
  "\<forall>h \<in> set es. unat (oiPosition h) \<le> n \<Longrightarrow> fetchHint es offset n position = Inr (hintPosition es offset position)"
  by (induction es offset n position rule: fetchHint.induct) auto

lemma hint_chunk:
  assumes inv: "segment_inv t p dir s cs" and sz: "sgSize s < 2 ^ 63"
  obtains i where "hintPosition (index_entries (sgOffsetIndex s)) offset 72 = 72 + length (chunk_bytes (take i cs))"
    and "from_offset offset (chunk_records cs) = from_offset offset (chunk_records (drop i cs))"
    and "fetchHint (index_entries (sgOffsetIndex s)) offset (sgSize s) 72 = Inr (72 + length (chunk_bytes (take i cs)))"
proof -
  let ?es = "index_entries (sgOffsetIndex s)"
  note F = segment_inv_fields [OF inv]
  have ok: "chunks_ok t p (sBaseOffset (sgHeader s)) cs" using inv by (simp add: segment_inv_def)
  have le: "length (chunk_bytes (take i cs)) \<le> length (chunk_bytes cs)" for i
    by (metis append_take_drop_id chunk_simps(6) length_append le_add1)
  have place: "\<exists>i < length cs. oiBase h = bBaseOffset (snd (cs ! i)) \<and> unat (oiPosition h) = 72 + length (chunk_bytes (take i cs))"
    if "h \<in> set ?es" for h
  proof -
    have "h \<in> offset_entry ` set (sgBatches s)"
      using that inv by (cases "sgOffsetIndex s") (auto simp: index_entries_def segment_inv_def true_offset_index_def)
    then obtain b where b: "b \<in> set (sgBatches s)" "h = offset_entry b" by auto
    then obtain i where i: "i < length cs" "biBase b = bBaseOffset (snd (cs ! i))"
      "biPosition b = 72 + length (chunk_bytes (take i cs))"
      using scan_batches_places [of b cs "scan_start (sgHeader s)"] F(4) by (auto simp: scan_start_def)
    have "unat (of_nat (biPosition b) :: uint64) = biPosition b"
      using i F(2) sz le [of i] by (simp only: unat_of_nat) simp
    then show ?thesis using i b by (auto simp: offset_entry_def)
  qed
  have "fetchHint ?es offset (sgSize s) 72 = Inr (hintPosition ?es offset 72)"
    using place le F(2) by (intro fetchHint_hintPosition) (metis add_left_mono)
  moreover have "\<exists>i. hintPosition ?es offset 72 = 72 + length (chunk_bytes (take i cs))
      \<and> (\<forall>r \<in> set (chunk_records (take i cs)). rOffset r < offset)"
  proof (cases "hintPosition ?es offset 72 = 72")
    case True
    then show ?thesis by (intro exI [of _ 0]) simp
  next
    case False
    then obtain h where h: "h \<in> set ?es" "oiBase h \<le> offset" "hintPosition ?es offset 72 = unat (oiPosition h)"
      using hintPosition_cases [of ?es offset 72] by auto
    then obtain i where i: "i < length cs" "oiBase h = bBaseOffset (snd (cs ! i))"
      "unat (oiPosition h) = 72 + length (chunk_bytes (take i cs))" using place by blast
    have "chunks_ok t p (sBaseOffset (sgHeader s)) (take i cs)"
      using ok chunks_ok_append [of t p _ "take i cs" "drop i cs"] by simp
    then have "rOffset r < offset" if "r \<in> set (chunk_records (take i cs))" for r
      using chunk_offsets [OF _ that] chunk_base [OF ok i(1)] i(2) h(2) by (metis order_less_le_trans)
    then show ?thesis using h(3) i(3) by auto
  qed
  then obtain i where i: "hintPosition ?es offset 72 = 72 + length (chunk_bytes (take i cs))"
    "\<forall>r \<in> set (chunk_records (take i cs)). rOffset r < offset" by blast
  have "chunk_records cs = chunk_records (take i cs) @ chunk_records (drop i cs)"
    by (metis append_take_drop_id chunk_simps(3))
  then have "from_offset offset (chunk_records cs) = from_offset offset (chunk_records (drop i cs))"
    using i(2) by simp
  ultimately show ?thesis using that i(1) by simp
qed

section \<open>Scanning segments\<close>

lemma evictLocked_world:
  assumes "evictLocked cache w = (cache', w')"
  shows "(\<forall>q. content w' q = content w q) \<and> (wFaults w = [] \<longrightarrow> w' = w)"
  using assms
proof (induction cache w rule: evictLocked.induct)
  case (1 cache w)
  have close: "(\<forall>q. content (snd (fileClose p w)) q = content w q) \<and> (wFaults w = [] \<longrightarrow> snd (fileClose p w) = w)" for p
    by (auto simp: effect_defs fileEffect_quiet fileEffect_content [OF surjective_pairing])
  show ?case
  proof (cases "length (fcEntries cache) > fcLimit cache")
    case False
    then show ?thesis using "1.prems" by (simp add: evictLocked.simps [of cache])
  next
    case True
    show ?thesis
    proof (cases "findVictim (fcEntries cache) None")
      case None
      then show ?thesis using "1.prems" True by (simp add: evictLocked.simps [of cache])
    next
      case (Some v)
      obtain p e where v: "v = (p, e)" by (cases v)
      have "evictLocked (cache\<lparr>fcEntries := AList.delete p (fcEntries cache)\<rparr>) (snd (fileClose p w)) = (cache', w')"
        using "1.prems" True Some v by (simp add: evictLocked.simps [of cache])
      then show ?thesis using "1.IH" [OF _ Some v [symmetric]] True close [of p] by auto
    qed
  qed
qed

lemma fsOpen_world:
  assumes "fsOpen path w = (r, w')" and "content w path \<noteq> None"
  shows "(\<forall>q. content w' q = content w q) \<and> (wFaults w = [] \<longrightarrow> w' = w \<and> r = Inr ())"
proof (intro conjI allI impI)
  show "content w' q = content w q" for q using assms(1) by (rule fsOpen_content)
  show "w' = w" "r = Inr ()" if "wFaults w = []" using assms that by (auto simp: fsOpen_def)
qed

lemma acquire_world:
  assumes "acquire path cache w = (r, cache', w')" and "content w path \<noteq> None"
  shows "(\<forall>q. content w' q = content w q) \<and> (wFaults w = [] \<longrightarrow> w' = w \<and> r = Inr ())"
proof -
  obtain x v where o: "fsOpen path w = (x, v)" by (metis surj_pair)
  consider e where "x = Inl e" "map_of (fcEntries cache) path = None" "r = x" "w' = v"
    | c u where "evictLocked c u = (cache', w')" "r = Inr ()" "u = v \<and> x = Inr () \<or> u = w"
    using assms(1) o unfolding acquire_def Let_def
    by (cases "map_of (fcEntries cache) path"; cases x) (auto split: prod.splits)
  then show ?thesis using fsOpen_world [OF o assms(2)] by cases (auto dest: evictLocked_world)
qed

lemma acquireSegmentFile_world:
  assumes "acquireSegmentFile s files w = (r, files', w')" and "content w (sgPath s) \<noteq> None"
  shows "(\<forall>q. content w' q = content w q) \<and> (wFaults w = [] \<longrightarrow> w' = w \<and> r = Inr ())"
proof (cases "sgOpen s")
  case False
  show ?thesis
  proof (cases files)
    case None
    then have "fsOpen (sgPath s) w = (r, w')" using False assms(1) by (simp add: acquireSegmentFile_def split: prod.splits)
    then show ?thesis using assms(2) by (rule fsOpen_world)
  next
    case (Some cache)
    then obtain c where "acquire (sgPath s) cache w = (r, c, w')"
      using False assms(1) by (auto simp: acquireSegmentFile_def split: prod.splits)
    then show ?thesis using assms(2) by (rule acquire_world)
  qed
qed (use assms(1) in \<open>simp add: acquireSegmentFile_def\<close>)

lemma releaseSegmentFile_world:
  assumes "releaseSegmentFile s files w = (files', w')"
  shows "(\<forall>q. content w' q = content w q) \<and> (wFaults w = [] \<longrightarrow> w' = w)"
proof -
  have c: "(\<forall>q. content (snd (fileClose p w)) q = content w q) \<and> (wFaults w = [] \<longrightarrow> snd (fileClose p w) = w)" for p
    by (auto simp: effect_defs fileEffect_quiet fileEffect_content [OF surjective_pairing])
  show ?thesis
    using assms c
    by (auto simp: releaseSegmentFile_def release_def Let_def dest: evictLocked_world
        split: if_splits option.splits prod.splits)
qed

lemma scanSegment_stored:
  assumes st: "stored w p tail s cs"
    and run: "scanSegmentForFetch (pTopic p) (pPartition p) s offset options result b ctx files w = (r, ctx', files', w')"
  shows "reads_as (scan_result (fetchRecords options (from_offset offset (chunk_records cs)) result b)) ctx w r ctx' w'"
proof -
  have inv: "segment_inv (pTopic p) (pPartition p) (pDir p) s cs"
    and data: "content w (sgPath s) = Some (segment_prefix (sgHeader s) @ chunk_bytes cs @ tail)"
    and sz: "sgSize s < 2 ^ 63"
    using st by (simp_all add: stored_def segment_image_def)
  obtain i where i: "fetchHint (index_entries (sgOffsetIndex s)) offset (sgSize s) 72 = Inr (72 + length (chunk_bytes (take i cs)))"
    "from_offset offset (chunk_records cs) = from_offset offset (chunk_records (drop i cs))"
    by (rule hint_chunk [OF inv sz, of offset]) (rule that)
  let ?pre = "segment_prefix (sgHeader s) @ chunk_bytes (take i cs)"
  have cs: "chunk_bytes cs = chunk_bytes (take i cs) @ chunk_bytes (drop i cs)"
    by (metis append_take_drop_id chunk_simps(6))
  have ok: "\<exists>off. chunks_ok (pTopic p) (pPartition p) off (drop i cs)"
    using inv chunks_ok_append [of _ _ _ "take i cs" "drop i cs"] by (auto simp: segment_inv_def)
  obtain ra f1 w1 where a: "acquireSegmentFile s files w = (ra, f1, w1)" using prod_cases3 by blast
  note A = acquireSegmentFile_world [OF a]
  show ?thesis
  proof (cases ra)
    case (Inl e)
    then show ?thesis using run a A data by (auto simp: scanSegmentForFetch_def reads_as_def errorf_def)
  next
    case (Inr u)
    obtain r2 c2 w2 where l: "scanLoop (pTopic p) (pPartition p) (sgPath s) (sgSize s) offset options
        (72 + length (chunk_bytes (take i cs))) result b ctx w1 = (r2, c2, w2)" using prod_cases3 by blast
    obtain f3 w3 where rl: "releaseSegmentFile s f1 w2 = (f3, w3)" by (metis surj_pair)
    have "sgSize s = length ?pre + length (chunk_bytes (drop i cs))"
      using segment_inv_fields(2) [OF inv] arg_cong [OF cs, of length] by simp
    then have l': "scanLoop (pTopic p) (pPartition p) (sgPath s) (length ?pre + length (chunk_bytes (drop i cs))) offset options
        (length ?pre) result b ctx w1 = (r2, c2, w2)" using l by simp
    have "content w1 (sgPath s) = Some (?pre @ chunk_bytes (drop i cs) @ tail)" using A data cs by simp
    then have sc: "reads_as (scan_result (fetchRecords options (from_offset offset (chunk_records cs)) result b)) ctx w1 r2 c2 w2"
      unfolding i(2) using ok scanLoop_chunks [OF _ _ l'] by blast
    have "wFaults w = [] \<longrightarrow> wFaults w1 = []" using A data by simp
    then have "reads_as (scan_result (fetchRecords options (from_offset offset (chunk_records cs)) result b)) ctx w r2 c2 w2"
      using A data by (intro reads_as_later [OF sc]) simp_all
    moreover have "r = r2" "ctx' = c2" "w' = w3"
      using run a Inr i(1) l rl by (auto simp: scanSegmentForFetch_def)
    ultimately show ?thesis using releaseSegmentFile_world [OF rl] by (auto simp: reads_as_def)
  qed
qed

definition fetch_result :: "fetchOutcome \<Rightarrow> FetchResult result" where
  "fetch_result out = (case out of FetchMore result b \<Rightarrow> Inr result | FetchFull result b \<Rightarrow> Inr result | FetchFail e \<Rightarrow> Inl e)"

lemma stored_skip:
  assumes "stored w p tail s cs" and "offset \<ge> sgEnd s"
  shows "from_offset offset (chunk_records cs) = []"
proof -
  have inv: "segment_inv (pTopic p) (pPartition p) (pDir p) s cs" using assms(1) by (simp add: stored_def)
  then have "rOffset r < offset" if "r \<in> set (chunk_records cs)" for r
    using chunk_offsets [OF _ that] segment_inv_fields(1) [OF inv] assms(2) unfolding segment_inv_def
    by (metis order_less_le_trans)
  then show ?thesis by (simp add: filter_empty_conv)
qed

lemma fetchSegments_stored:
  assumes "list_all2 (\<lambda>s cs. \<exists>tail. stored v p tail s cs) ss css" and "\<forall>q. content w q = content v q"
    and "fetchSegments (pTopic p) (pPartition p) ss offset options result b ctx files w = (r, ctx', files', w')"
  shows "reads_as (fetch_result (fetchRecords options (from_offset offset (log_of css)) result b)) ctx w r ctx' w'"
  using assms
proof (induction ss css arbitrary: result b ctx files w rule: list_all2_induct)
  case Nil
  obtain e c1 where ce: "ctxErr ctx = (e, c1)" by (metis surj_pair)
  then show ?case using Nil ctxErr_empty [OF ce] by (auto simp: reads_as_def log_of_def fetch_result_def split: if_splits)
next
  case (Cons s ss cs css)
  have log: "log_of (cs # css) = chunk_records cs @ log_of css" by (simp add: log_of_def)
  obtain tail where "stored v p tail s cs" using Cons(1) by blast
  then have st: "stored w p tail s cs" by (rule stored_frame) (simp_all add: Cons.prems(1))
  show ?case
  proof (cases "offset \<ge> sgEnd s")
    case True
    then show ?thesis using stored_skip [OF st True] Cons.IH Cons.prems log by simp
  next
    case False
    obtain r1 c1 f1 w1 where s: "scanSegmentForFetch (pTopic p) (pPartition p) s offset options result b ctx files w = (r1, c1, f1, w1)"
      using prod_cases4 by blast
    note R = scanSegment_stored [OF st s]
    let ?out = "fetchRecords options (from_offset offset (chunk_records cs)) result b"
    show ?thesis
    proof (cases "r1 = scan_result ?out")
      case eq: True
      show ?thesis
      proof (cases ?out)
        case (FetchMore res b1)
        have keep: "\<forall>q. content w1 q = content w q" "wFaults w = [] \<longrightarrow> wFaults w1 = []" "ctx = [] \<longrightarrow> c1 = []"
          using R by (auto simp: reads_as_def)
        have "fetchSegments (pTopic p) (pPartition p) ss offset options res b1 c1 f1 w1 = (r, ctx', files', w')"
          using Cons.prems False s eq FetchMore by (simp add: scan_result_def)
        then have "reads_as (fetch_result (fetchRecords options (from_offset offset (log_of css)) res b1)) c1 w1 r ctx' w'"
          by (intro Cons.IH) (simp_all add: keep(1) Cons.prems(1))
        then show ?thesis using reads_as_later [OF _ keep] FetchMore log by (simp add: fetchRecords_append)
      qed (use Cons.prems False s eq R log in \<open>auto simp: scan_result_def reads_as_def fetch_result_def fetchRecords_append\<close>)
    next
      case neq: False
      then show ?thesis using R Cons.prems False s by (auto simp: reads_as_def)
    qed
  qed
qed

section \<open>The log of a partition\<close>

lemma chunks_sized: "chunks_ok t p off cs \<Longrightarrow> sized (chunk_records cs)"
proof (induction t p off cs rule: chunks_ok.induct)
  case (2 t p off c b cs)
  have "encodable_batch b" using 2(2) DecodeBatch_facts(8) by auto
  then have "sized (bRecords b)"
    using all_index_set [of "record_in_batch b" 0 "bRecords b"] recordEncodedBytes_encodable
    by (fastforce simp: sized_def encodable_batch_def record_in_batch_def encodable_record_def)
  then show ?case using 2 by (auto simp: sized_def)
qed (simp add: sized_def)

lemma image_stored:
  assumes "partition_image w p css tail"
  shows "list_all2 (\<lambda>s cs. \<exists>tail. stored w p tail s cs) (pSegments p) css"
proof -
  obtain ss s dss cs where "pSegments p = ss @ [s]" "css = dss @ [cs]" "list_all2 (stored w p []) ss dss" "stored w p tail s cs"
    using assms by (auto simp: partition_image_split)
  then show ?thesis by (auto intro!: list_all2_appendI elim!: list_all2_mono)
qed

lemma image_sized:
  assumes "partition_image w p css tail"
  shows "sized (log_of css)"
proof -
  have "sized (chunk_records cs)" if "cs \<in> set css" for cs
  proof -
    obtain i where i: "i < length css" "cs = css ! i" using \<open>cs \<in> set css\<close> by (metis in_set_conv_nth)
    then obtain tail where "stored w p tail (pSegments p ! i) cs"
      using list_all2_nthD2 [OF image_stored [OF assms]] by blast
    then show ?thesis by (auto simp: stored_def segment_inv_def dest: chunks_sized)
  qed
  then show ?thesis by (auto simp: sized_def log_of_def)
qed

lemma image_numbered:
  assumes "partition_image w p css tail"
  shows "numbered (log_start p) (log_of css)" and "unat (log_start p) + length (log_of css) < 2 ^ 64"
    and "unat (pLogEnd p) = unat (log_start p) + length (log_of css)"
  using numbered_image [OF assms] image_no_wrap [OF assms] unat_uint64_less [of "pLogEnd p"]
  by (simp_all add: log_start_def)

section \<open>The tail cache holds parts of the log\<close>

definition log_slice :: "uint64 \<Rightarrow> Record list \<Rightarrow> uint64 \<Rightarrow> Record list \<Rightarrow> bool" where
  "log_slice start log base rs \<longleftrightarrow>
     (\<exists>k. base = start + of_nat k \<and> k + length rs \<le> length log \<and> rs = take (length rs) (drop k log))"

definition tail_true :: "uint64 \<Rightarrow> Record list \<Rightarrow> partitionTail option \<Rightarrow> bool" where
  "tail_true start log tail \<longleftrightarrow>
     (\<forall>t b. tail = Some t \<longrightarrow> Some b \<in> set (ptSlots t) \<longrightarrow> log_slice start log (dbBase b) (dbRecords b))"

lemma log_slice_grows: "log_slice start log base rs \<Longrightarrow> log_slice start (log @ new) base rs"
  unfolding log_slice_def by (elim exE, rule exI) auto

lemma evict_slots: "Some b \<in> set (ptSlots (evict n t)) \<Longrightarrow> Some b \<in> set (ptSlots t)"
proof (induction n arbitrary: t)
  case (Suc n)
  then have "Some b \<in> set ((ptSlots t)[ptHead t := None])" by (force dest: Suc.IH)
  then show ?case using set_update_subset_insert by fastforce
qed simp

lemma offer_slots:
  assumes "offer locked budgetLocked topic part records durableEnd tail budget = (tail', budget')"
    and "tail' = Some t'" and "Some b \<in> set (ptSlots t')"
  shows "(\<exists>t. tail = Some t \<and> Some b \<in> set (ptSlots t)) \<or> records \<noteq> [] \<and> dbBase b = rOffset (hd records) \<and> dbRecords b = records"
proof -
  have new: "records \<noteq> [] \<and> dbBase d = rOffset (hd records) \<and> dbRecords d = records"
    if "newDeliveredBatch topic part records durableEnd = Some d" for d
    using that by (auto simp: newDeliveredBatch_def Let_def split: if_splits option.splits)
  have "tail' = tail \<or> (\<exists>t d n i. tail = Some t \<and> newDeliveredBatch topic part records durableEnd = Some d
      \<and> ptSlots t' = (ptSlots (evict n t))[i := Some d])"
    using assms(1,2) by (fastforce simp: offer_def Let_def split: option.splits if_splits prod.splits)
  then show ?thesis
  proof (elim disjE exE conjE)
    fix t d n i assume t: "tail = Some t" and d: "newDeliveredBatch topic part records durableEnd = Some d"
      and sl: "ptSlots t' = (ptSlots (evict n t))[i := Some d]"
    have "Some b \<in> insert (Some d) (set (ptSlots (evict n t)))"
      using assms(3) sl set_update_subset_insert by (metis subsetD)
    then show ?thesis using new [OF d] evict_slots t by auto
  qed (use assms(2,3) in auto)
qed

lemma tail_true_offer:
  assumes "tail_true start log tail"
    and "offer locked budgetLocked topic part records durableEnd tail budget = (tail', budget')"
    and "log_slice start log (rOffset (hd records)) records"
  shows "tail_true start log tail'"
  unfolding tail_true_def
proof (intro allI impI)
  fix t b assume "tail' = Some t" "Some b \<in> set (ptSlots t)"
  from offer_slots [OF assms(2) this] show "log_slice start log (dbBase b) (dbRecords b)"
    using assms(1,3) by (auto simp: tail_true_def)
qed

section \<open>What a fetch returns\<close>

text \<open>\<open>serves start log options offset result\<close>: the result is the part of the log from the offset on, within
  the limits, and it is empty only at the end of the log.\<close>

definition serves :: "uint64 \<Rightarrow> Record list \<Rightarrow> FetchOptions \<Rightarrow> uint64 \<Rightarrow> FetchResult \<Rightarrow> bool" where
  "serves start log options offset result \<longleftrightarrow>
     (let n = length (frRecords result); rs = drop (unat offset - unat start) log
      in frRecords result = take n rs \<and> frNextOffset result = offset + of_nat n
         \<and> n \<le> unat (foMaxRecords options) \<and> records_length (frRecords result) \<le> unat (foMaxBytes options)
         \<and> (n = 0 \<longrightarrow> rs = []))"

lemma normalize_room:
  assumes "normalizeFetchOptions options = Inr options'"
  shows "room options' \<lparr>frRecords = [], frNextOffset = offset\<rparr> 0 (unat (foMaxRecords options')) (unat (foMaxBytes options'))"
  using assms by (auto simp: normalizeFetchOptions_def Let_def room_def unat_gt_0 split: if_splits)

text \<open>Reading a beginning of the records that follow the offset.\<close>

lemma fetchRecords_serves:
  fixes offset :: uint64
  defines "blank \<equiv> \<lparr>frRecords = [], frNextOffset = offset\<rparr>"
  assumes num: "numbered start log" and lim: "unat start + length log < 2 ^ 64" and sz: "sized log"
    and off: "start \<le> offset" and k: "k \<noteq> 0"
    and rm: "room options blank 0 m b" and m: "m = unat (foMaxRecords options)" "b = unat (foMaxBytes options)"
    and out: "fetchRecords options (take k (drop (unat offset - unat start) log)) blank 0 = out"
  shows "case out of FetchFail e \<Rightarrow> e = [ErrFetchLimitTooSmall, ErrNew] \<and> drop (unat offset - unat start) log \<noteq> []
           \<and> record_length (hd (drop (unat offset - unat start) log)) > unat (foMaxBytes options)
         | FetchMore result b \<Rightarrow> serves start log options offset result
         | FetchFull result b \<Rightarrow> serves start log options offset result"
proof -
  let ?rs = "drop (unat offset - unat start) log"
  let ?n = "fetch_count m b (take k ?rs)"
  have "numbered offset ?rs"
  proof (cases "unat offset - unat start \<le> length log")
    case True
    have "numbered start (take (unat offset - unat start) log @ ?rs)" using num by simp
    then have "numbered (start + of_nat (unat offset - unat start)) ?rs" unfolding numbered_append using True by simp
    moreover have "start + of_nat (unat offset - unat start) = offset"
      using off by (simp add: of_nat_diff word_le_nat_alt)
    ultimately show ?thesis by simp
  qed simp
  then have "numbered (frNextOffset blank) (take k ?rs)"
    unfolding blank_def FetchResult.simps by (metis append_take_drop_id numbered_append)
  moreover have "sized (take k ?rs)" using sz by (auto simp: sized_def dest!: in_set_takeD in_set_dropD)
  ultimately have F: "out = (let n = ?n; result' = extend blank (take n (take k ?rs));
         bytes' = 0 + of_nat (records_length (take n (take k ?rs)))
     in if n = length (take k ?rs) then FetchMore result' bytes'
        else if n = 0 \<and> frRecords blank = [] then FetchFail [ErrFetchLimitTooSmall, ErrNew]
        else FetchFull result' bytes')"
    unfolding out [symmetric] by (intro fetchRecords_count rm)
  define rs where "rs = ?rs"
  define n where "n = fetch_count m b (take k rs)"
  have n: "n \<le> length (take k rs)" "n \<le> m" "records_length (take n (take k rs)) \<le> b"
    unfolding n_def by (rule fetch_count_bounds)+
  then have tt: "take n (take k rs) = take n rs" "length (take n rs) = n" by auto
  have S: "serves start log options offset (extend blank (take n rs))" if "n = 0 \<longrightarrow> rs = []"
    using n tt that m by (simp add: serves_def extend_def blank_def Let_def rs_def [symmetric])
  have F: "out = (if n = length (take k rs) then FetchMore (extend blank (take n rs)) (of_nat (records_length (take n rs)))
      else if n = 0 then FetchFail [ErrFetchLimitTooSmall, ErrNew]
      else FetchFull (extend blank (take n rs)) (of_nat (records_length (take n rs))))"
    using F tt by (simp add: Let_def rs_def [symmetric] n_def [symmetric]) (simp add: blank_def)
  show ?thesis
  proof (cases "n = 0 \<and> rs \<noteq> []")
    case True
    then obtain r xs where rs: "take k rs = r # xs" "hd rs = r" using k by (cases k; cases rs) auto
    have "0 < m" using rm m by (simp add: room_def)
    then have "record_length r > b" using True rs(1) by (cases m) (auto simp: n_def split: if_splits)
    then show ?thesis using F True rs m by (simp add: rs_def [symmetric])
  next
    case False
    then show ?thesis using F S by auto
  qed
qed

lemma validateReadOffset_Inr:
  "validateReadOffset offset p = Inr () \<longleftrightarrow>
     \<not> pClosed p \<and> \<not> pClosing p \<and> \<not> pUnavailable p \<and> pSegments p \<noteq> [] \<and> log_start p \<le> offset \<and> offset \<le> pLogEnd p"
  by (auto simp: validateReadOffset_def log_start_def not_less)

text \<open>A hit in the tail cache reads a slice of the log that starts at the offset.\<close>

lemma tail_fetch_slice:
  assumes tt: "tail_true start log tail" and lim: "unat start + length log < 2 ^ 64" and sz: "sized log"
    and hit: "tail_fetch locked topic part offset durableEnd options tail = Some hit"
  obtains k where "k \<noteq> 0" and "start \<le> offset" and "unat offset - unat start < length log"
    and "hit = (case fetchRecords options (take k (drop (unat offset - unat start) log)) \<lparr>frRecords = [], frNextOffset = offset\<rparr> 0 of
       FetchMore result _ \<Rightarrow> (result, [])
     | FetchFull result _ \<Rightarrow> (result, [])
     | FetchFail e \<Rightarrow> (\<lparr>frRecords = [], frNextOffset = offset\<rparr>, e))"
proof -
  obtain t b where t: "tail = Some t"
    and find: "List.find (\<lambda>b. validDeliveredBatch b topic part offset durableEnd) (ptSlots t) = Some (Some b)"
    and h: "tailRecords options offset (drop (unat (offset - dbBase b)) (dbRecords b)) \<lparr>frRecords = [], frNextOffset = offset\<rparr> 0 = Some hit"
    using hit by (auto simp: tail_fetch_def split: option.splits if_splits)
  have mem: "Some b \<in> set (ptSlots t)" and v: "validDeliveredBatch (Some b) topic part offset durableEnd"
    using find by (auto simp: find_Some_iff)
  define j where "j = unat offset - unat (dbBase b)"
  define n where "n = length (dbRecords b)"
  have base: "dbBase b \<le> offset" and "offset < dbEnd b" "dbEnd b = dbBase b + of_nat n"
    using v unfolding validDeliveredBatch_def option.case de_Morgan_disj not_not not_less not_le n_def
    by - (elim conjE, assumption)+
  then have stop: "offset < dbBase b + of_nat n" by simp
  obtain s where s: "dbBase b = start + of_nat s" "s + n \<le> length log" "dbRecords b = take n (drop s log)"
    using tt [unfolded tail_true_def, rule_format, OF t mem] unfolding log_slice_def n_def [symmetric]
    by (elim exE conjE) (rule that)
  have ub: "unat (dbBase b) = unat start + s" using s(1,2) lim by (simp add: unat_word_ariths unat_of_nat)
  have "unat (dbBase b + of_nat n) = unat start + s + n"
    using s(2) lim ub by (simp add: unat_word_ariths unat_of_nat)
  then have j: "j < n" "unat offset = unat start + s + j"
    using base stop ub by (simp_all add: j_def word_le_nat_alt word_less_nat_alt)
  have jw: "unat (offset - dbBase b) = j" using base by (simp add: j_def unat_sub)
  have pos: "unat offset - unat start = s + j" using j by simp
  have recs: "drop j (dbRecords b) = take (n - j) (drop (unat offset - unat start) log)"
    unfolding pos s(3) by (simp add: drop_take add.commute)
  have "sized (drop j (dbRecords b))"
    unfolding recs using sz by (auto simp: sized_def dest!: in_set_takeD in_set_dropD)
  note h' = h [unfolded jw tailRecords_fetchRecords [OF this], unfolded recs]
  show ?thesis
  proof (rule that)
    show "n - j \<noteq> 0" "start \<le> offset" "unat offset - unat start < length log"
      using j s(2) by (simp_all add: word_le_nat_alt)
  qed (use h' in \<open>auto split: fetchOutcome.splits\<close>)
qed

definition too_small :: "uint64 \<Rightarrow> Record list \<Rightarrow> FetchOptions \<Rightarrow> uint64 \<Rightarrow> bool" where
  "too_small start log options offset \<longleftrightarrow>
     (let rs = drop (unat offset - unat start) log in rs \<noteq> [] \<and> record_length (hd rs) > unat (foMaxBytes options))"

lemma fetchLocked_effect:
  assumes img: "partition_image w p css rest" and tt: "tail_true (log_start p) (log_of css) (pTail p)"
    and norm: "normalizeFetchOptions options0 = Inr options"
    and run: "fetchLocked tailLocked offset options p ctx files w = ((result, err), ctx', files', w')"
  shows "\<forall>q. content w' q = content w q"
    and "err = [] \<Longrightarrow> validateReadOffset offset p = Inr () \<and> serves (log_start p) (log_of css) options offset result"
    and "validateReadOffset offset p = Inr () \<Longrightarrow> wFaults w = [] \<Longrightarrow> ctx = [] \<Longrightarrow>
      err = [] \<or> err = [ErrFetchLimitTooSmall, ErrNew] \<and> too_small (log_start p) (log_of css) options offset"
proof -
  let ?blank = "\<lparr>frRecords = [], frNextOffset = offset\<rparr>" and ?log = "log_of css" and ?start = "log_start p"
  let ?rs = "drop (unat offset - unat ?start) ?log"
  let ?P = "(\<forall>q. content w' q = content w q)
    \<and> (err = [] \<longrightarrow> validateReadOffset offset p = Inr () \<and> serves ?start ?log options offset result)
    \<and> (validateReadOffset offset p = Inr () \<longrightarrow> wFaults w = [] \<longrightarrow> ctx = [] \<longrightarrow>
      err = [] \<or> err = [ErrFetchLimitTooSmall, ErrNew] \<and> too_small ?start ?log options offset)"
  note N = image_numbered [OF img] image_sized [OF img]
  have ?P
  proof (cases "validateReadOffset offset p = Inr ()")
    case False
    then obtain e where e: "validateReadOffset offset p = Inl e" "e \<noteq> []" by (auto simp: validateReadOffset_def split: if_splits)
    then show ?thesis using run by (auto simp: fetchLocked_def Let_def)
  next
    case True
    then have off: "?start \<le> offset" by (simp add: validateReadOffset_Inr)
    note S = fetchRecords_serves [OF N(1,2,4) off _ normalize_room [OF norm] refl refl refl]
    show ?thesis
    proof (cases "tail_fetch tailLocked (pTopic p) (pPartition p) offset (pLogEnd p) options (pTail p)")
      case (Some hit)
      obtain k where k: "k \<noteq> 0" and h: "hit = (case fetchRecords options (take k ?rs) ?blank 0 of
          FetchMore result _ \<Rightarrow> (result, []) | FetchFull result _ \<Rightarrow> (result, []) | FetchFail e \<Rightarrow> (?blank, e))"
        by (rule tail_fetch_slice [OF tt N(2,4) Some]) (rule that)
      have "(result, err) = hit" "w' = w" using run True Some by (auto simp: fetchLocked_def Let_def)
      then show ?thesis using True h S [OF k]
        by (cases "fetchRecords options (take k ?rs) ?blank 0") (auto simp: too_small_def Let_def)
    next
      case None
      obtain r c f v where s: "fetchSegments (pTopic p) (pPartition p) (pSegments p) offset options ?blank 0 ctx files w = (r, c, f, v)"
        using prod_cases4 by blast
      have R: "reads_as (fetch_result (fetchRecords options ?rs ?blank 0)) ctx w r c v"
        using fetchSegments_stored [OF image_stored [OF img] _ s] from_offset_numbered [OF N(1,2)] by simp
      have eq: "(result, err) = (case r of Inl e \<Rightarrow> (?blank, e) | Inr result \<Rightarrow> (result, []))" "w' = v"
        using run True None s by (auto simp: fetchLocked_def Let_def split: sum.splits)
      show ?thesis using True R eq S [of "Suc (length ?log)"]
        by (cases "fetchRecords options ?rs ?blank 0")
          (auto simp: reads_as_def fetch_result_def too_small_def Let_def split: sum.splits)
    qed
  qed
  then show "\<forall>q. content w' q = content w q"
    "err = [] \<Longrightarrow> validateReadOffset offset p = Inr () \<and> serves ?start ?log options offset result"
    "validateReadOffset offset p = Inr () \<Longrightarrow> wFaults w = [] \<Longrightarrow> ctx = [] \<Longrightarrow>
      err = [] \<or> err = [ErrFetchLimitTooSmall, ErrNew] \<and> too_small ?start ?log options offset"
    by simp_all
qed

section \<open>States that can be read\<close>

definition reading_inv :: "uint64 \<Rightarrow> Record list \<Rightarrow> writerState \<Rightarrow> bool" where
  "reading_inv start log s \<longleftrightarrow>
     log_state log s \<and> pLogEnd (wsPartition s) = start + of_nat (length log) \<and> tail_true start log (pTail (wsPartition s))"

lemma reading_image:
  assumes "reading_inv start log s" and "\<not> pUnavailable (wsPartition s)"
  obtains css where "partition_inv (wsWorld s) (wsPartition s) css" and "log_of css = log" and "log_start (wsPartition s) = start"
proof -
  obtain css where css: "partition_inv (wsWorld s) (wsPartition s) css" "log_of css = log"
    using assms by (auto simp: reading_inv_def log_state_def)
  have "log_start (wsPartition s) = start"
    using image_end [OF css(1)] css(2) assms(1) by (simp add: reading_inv_def log_start_def)
  then show ?thesis using that css by blast
qed

lemma reading_frame:
  assumes "reading_inv start log s" and "\<forall>q. content w q = content (wsWorld s) q"
  shows "reading_inv start log (s\<lparr>wsFiles := files, wsWorld := w\<rparr>)"
proof -
  have r: "list_all2 reindexed xs xs" for xs by (rule list.rel_refl) simp
  have "log_state log s" using assms(1) by (simp add: reading_inv_def)
  then have "log_state log (s\<lparr>wsFiles := files, wsWorld := w\<rparr>)"
    by (rule log_state_frame) (simp_all add: assms(2) r)
  then show ?thesis using assms(1) by (simp add: reading_inv_def)
qed

lemma fence_tail: "pTail (wsPartition (fence e s)) = pTail (wsPartition s)"
  by (simp add: fence_def markIngressUnavailable_def signalFetchWaitersLocked_def)

lemma reading_fence: "reading_inv start log s \<Longrightarrow> reading_inv start log (fence e s)"
  using fence_log [of log s e] fence_state(7) [of s e] fence_tail [of e s] by (simp add: reading_inv_def same_partition_def)

lemma fetchLocked_unavailable:
  assumes "pUnavailable p" and "fetchLocked tailLocked offset options p ctx files w = ((result, err), ctx', files', w')"
  shows "err \<noteq> [] \<and> w' = w"
proof -
  have "\<exists>e. validateReadOffset offset p = Inl e \<and> e \<noteq> []" using assms(1) by (auto simp: validateReadOffset_def)
  then show ?thesis using assms(2) by (auto simp: fetchLocked_def Let_def)
qed

lemma fetchLocked_reading:
  assumes inv: "reading_inv start log s" and norm: "normalizeFetchOptions options0 = Inr options"
    and run: "fetchLocked tailLocked offset options (wsPartition s) ctx (wsFiles s) (wsWorld s) = ((result, err), ctx', files', w')"
  shows "\<forall>q. content w' q = content (wsWorld s) q"
    and "err = [] \<Longrightarrow> validateReadOffset offset (wsPartition s) = Inr () \<and> start = log_start (wsPartition s)
      \<and> serves start log options offset result"
    and "validateReadOffset offset (wsPartition s) = Inr () \<Longrightarrow> wFaults (wsWorld s) = [] \<Longrightarrow> ctx = [] \<Longrightarrow>
      err = [] \<or> err = [ErrFetchLimitTooSmall, ErrNew] \<and> too_small start log options offset"
proof -
  let ?p = "wsPartition s"
  have "(\<forall>q. content w' q = content (wsWorld s) q)
    \<and> (err = [] \<longrightarrow> validateReadOffset offset ?p = Inr () \<and> start = log_start ?p \<and> serves start log options offset result)
    \<and> (validateReadOffset offset ?p = Inr () \<longrightarrow> wFaults (wsWorld s) = [] \<longrightarrow> ctx = [] \<longrightarrow>
      err = [] \<or> err = [ErrFetchLimitTooSmall, ErrNew] \<and> too_small start log options offset)"
  proof (cases "pUnavailable ?p")
    case True
    then show ?thesis using fetchLocked_unavailable [OF True run] by (simp add: validateReadOffset_Inr)
  next
    case False
    obtain css where css: "partition_inv (wsWorld s) ?p css" "log_of css = log" "log_start ?p = start"
      by (rule reading_image [OF inv False])
    have "tail_true (log_start ?p) (log_of css) (pTail ?p)" using inv css by (simp add: reading_inv_def)
    from fetchLocked_effect [OF css(1) this norm run] css(2,3) show ?thesis by simp
  qed
  then show "\<forall>q. content w' q = content (wsWorld s) q"
    "err = [] \<Longrightarrow> validateReadOffset offset ?p = Inr () \<and> start = log_start ?p \<and> serves start log options offset result"
    "validateReadOffset offset ?p = Inr () \<Longrightarrow> wFaults (wsWorld s) = [] \<Longrightarrow> ctx = [] \<Longrightarrow>
      err = [] \<or> err = [ErrFetchLimitTooSmall, ErrNew] \<and> too_small start log options offset"
    by blast+
qed

lemma normalize_error: "normalizeFetchOptions options = Inl e \<Longrightarrow> errors_Is e ErrInvalidArgument \<and> e \<noteq> []"
  by (auto simp: normalizeFetchOptions_def Let_def errors_Is_def split: if_splits)

lemma Fetch_cases:
  assumes "Fetch tailLocked ctx offset options s = ((result, err), ctx', s')"
  obtains "err \<noteq> []" and "s' = s" and "ctx \<noteq> [] \<or> (\<exists>e. normalizeFetchOptions options = Inl e)"
  | limits c files w where "normalizeFetchOptions options = Inr limits"
    and "fetchLocked tailLocked offset limits (wsPartition s) c (wsFiles s) (wsWorld s) = ((result, err), ctx', files, w)"
    and "ctx = [] \<longrightarrow> c = []"
    and "s' = (let t = s\<lparr>wsFiles := files, wsWorld := w\<rparr> in if shouldFenceFetchError err then fence err t else t)"
proof -
  obtain e c where ce: "ctxErr ctx = (e, c)" by (metis surj_pair)
  show ?thesis
  proof (cases "e = []")
    case False
    then show ?thesis using assms ce ctxErr_empty [OF ce] that(1) by (auto simp: Fetch_def Let_def)
  next
    case e: True
    show ?thesis
    proof (cases "normalizeFetchOptions options")
      case (Inl e')
      then show ?thesis using assms ce e normalize_error [OF Inl] that(1) by (auto simp: Fetch_def Let_def)
    next
      case (Inr limits)
      obtain r e' c' files w where f: "fetchLocked tailLocked offset limits (wsPartition s) c (wsFiles s) (wsWorld s) = ((r, e'), c', files, w)"
        by (metis surj_pair)
      show ?thesis
        by (rule that(2) [OF Inr, of c files w]) (use assms ce e Inr f ctxErr_empty [OF ce] in \<open>auto simp: Fetch_def Let_def\<close>)
    qed
  qed
qed

lemma Fetch_reading:
  assumes inv: "reading_inv start log s" and run: "Fetch tailLocked ctx offset options s = ((result, err), ctx', s')"
  shows "reading_inv start log s'" and "wsRequests s' = wsRequests s" and "\<forall>q. content (wsWorld s') q = content (wsWorld s) q"
    and "err = [] \<Longrightarrow> wsPartition s' = wsPartition s"
    and "err = [] \<Longrightarrow> \<exists>limits. normalizeFetchOptions options = Inr limits \<and> serves start log limits offset result
      \<and> start = log_start (wsPartition s) \<and> validateReadOffset offset (wsPartition s) = Inr ()"
proof -
  have "reading_inv start log s' \<and> wsRequests s' = wsRequests s \<and> (\<forall>q. content (wsWorld s') q = content (wsWorld s) q)
    \<and> (err = [] \<longrightarrow> wsPartition s' = wsPartition s \<and> (\<exists>limits. normalizeFetchOptions options = Inr limits \<and> serves start log limits offset result
      \<and> start = log_start (wsPartition s) \<and> validateReadOffset offset (wsPartition s) = Inr ()))"
    using run
  proof (cases rule: Fetch_cases)
    case 1
    then show ?thesis using inv by simp
  next
    case (2 limits c files w)
    note L = fetchLocked_reading [OF inv 2(1,2)]
    have "reading_inv start log (s\<lparr>wsFiles := files, wsWorld := w\<rparr>)" using inv L(1) by (rule reading_frame)
    moreover have "\<not> shouldFenceFetchError []" by (simp add: shouldFenceFetchError_def)
    ultimately show ?thesis using 2 L by (auto simp: Let_def fence_state intro: reading_fence)
  qed
  then show "reading_inv start log s'" "wsRequests s' = wsRequests s" "\<forall>q. content (wsWorld s') q = content (wsWorld s) q"
    "err = [] \<Longrightarrow> wsPartition s' = wsPartition s"
    "err = [] \<Longrightarrow> \<exists>limits. normalizeFetchOptions options = Inr limits \<and> serves start log limits offset result
      \<and> start = log_start (wsPartition s) \<and> validateReadOffset offset (wsPartition s) = Inr ()"
    by blast+
qed

section \<open>Writing while readers read\<close>

lemma writeActive_tail:
  "writeActive batch encoded p w = (r, p', w') \<Longrightarrow>
     pTail p' = pTail p \<and> (\<forall>off t. r = Inr (off, Some t) \<longrightarrow> tpRecords t = bRecords batch)"
  by (auto simp: writeActive_def Let_def extendPrefixDigestLocked_def signalFetchWaitersLocked_def
      split: prod.splits if_splits sum.splits option.splits)

lemma appendFormed_tail:
  assumes "appendFormed choice batch p w = (r, p', w')"
  shows "pTail p' = pTail p \<and> (\<forall>off t. r = Inr (off, Some t) \<longrightarrow> tpRecords t = bRecords batch)"
proof -
  have "pTail p' = pTail p \<and> (\<exists>e. r = Inl e) \<or> (\<exists>encoded q v. pTail q = pTail p \<and> writeActive batch encoded q v = (r, p', w'))"
    using assms unfolding appendFormed_def appendEncodedLocked_def rollSegment_def
    by (fastforce simp: Let_def split: if_splits sum.splits prod.splits)
  then show ?thesis using writeActive_tail by auto
qed

end
