(* ===== verification/Writer_System.thy ===== *)
theory Writer_System
  imports Writer
begin

text \<open>
  The writer of a partition as a system of concurrent parts: the callers of \<open>Append\<close>, the goroutine that
  runs the ingress processor, and the caller of \<open>closeWriter\<close>. A step is one critical section, or one
  call of the handler. \<open>work\<close> has the steps that the three parts take on their own; \<open>outside\<close> has new
  calls and what the rest of the program may do to the partition. Theorems hold for every interleaving.

  Of the ring, a library, the rules assume this: a claimed slot can fail; published requests come to the
  handler in the order of publication; the handler is told that a group goes on only when the next
  request is already published; and the processor stops after \<open>Close\<close> between two groups, or with an
  error at any time. The number of callers inside \<open>enqueue\<close> stays below the range of the 32-bit counter
  \<open>publishing\<close>.
\<close>

datatype processorState = ProcRunning | ProcFailed error | ProcStopped
datatype closeStage = CloseNone | CloseBegun | CloseFenced | CloseDrained | CloseDone

text \<open>Every caller is at one place: in the loop of \<open>admit\<close>, blocked there on a generation of \<open>spaceWake\<close>,
  admitted, in \<open>publish\<close>, about to call \<open>finishPublisher\<close> (with the error of a failed publication),
  or in \<open>waitResult\<close>. \<open>yAnswers\<close> is what the calls of \<open>Append\<close> returned.\<close>

record writerSystem =
  yState :: writerState
  yNext :: request_id
  yArguments :: "request_id \<Rightarrow> AppendRequest"
  yAnswers :: "request_id \<Rightarrow> appendResult option"
  yAdmitting :: "request_id multiset"
  yBlocked :: "(request_id \<times> nat) multiset"
  yReserved :: "request_id multiset"
  yPublishing :: "request_id multiset"
  yFinishing :: "(request_id \<times> error option) multiset"
  yAwaiting :: "request_id multiset"
  yRing :: "request_id list"
  ySelected :: "request_id list"
  yProcessor :: processorState
  yStage :: closeStage
  yStoreClosing :: bool

abbreviation queue :: "writerSystem \<Rightarrow> writerQueue" where
  "queue y \<equiv> wsQueue (yState y)"

abbreviation request :: "writerSystem \<Rightarrow> request_id \<Rightarrow> appendRequest" where
  "request y \<equiv> wsRequests (yState y)"

abbreviation partition_of :: "writerSystem \<Rightarrow> Partition" where
  "partition_of y \<equiv> wsPartition (yState y)"

abbreviation set_queue :: "writerQueue \<Rightarrow> writerSystem \<Rightarrow> writerSystem" where
  "set_queue q y \<equiv> y\<lparr>yState := (yState y)\<lparr>wsQueue := q\<rparr>\<rparr>"

text \<open>A call returns; when it gave up, it releases its disk reservation first.\<close>

definition returns :: "request_id \<Rightarrow> appendResult \<Rightarrow> writerSystem \<Rightarrow> writerSystem" where
  "returns i r y = y\<lparr>yAnswers := (yAnswers y)(i \<mapsto> r)\<rparr>"

definition releaseDisk :: "request_id \<Rightarrow> writerState \<Rightarrow> writerState" where
  "releaseDisk i s =
     (case wsLedger s of
        None \<Rightarrow> s
      | Some l \<Rightarrow>
          (case releaseReservation (aqDisk (wsRequests s i)) l of
             (disk, l) \<Rightarrow> s\<lparr>wsLedger := Some l,
                            wsRequests := (wsRequests s)(i := (wsRequests s i)\<lparr>aqDisk := disk\<rparr>)\<rparr>))"

definition gives_up :: "request_id \<Rightarrow> error \<Rightarrow> writerSystem \<Rightarrow> writerSystem" where
  "gives_up i e y = returns i (Inl e) (y\<lparr>yState := releaseDisk i (yState y)\<rparr>)"

text \<open>Steps are told apart by whether something outside brings them about: the end of a caller's context,
  or a failure of the ring.\<close>

datatype cause = Normal | Mishap

inductive work :: "cause \<Rightarrow> writerSystem \<Rightarrow> writerSystem \<Rightarrow> bool" where
  admit_ok:
  "work Normal y (set_queue q y\<lparr>yAdmitting := A, yReserved := add_mset i (yReserved y)\<rparr>)"
  if "yAdmitting y = add_mset i A"
    and "admit (yStoreClosing y) (pOptions (partition_of y)) (request y i) (queue y) = (Admitted, q)"
| admit_refused:
  "work Normal y (gives_up i e (set_queue q y\<lparr>yAdmitting := A\<rparr>))"
  if "yAdmitting y = add_mset i A"
    and "admit (yStoreClosing y) (pOptions (partition_of y)) (request y i) (queue y) = (AdmitRefused e, q)"
| admit_wait:
  "work Normal y (y\<lparr>yState := (yState y)\<lparr>wsQueue := q,
               wsRequests := (request y)(i := (request y i)\<lparr>aqWaited := True\<rparr>)\<rparr>,
             yAdmitting := A, yBlocked := add_mset (i, g) (yBlocked y)\<rparr>)"
  if "yAdmitting y = add_mset i A"
    and "admit (yStoreClosing y) (pOptions (partition_of y)) (request y i) (queue y) = (AdmitWait g, q)"
| wake_space:
  "work Normal y (set_queue (stopWaiting (queue y)) y\<lparr>yBlocked := B, yAdmitting := add_mset i (yAdmitting y)\<rparr>)"
  if "yBlocked y = add_mset (i, g) B" and "g \<noteq> wqSpaceWake (queue y)"
| wake_context:
  "work Mishap y (gives_up i e (set_queue (stopWaiting (queue y)) y\<lparr>yBlocked := B\<rparr>))"
  if "yBlocked y = add_mset (i, g) B" and "e \<noteq> []"
| wake_closing:
  "work Normal y (gives_up i (closingError (queue y)) (set_queue (stopWaiting (queue y)) y\<lparr>yBlocked := B\<rparr>))"
  if "yBlocked y = add_mset (i, g) B" and "wqClosingSignal (queue y)"
| admitted_context:
  "work Mishap y (gives_up i e (set_queue (releaseReservationLocked (request y i) (queue y)) y\<lparr>yReserved := R\<rparr>))"
  if "yReserved y = add_mset i R" and "e \<noteq> []"
| enqueue_ok:
  "work Normal y (y\<lparr>yState := (yState y)\<lparr>wsQueue := q,
               wsRequests := (request y)(i := (request y i)\<lparr>aqRecord :=
                 copyRequest (partition_of y) now (yArguments y i)\<rparr>)\<rparr>,
             yReserved := R, yPublishing := add_mset i (yPublishing y)\<rparr>)"
  if "yReserved y = add_mset i R" and "enqueueBegin (request y i) (queue y) = (Inr (), q)"
    and "size (yPublishing y) + size (yFinishing y) + 1 < 2 ^ 32"
| enqueue_refused:
  "work Normal y (gives_up i e (set_queue q y\<lparr>yReserved := R\<rparr>))"
  if "yReserved y = add_mset i R" and "enqueueBegin (request y i) (queue y) = (Inl e, q)"
| publish_ok:
  "work Normal y (y\<lparr>yPublishing := P, yRing := yRing y @ [i], yFinishing := add_mset (i, None) (yFinishing y)\<rparr>)"
  if "yPublishing y = add_mset i P"
| publish_failed:
  "work Mishap y (y\<lparr>yState := (yState y)\<lparr>wsPartition := p, wsQueue := q\<rparr>,
             yPublishing := P, yFinishing := add_mset (i, Some e) (yFinishing y)\<rparr>)"
  if "yPublishing y = add_mset i P" and "err \<noteq> []"
    and "publishFailed err (request y i) (partition_of y, queue y) = (e, p, q)"
| finish_ok:
  "work Normal y (set_queue (finishPublisher (queue y)) y\<lparr>yFinishing := F, yAwaiting := add_mset i (yAwaiting y)\<rparr>)"
  if "yFinishing y = add_mset (i, None) F"
| finish_failed:
  "work Normal y (gives_up i e (set_queue (finishPublisher (queue y)) y\<lparr>yFinishing := F\<rparr>))"
  if "yFinishing y = add_mset (i, Some e) F"
| result:
  "work Normal y (returns i r (y\<lparr>yAwaiting := W\<rparr>))"
  if "yAwaiting y = add_mset i W" and "aqResultVal (request y i) = Some r"
| result_context:
  "work Mishap y (returns i r (y\<lparr>yState := s, yAwaiting := W\<rparr>))"
  if "yAwaiting y = add_mset i W" and "e \<noteq> []" and "waitCancelled e i (yState y) = (r, s)"
| handle:
  "work Normal y (y\<lparr>yState := s, yRing := rest, ySelected := sel\<rparr>)"
  if "yProcessor y = ProcRunning" and "yRing y = i # rest" and "endOfBatch \<or> rest \<noteq> []"
    and "\<forall>k. choice_ok (choices k)"
    and "Handle choices i endOfBatch (ySelected y) (yState y) = (sel, s)"
| processor_fails:
  "work Mishap y (y\<lparr>yState := fence (errorf e) (failPending e (ySelected y) (yState y))
               \<lparr>wsQueue := (wsQueue (fence (errorf e) (failPending e (ySelected y) (yState y))))\<lparr>wqSealed := True\<rparr>\<rparr>,
             ySelected := [], yProcessor := ProcFailed e\<rparr>)"
  if "yProcessor y = ProcRunning"
| failure_drain:
  "work Normal y (y\<lparr>yState := drainPending e (yRing y) (yState y), yRing := [], yProcessor := ProcStopped\<rparr>)"
  if "yProcessor y = ProcFailed e" and "wqPublishing (queue y) = 0"
| processor_stops:
  "work Normal y (y\<lparr>yProcessor := ProcStopped\<rparr>)"
  if "yProcessor y = ProcRunning" and "ySelected y = []" and "yStage y = CloseFenced"
| close_fence:
  "work Normal y (y\<lparr>yState := closeFence (yState y), yStage := CloseFenced\<rparr>)"
  if "yStage y = CloseBegun" and "wqPublishing (queue y) = 0"
| close_drain:
  "work Normal y (y\<lparr>yState := drainPending [ErrPartitionUnavailable] (yRing y) (yState y), yRing := [],
             yStage := CloseDrained\<rparr>)"
  if "yStage y = CloseFenced" and "yProcessor y = ProcStopped"
| close_finish:
  "work Normal y (y\<lparr>yState := s, yStage := CloseDone\<rparr>)"
  if "yStage y = CloseDrained" and "\<forall>k. last (fst (ts k)) = 0x70 \<and> last (snd (ts k)) = 0x70"
    and "closeFinish ts (yState y) = (e, s)"

text \<open>New calls, and the environment: the store begins to close, another component fences the partition,
  and the ledger, the tail budget, the indexes and handles of the segments, the tail cache and files
  other than the segments change.\<close>

inductive outside :: "writerSystem \<Rightarrow> writerSystem \<Rightarrow> bool" where
  append_begins:
  "outside y (y\<lparr>yState := (yState y)\<lparr>wsLedger := l, wsRequests := (request y)(yNext y := r)\<rparr>,
                yNext := yNext y + 1, yArguments := (yArguments y)(yNext y := a),
                yAnswers := (yAnswers y)(yNext y := None),
                yAdmitting := add_mset (yNext y) (yAdmitting y)\<rparr>)"
  if "prepareAppend [] (yStoreClosing y) outcome a (partition_of y) (wsLedger (yState y)) = (Inr r, l)"
| close_begins:
  "outside y (set_queue (closeBegin (queue y)) y\<lparr>yStage := CloseBegun\<rparr>)"
  if "\<not> wqQueueClosed (queue y)" and "\<not> wqQueueClosing (queue y)"
| store_closes:
  "outside y (y\<lparr>yStoreClosing := True\<rparr>)"
| fenced:
  "outside y (y\<lparr>yState := fence e (yState y)\<rparr>)"
| environment:
  "outside y (y\<lparr>yState := (yState y)\<lparr>wsLedger := l, wsBudget := b, wsFiles := f, wsWorld := w,
                 wsPartition := p\<rparr>\<rparr>)"
  if "\<forall>q. log_path (pDir (partition_of y)) q \<longrightarrow> content w q = content (wsWorld (yState y)) q"
    and "list_all2 reindexed (pSegments (partition_of y)) (pSegments p)"
    and "same_partition 0 (partition_of y) p" and "pClosed p = pClosed (partition_of y)"

definition step :: "writerSystem \<Rightarrow> writerSystem \<Rightarrow> bool" where
  "step y z \<longleftrightarrow> (\<exists>l. work l y z) \<or> outside y z"

text \<open>A partition that has just been opened, with its writer started.\<close>

definition fresh_queue :: "uint32 \<Rightarrow> writerQueue" where
  "fresh_queue capacity =
     \<lparr>wqCapacity = capacity, wqSealed = False, wqPublicationCredits = 0, wqPublishing = 0,
      wqPublisherWake = 0, wqAdmittedBytes = 0, wqAdmittedRecords = 0, wqWaiting = 0, wqQueueWake = 0,
      wqSpaceWake = 0, wqClosingSignal = False, wqQueueClosing = False, wqQueueClosed = False,
      wqWriterUnavailable = False, wqCloseErr = []\<rparr>"

definition started :: "writerSystem \<Rightarrow> bool" where
  "started y \<longleftrightarrow>
     (\<exists>newRing n. startWriter newRing (pOptions (partition_of y)) = Inr n \<and> queue y = fresh_queue n)
     \<and> (\<exists>css. partition_inv (wsWorld (yState y)) (partition_of y) css) \<and> options_ok (pOptions (partition_of y))
     \<and> \<not> pUnavailable (partition_of y) \<and> \<not> pClosed (partition_of y)
     \<and> yNext y = 0 \<and> yAnswers y = (\<lambda>_. None)
     \<and> (\<forall>i. \<not> aqCompleted (request y i) \<and> aqResultVal (request y i) = None)
     \<and> yAdmitting y = {#} \<and> yBlocked y = {#} \<and> yReserved y = {#} \<and> yPublishing y = {#} \<and> yFinishing y = {#}
     \<and> yAwaiting y = {#} \<and> yRing y = [] \<and> ySelected y = [] \<and> yProcessor y = ProcRunning \<and> yStage y = CloseNone"

section \<open>Every call is at one place\<close>

lemma gives_up_fields [simp]:
  "yState (gives_up i e y) = releaseDisk i (yState y)" "yNext (gives_up i e y) = yNext y"
  "yArguments (gives_up i e y) = yArguments y" "yAnswers (gives_up i e y) = (yAnswers y)(i \<mapsto> Inl e)"
  "yAdmitting (gives_up i e y) = yAdmitting y" "yBlocked (gives_up i e y) = yBlocked y"
  "yReserved (gives_up i e y) = yReserved y" "yPublishing (gives_up i e y) = yPublishing y"
  "yFinishing (gives_up i e y) = yFinishing y" "yAwaiting (gives_up i e y) = yAwaiting y"
  "yRing (gives_up i e y) = yRing y" "ySelected (gives_up i e y) = ySelected y"
  "yProcessor (gives_up i e y) = yProcessor y" "yStage (gives_up i e y) = yStage y"
  by (simp_all add: gives_up_def returns_def)

lemma returns_fields [simp]:
  "yState (returns i r y) = yState y" "yNext (returns i r y) = yNext y"
  "yArguments (returns i r y) = yArguments y" "yAnswers (returns i r y) = (yAnswers y)(i \<mapsto> r)"
  "yAdmitting (returns i r y) = yAdmitting y" "yBlocked (returns i r y) = yBlocked y"
  "yReserved (returns i r y) = yReserved y" "yPublishing (returns i r y) = yPublishing y"
  "yFinishing (returns i r y) = yFinishing y" "yAwaiting (returns i r y) = yAwaiting y"
  "yRing (returns i r y) = yRing y" "ySelected (returns i r y) = ySelected y"
  "yProcessor (returns i r y) = yProcessor y" "yStage (returns i r y) = yStage y"
  by (simp_all add: returns_def)

lemma releaseDisk_fields [simp]:
  "wsQueue (releaseDisk i s) = wsQueue s" "wsPartition (releaseDisk i s) = wsPartition s"
  "wsWorld (releaseDisk i s) = wsWorld s"
  "aqCompleted (wsRequests (releaseDisk i s) j) = aqCompleted (wsRequests s j)"
  "aqResultVal (wsRequests (releaseDisk i s) j) = aqResultVal (wsRequests s j)"
  "aqRecord (wsRequests (releaseDisk i s) j) = aqRecord (wsRequests s j)"
  "aqCharge (wsRequests (releaseDisk i s) j) = aqCharge (wsRequests s j)"
  by (auto simp: releaseDisk_def split: option.splits prod.splits)

definition callers :: "writerSystem \<Rightarrow> request_id multiset" where
  "callers y = yAdmitting y + image_mset fst (yBlocked y) + yReserved y + yPublishing y
     + image_mset fst (yFinishing y) + yAwaiting y"

definition callers_inv :: "writerSystem \<Rightarrow> bool" where
  "callers_inv y \<longleftrightarrow> callers y = mset_set {i. i < yNext y \<and> yAnswers y i = None}"

lemma mset_set_remove:
  assumes "add_mset i C = mset_set S" and "finite S"
  shows "C = mset_set (S - {i})"
proof -
  have "i \<in> S" using assms by (metis union_single_eq_member finite_set_mset_mset_set)
  then show ?thesis using assms mset_set.remove [of S i] by simp
qed

lemma callers_returns:
  assumes "callers_inv y" and "callers y = add_mset i (callers z)" and "yNext z = yNext y"
    and "yAnswers z = (yAnswers y)(i \<mapsto> r)"
  shows "callers_inv z"
proof -
  have "callers z = mset_set ({j. j < yNext y \<and> yAnswers y j = None} - {i})"
    using assms(1,2) by (intro mset_set_remove) (simp_all add: callers_inv_def)
  moreover have "{j. j < yNext y \<and> yAnswers y j = None} - {i} = {j. j < yNext z \<and> yAnswers z j = None}"
    using assms(3,4) by auto
  ultimately show ?thesis by (simp add: callers_inv_def)
qed

lemma callers_moved:
  assumes "callers_inv y" and "callers z = callers y" and "yNext z = yNext y" and "yAnswers z = yAnswers y"
  shows "callers_inv z"
  using assms by (simp add: callers_inv_def)

lemma work_callers: "work l y z \<Longrightarrow> callers_inv y \<Longrightarrow> callers_inv z"
  by (induction rule: work.induct)
    (erule callers_moved callers_returns, simp add: callers_def, simp, simp)+

lemma outside_callers: "outside y z \<Longrightarrow> callers_inv y \<Longrightarrow> callers_inv z"
proof (induction rule: outside.induct)
  case (append_begins y outcome a r l)
  have "{i. i < yNext y + 1 \<and> ((yAnswers y)(yNext y := None)) i = None}
      = insert (yNext y) {i. i < yNext y \<and> yAnswers y i = None}" by auto
  then show ?case using append_begins by (simp add: callers_inv_def callers_def)
qed (erule callers_moved, simp add: callers_def, simp, simp)+

section \<open>Requests before their answer\<close>

definition live :: "writerSystem \<Rightarrow> request_id multiset" where
  "live y = yReserved y + yPublishing y + mset (yRing y) + mset (ySelected y)"

definition unanswered :: "writerSystem \<Rightarrow> request_id multiset" where
  "unanswered y = yAdmitting y + image_mset fst (yBlocked y) + live y"

definition requests_inv :: "writerSystem \<Rightarrow> bool" where
  "requests_inv y \<longleftrightarrow>
     (\<forall>i. count (unanswered y) i \<le> 1)
     \<and> (\<forall>i \<in># unanswered y. i < yNext y \<and> \<not> aqCompleted (request y i))"

lemma requests_shrink:
  assumes "requests_inv y" and "unanswered z \<subseteq># unanswered y" and "yNext y \<le> yNext z"
    and "\<And>i. i \<in># unanswered z \<Longrightarrow> aqCompleted (request z i) = aqCompleted (request y i)"
  shows "requests_inv z"
  unfolding requests_inv_def
proof (intro conjI allI ballI)
  fix i show "count (unanswered z) i \<le> 1"
    using assms(1) mset_subset_eq_count [OF assms(2), of i] unfolding requests_inv_def by (meson le_trans)
next
  fix i assume i: "i \<in># unanswered z"
  then have "i \<in># unanswered y" by (rule mset_subset_eqD [OF assms(2)])
  then have "i < yNext y" "\<not> aqCompleted (request y i)" using assms(1) by (simp_all add: requests_inv_def)
  then show "i < yNext z" "\<not> aqCompleted (request z i)" using assms(3) assms(4) [OF i] by simp_all
qed

lemma requests_answered:
  assumes "requests_inv y" and "answers ids s (yState z)" and "wsRequests s = request y"
    and "unanswered y = mset ids + unanswered z" and "yNext z = yNext y"
  shows "requests_inv z"
proof (rule requests_shrink [OF assms(1)])
  fix i assume i: "i \<in># unanswered z"
  have "i \<notin> set ids"
  proof
    assume "i \<in> set ids"
    then have "0 < count (mset ids) i" "0 < count (unanswered z) i" using i by simp_all
    moreover have "count (mset ids) i + count (unanswered z) i \<le> 1"
      using assms(1,4) by (metis count_union requests_inv_def)
    ultimately show False by linarith
  qed
  then show "aqCompleted (request z i) = aqCompleted (request y i)" using assms(2,3) by (simp add: answers_def)
qed (simp_all add: assms(4,5))

section \<open>The counters\<close>

definition charge_sum :: "writerSystem \<Rightarrow> nat" where
  "charge_sum y = (\<Sum>i \<in># live y. unat (aqCharge (request y i)))"

definition counts_inv :: "writerSystem \<Rightarrow> bool" where
  "counts_inv y \<longleftrightarrow>
     unat (wqAdmittedRecords (queue y)) = size (live y)
     \<and> unat (wqAdmittedBytes (queue y)) = charge_sum y
     \<and> unat (wqPublicationCredits (queue y)) = size (yReserved y) + size (yPublishing y) + length (yRing y)
     \<and> unat (wqPublishing (queue y)) = size (yPublishing y) + size (yFinishing y)
     \<and> unat (wqWaiting (queue y)) = size (yBlocked y)
     \<and> wqAdmittedRecords (queue y) \<le> oInFlightRecords (pOptions (partition_of y))
     \<and> wqAdmittedBytes (queue y) \<le> oInFlightBytes (pOptions (partition_of y))
     \<and> wqPublicationCredits (queue y) \<le> wqCapacity (queue y)
     \<and> wqWaiting (queue y) \<le> oAdmissionWaiters (pOptions (partition_of y))"

lemma counts_freed:
  assumes "counts_inv y" and "frees n b ((queue y)\<lparr>wqPublicationCredits := c\<rparr>) (queue z)"
    and "size (live y) = n + size (live z)" and "charge_sum y = b + charge_sum z"
    and "unat c = size (yReserved z) + size (yPublishing z) + length (yRing z)"
    and "unat c \<le> unat (wqPublicationCredits (queue y))"
    and "size (yPublishing z) + size (yFinishing z) = size (yPublishing y) + size (yFinishing y)"
    and "size (yBlocked z) = size (yBlocked y)" and "pOptions (partition_of z) = pOptions (partition_of y)"
  shows "counts_inv z"
  using assms by (auto simp: counts_inv_def frees_def word_le_nat_alt)

lemma charge_sum_add:
  assumes "live y = mset ids + live z" and "\<And>i. aqCharge (request z i) = aqCharge (request y i)"
  shows "charge_sum y = charges (yState y) ids + charge_sum z"
  using assms by (simp add: charge_sum_def charges_def sum_mset_sum_list [symmetric])

lemma pending_live:
  assumes "counts_inv y" and "requests_inv y" and "live y = mset ids + R"
  shows "pending ids (yState y)"
  unfolding pending_def
proof (intro conjI ballI)
  show "distinct ids"
    unfolding distinct_count_atmost_1
  proof
    fix i
    have "count (mset ids) i \<le> 1"
      using assms(2,3) unfolding requests_inv_def unanswered_def by (metis add_leE count_union)
    then show "count (mset ids) i = (if i \<in> set ids then 1 else 0)"
      by (cases "i \<in> set ids") (auto simp: le_Suc_eq count_mset_0_iff)
  qed
  fix i assume "i \<in> set ids"
  then have "i \<in># unanswered y" using assms(3) by (simp add: unanswered_def)
  then show "\<not> aqCompleted (request y i)" using assms(2) by (simp add: requests_inv_def)
next
  show "length ids \<le> unat (wqAdmittedRecords (queue y))" using assms(1,3) by (simp add: counts_inv_def)
  have "charge_sum y = charges (yState y) ids + (\<Sum>i \<in># R. unat (aqCharge (request y i)))"
    using assms(3) by (simp add: charge_sum_def charges_def sum_mset_sum_list [symmetric])
  then show "charges (yState y) ids \<le> unat (wqAdmittedBytes (queue y))" using assms(1) by (simp add: counts_inv_def)
qed

section \<open>Steps of the counters\<close>

lemma admit_Admitted:
  assumes "admit closing options r q = (Admitted, q')"
  shows "q' = q\<lparr>wqAdmittedBytes := wqAdmittedBytes q + aqCharge r, wqAdmittedRecords := wqAdmittedRecords q + 1,
      wqPublicationCredits := wqPublicationCredits q + 1\<rparr>"
    and "unat (wqAdmittedRecords q + 1) = unat (wqAdmittedRecords q) + 1"
    and "wqAdmittedRecords q + 1 \<le> oInFlightRecords options"
    and "unat (wqAdmittedBytes q + aqCharge r) = unat (wqAdmittedBytes q) + unat (aqCharge r)"
    and "wqAdmittedBytes q + aqCharge r \<le> oInFlightBytes options"
    and "unat (wqPublicationCredits q + 1) = unat (wqPublicationCredits q) + 1"
    and "wqPublicationCredits q + 1 \<le> wqCapacity q" and "\<not> wqQueueClosing q"
proof -
  have a: "wqAdmittedRecords q < oInFlightRecords options" "aqCharge r \<le> oInFlightBytes options"
    "wqAdmittedBytes q \<le> oInFlightBytes options - aqCharge r" "wqPublicationCredits q < wqCapacity q"
    "q' = q\<lparr>wqAdmittedBytes := wqAdmittedBytes q + aqCharge r, wqAdmittedRecords := wqAdmittedRecords q + 1,
      wqPublicationCredits := wqPublicationCredits q + 1\<rparr>" "\<not> wqQueueClosing q"
    using assms by (auto simp: admit_def split: if_splits)
  then show "q' = q\<lparr>wqAdmittedBytes := wqAdmittedBytes q + aqCharge r, wqAdmittedRecords := wqAdmittedRecords q + 1,
      wqPublicationCredits := wqPublicationCredits q + 1\<rparr>" "\<not> wqQueueClosing q" by simp_all
  show r: "unat (wqAdmittedRecords q + 1) = unat (wqAdmittedRecords q) + 1"
    and c: "unat (wqPublicationCredits q + 1) = unat (wqPublicationCredits q) + 1"
    using a(1,4) unat_uint32_less [of "oInFlightRecords options"] unat_uint32_less [of "wqCapacity q"]
    by (simp_all add: word_less_nat_alt unat_word_ariths)
  show "wqAdmittedRecords q + 1 \<le> oInFlightRecords options" "wqPublicationCredits q + 1 \<le> wqCapacity q"
    using a(1,4) r c by (simp_all add: word_le_nat_alt word_less_nat_alt)
  have le: "unat (wqAdmittedBytes q) + unat (aqCharge r) \<le> unat (oInFlightBytes options)"
    using a(2,3) by (simp add: word_le_nat_alt unat_sub)
  then show b: "unat (wqAdmittedBytes q + aqCharge r) = unat (wqAdmittedBytes q) + unat (aqCharge r)"
    using unat_uint64_less [of "oInFlightBytes options"] by (simp add: unat_word_ariths)
  show "wqAdmittedBytes q + aqCharge r \<le> oInFlightBytes options" using le b by (simp add: word_le_nat_alt)
qed

lemma admit_Refused: "admit closing options r q = (AdmitRefused e, q') \<Longrightarrow> q' = q"
  by (auto simp: admit_def split: if_splits)

lemma admit_Wait:
  assumes "admit closing options r q = (AdmitWait g, q')"
  shows "q' = q\<lparr>wqWaiting := wqWaiting q + 1\<rparr>" and "unat (wqWaiting q + 1) = unat (wqWaiting q) + 1"
    and "wqWaiting q + 1 \<le> oAdmissionWaiters options" and "\<not> wqQueueClosing q" and "g = wqSpaceWake q"
proof -
  have a: "wqWaiting q < oAdmissionWaiters options" "q' = q\<lparr>wqWaiting := wqWaiting q + 1\<rparr>" "\<not> wqQueueClosing q"
    "g = wqSpaceWake q" using assms by (auto simp: admit_def split: if_splits)
  then show "q' = q\<lparr>wqWaiting := wqWaiting q + 1\<rparr>" "\<not> wqQueueClosing q" "g = wqSpaceWake q" by simp_all
  show u: "unat (wqWaiting q + 1) = unat (wqWaiting q) + 1"
    using a(1) unat_uint32_less [of "oAdmissionWaiters options"] by (simp add: word_less_nat_alt unat_word_ariths)
  show "wqWaiting q + 1 \<le> oAdmissionWaiters options" using a(1) u by (simp add: word_le_nat_alt word_less_nat_alt)
qed

lemma releaseReservation_frees:
  assumes "aqCharge r \<le> wqAdmittedBytes q" and "0 < unat (wqAdmittedRecords q)" and "0 < unat (wqPublicationCredits q)"
  shows "frees 1 (unat (aqCharge r)) (q\<lparr>wqPublicationCredits := wqPublicationCredits q - 1\<rparr>)
    (releaseReservationLocked r q)"
  unfolding releaseReservationLocked_def releasePublication_credits [OF assms(3)]
  using assms by (intro releaseAdmission_frees) simp_all

lemma enqueueBegin_Inl: "enqueueBegin r q = (Inl e, q') \<Longrightarrow> q' = releaseReservationLocked r q"
  by (auto simp: enqueueBegin_def split: if_splits)

lemma enqueueBegin_Inr:
  "enqueueBegin r q = (Inr (), q') \<longleftrightarrow> q' = q\<lparr>wqPublishing := wqPublishing q + 1\<rparr>
     \<and> \<not> wqQueueClosed q \<and> \<not> wqWriterUnavailable q \<and> \<not> wqQueueClosing q \<and> \<not> wqSealed q"
  by (auto simp: enqueueBegin_def split: if_splits)

lemma stopWaiting_unat:
  assumes "unat (wqWaiting q) = Suc n"
  shows "stopWaiting q = q\<lparr>wqWaiting := wqWaiting q - 1\<rparr>" and "unat (wqWaiting q - 1) = n"
  using assms word_pred [of "wqWaiting q"] by (simp_all add: stopWaiting_def word_less_nat_alt)

lemma finishPublisher_unat:
  assumes "unat (wqPublishing q) = Suc n"
  shows "finishPublisher q = (q\<lparr>wqPublishing := wqPublishing q - 1, wqPublisherWake := wqPublisherWake q + 1\<rparr>)"
    and "unat (wqPublishing q - 1) = n"
  using assms word_pred [of "wqPublishing q"]
  by (simp_all add: finishPublisher_def signalPublisherLocked_def word_less_nat_alt)

text \<open>Giving back the reservation of one request.\<close>

lemma counts_released:
  assumes c: "counts_inv y" and live: "live y = add_mset i (live z)"
    and q: "queue z = releaseReservationLocked (request y i) (queue y)"
    and charge: "\<And>j. aqCharge (request z j) = aqCharge (request y j)"
    and credit: "size (yReserved y) + size (yPublishing y) + length (yRing y)
      = Suc (size (yReserved z) + size (yPublishing z) + length (yRing z))"
    and rest: "size (yPublishing z) + size (yFinishing z) = size (yPublishing y) + size (yFinishing y)"
      "size (yBlocked z) = size (yBlocked y)" "pOptions (partition_of z) = pOptions (partition_of y)"
  shows "counts_inv z"
proof (rule counts_freed [OF c _ _ _ _ _ rest])
  have s: "charge_sum y = unat (aqCharge (request y i)) + charge_sum z"
    using live charge by (simp add: charge_sum_def)
  have pos: "aqCharge (request y i) \<le> wqAdmittedBytes (queue y)" "0 < unat (wqAdmittedRecords (queue y))"
    "0 < unat (wqPublicationCredits (queue y))"
    using c s live credit by (simp_all add: counts_inv_def word_le_nat_alt)
  show "frees 1 (unat (aqCharge (request y i))) ((queue y)\<lparr>wqPublicationCredits := wqPublicationCredits (queue y) - 1\<rparr>)
      (queue z)"
    unfolding q using pos by (rule releaseReservation_frees)
  show "size (live y) = 1 + size (live z)" using live by simp
  show "charge_sum y = unat (aqCharge (request y i)) + charge_sum z" by (rule s)
  show "unat (wqPublicationCredits (queue y) - 1) = size (yReserved z) + size (yPublishing z) + length (yRing z)"
    "unat (wqPublicationCredits (queue y) - 1) \<le> unat (wqPublicationCredits (queue y))"
    using c credit word_pred [OF pos(3)] by (simp_all add: counts_inv_def)
qed

text \<open>Changes that the counters do not see.\<close>

definition same_counters :: "writerQueue \<Rightarrow> writerQueue \<Rightarrow> bool" where
  "same_counters q q' \<longleftrightarrow>
     wqAdmittedRecords q' = wqAdmittedRecords q \<and> wqAdmittedBytes q' = wqAdmittedBytes q
     \<and> wqPublicationCredits q' = wqPublicationCredits q \<and> wqPublishing q' = wqPublishing q
     \<and> wqWaiting q' = wqWaiting q \<and> wqCapacity q' = wqCapacity q"

lemma frees_same: "frees 0 0 q q' \<Longrightarrow> same_counters q q'"
  by (simp add: frees_def same_counters_def word_unat_eq_iff)

lemma same_counters_refl [simp]: "same_counters q q"
  by (simp add: same_counters_def)

lemma counts_same:
  assumes "counts_inv y" and "live z = live y" and "\<And>j. aqCharge (request z j) = aqCharge (request y j)"
    and "same_counters (queue y) (queue z)"
    and "size (yReserved z) + size (yPublishing z) + length (yRing z)
      = size (yReserved y) + size (yPublishing y) + length (yRing y)"
    and "size (yPublishing z) + size (yFinishing z) = size (yPublishing y) + size (yFinishing y)"
    and "size (yBlocked z) = size (yBlocked y)" and "pOptions (partition_of z) = pOptions (partition_of y)"
  shows "counts_inv z"
proof -
  have "charge_sum z = charge_sum y" using assms(2,3) by (simp add: charge_sum_def)
  then show ?thesis using assms by (simp add: counts_inv_def same_counters_def)
qed

lemma counts_answered:
  assumes "counts_inv y" and "answers ids (set_credits c (yState y)) (yState z)" and "live y = mset ids + live z"
    and "unat c = size (yReserved z) + size (yPublishing z) + length (yRing z)"
    and "unat c \<le> unat (wqPublicationCredits (queue y))"
    and "size (yPublishing z) + size (yFinishing z) = size (yPublishing y) + size (yFinishing y)"
    and "size (yBlocked z) = size (yBlocked y)" and "pOptions (partition_of z) = pOptions (partition_of y)"
  shows "counts_inv z"
proof (rule counts_freed [OF assms(1) _ _ _ assms(4-8)])
  have ch: "aqCharge (request z i) = aqCharge (request y i)" for i using assms(2) by (simp add: answers_def)
  show "charge_sum y = charges (yState y) ids + charge_sum z" by (rule charge_sum_add [OF assms(3) ch])
  show "size (live y) = length ids + size (live z)" using assms(3) by simp
  have "charges (set_credits c (yState y)) ids = charges (yState y) ids" by (simp add: charges_def)
  then show "frees (length ids) (charges (yState y) ids) ((queue y)\<lparr>wqPublicationCredits := c\<rparr>) (queue z)"
    using assms(2) by (simp add: answers_def)
qed

section \<open>Every step keeps counters, requests and log\<close>

definition core_inv :: "uint64 \<Rightarrow> Record list \<Rightarrow> writerSystem \<Rightarrow> bool" where
  "core_inv start old y \<longleftrightarrow> requests_inv y \<and> counts_inv y \<and> sound start old (yState y)"

lemma sound_same:
  assumes "sound start old s" and "wsPartition s' = wsPartition s" and "wsWorld s' = wsWorld s"
    and "\<And>i. aqCompleted (wsRequests s' i) = aqCompleted (wsRequests s i)"
    and "\<And>i. aqResultVal (wsRequests s' i) = aqResultVal (wsRequests s i)"
    and "\<And>i. aqCompleted (wsRequests s i) \<Longrightarrow> aqRecord (wsRequests s' i) = aqRecord (wsRequests s i)"
  shows "sound start old s'"
  by (rule sound_frame [OF assms(1)]) (simp_all add: assms list_all2_refl)

text \<open>A call that leaves the places before publication gives its reservation back.\<close>

lemma core_released:
  assumes "core_inv start old y" and "live y = add_mset i (live z)" and "yAdmitting z = yAdmitting y"
    and "yBlocked z = yBlocked y" and "yNext z = yNext y"
    and "queue z = releaseReservationLocked (request y i) (queue y)"
    and "\<And>j. aqCharge (request z j) = aqCharge (request y j)"
    and "\<And>j. aqCompleted (request z j) = aqCompleted (request y j)"
    and "size (yReserved y) + size (yPublishing y) + length (yRing y)
      = Suc (size (yReserved z) + size (yPublishing z) + length (yRing z))"
    and "size (yPublishing z) + size (yFinishing z) = size (yPublishing y) + size (yFinishing y)"
    and "pOptions (partition_of z) = pOptions (partition_of y)" and "sound start old (yState z)"
  shows "core_inv start old z"
proof -
  have "counts_inv z"
    using assms by (intro counts_released [of y i z]) (simp_all add: core_inv_def)
  moreover have "requests_inv z"
    using assms by (intro requests_shrink [of y z]) (simp_all add: core_inv_def unanswered_def)
  ultimately show ?thesis using assms(12) by (simp add: core_inv_def)
qed

text \<open>Steps that change places only, and those that change nothing the invariant looks at.\<close>

lemma core_moved:
  assumes "core_inv start old y" and "unanswered z = unanswered y" and "yNext z = yNext y" and "counts_inv z"
    and "\<And>j. aqCompleted (request z j) = aqCompleted (request y j)" and "sound start old (yState z)"
  shows "core_inv start old z"
  using assms requests_shrink [of y z] by (simp add: core_inv_def)

lemma core_left:
  assumes "core_inv start old y" and "unanswered y = add_mset i (unanswered z)" and "yNext z = yNext y" and "counts_inv z"
    and "\<And>j. aqCompleted (request z j) = aqCompleted (request y j)" and "sound start old (yState z)"
  shows "core_inv start old z"
  using assms requests_shrink [of y z] by (simp add: core_inv_def)

lemma core_answered:
  assumes "core_inv start old y" and "handled ids start old (set_credits c (yState y)) (yState z)"
    and "live y = mset ids + live z" and "yAdmitting z = yAdmitting y" and "yBlocked z = yBlocked y" and "yNext z = yNext y"
    and "unat c = size (yReserved z) + size (yPublishing z) + length (yRing z)"
    and "unat c \<le> unat (wqPublicationCredits (queue y))"
    and "size (yPublishing z) + size (yFinishing z) = size (yPublishing y) + size (yFinishing y)"
  shows "core_inv start old z"
proof -
  obtain n where h: "answers ids (set_credits c (yState y)) (yState z)" "sound start old (yState z)"
    "same_partition n (partition_of y) (partition_of z)"
    using assms(2) by (auto simp: handled_def)
  have "counts_inv z"
    using assms h by (intro counts_answered [of y ids c z]) (simp_all add: core_inv_def same_partition_def)
  moreover have "unanswered y = mset ids + unanswered z"
    unfolding unanswered_def assms(3-5) by (simp add: ac_simps)
  then have "requests_inv z"
    using assms(1,6) by (intro requests_answered [OF _ h(1)]) (simp_all add: core_inv_def)
  ultimately show ?thesis using h(2) by (simp add: core_inv_def)
qed

lemma core_pending:
  assumes "core_inv start old y" and "live y = mset ids + R"
  shows "pending ids (yState y)" and "sound start old (yState y)"
  using assms pending_live by (auto simp: core_inv_def)

text \<open>\<open>processed ids start old y z\<close>: the processor has answered \<open>ids\<close> and taken them off the ring or its group.\<close>

definition processed :: "request_id list \<Rightarrow> uint64 \<Rightarrow> Record list \<Rightarrow> writerSystem \<Rightarrow> writerSystem \<Rightarrow> bool" where
  "processed ids start old y z \<longleftrightarrow>
     (\<exists>c. handled ids start old (set_credits c (yState y)) (yState z)
        \<and> unat c = size (yReserved y) + size (yPublishing y) + length (yRing z)
        \<and> unat c \<le> unat (wqPublicationCredits (queue y)))
     \<and> mset (yRing y) + mset (ySelected y) = mset ids + mset (yRing z) + mset (ySelected z)
     \<and> yNext z = yNext y \<and> yArguments z = yArguments y \<and> yAnswers z = yAnswers y \<and> yAdmitting z = yAdmitting y
     \<and> yBlocked z = yBlocked y \<and> yReserved z = yReserved y \<and> yPublishing z = yPublishing y
     \<and> yFinishing z = yFinishing y \<and> yAwaiting z = yAwaiting y"

lemma core_processed:
  assumes core: "core_inv start old y" and "processed ids start old y z"
  shows "core_inv start old z"
proof -
  obtain c where c: "handled ids start old (set_credits c (yState y)) (yState z)"
    "unat c = size (yReserved y) + size (yPublishing y) + length (yRing z)"
    "unat c \<le> unat (wqPublicationCredits (queue y))"
    and m: "mset (yRing y) + mset (ySelected y) = mset ids + mset (yRing z) + mset (ySelected z)"
    and z: "yAdmitting z = yAdmitting y" "yBlocked z = yBlocked y" "yNext z = yNext y" "yReserved z = yReserved y"
      "yPublishing z = yPublishing y" "yFinishing z = yFinishing y"
    using assms(2) by (auto simp: processed_def)
  have "live y = yReserved y + yPublishing y + (mset ids + mset (yRing z) + mset (ySelected z))"
    unfolding live_def m [symmetric] by (simp add: ac_simps)
  then have "live y = mset ids + live z" by (simp add: live_def z ac_simps)
  then show ?thesis
    by (intro core_answered [OF core c(1)]) (use c(2,3) z in simp_all)
qed

lemma handle_processed:
  assumes core: "core_inv start old y" and ring: "yRing y = i # rest" and ch: "\<forall>k. choice_ok (choices k)"
    and run: "Handle choices i endOfBatch (ySelected y) (yState y) = (sel, s)"
  shows "\<exists>ids. processed ids start old y (y\<lparr>yState := s, yRing := rest, ySelected := sel\<rparr>)"
proof -
  let ?c = "wqPublicationCredits (queue y)" and ?ids = "ySelected y @ [i]"
  let ?s = "set_credits (?c - 1) (yState y)" and ?z = "y\<lparr>yState := s, yRing := rest, ySelected := sel\<rparr>"
  have pos: "0 < unat ?c" using core ring by (simp add: core_inv_def counts_inv_def)
  have c: "unat (?c - 1) = size (yReserved y) + size (yPublishing y) + length rest" "unat (?c - 1) \<le> unat ?c"
    using word_pred [OF pos] core ring by (simp_all add: core_inv_def counts_inv_def)
  have live: "live y = mset ?ids + (yReserved y + yPublishing y + mset rest)"
    using ring by (simp add: live_def ac_simps)
  have pend: "pending ?ids ?s" and snd: "sound start old ?s"
    using core_pending [OF core live] by (simp_all add: pending_credits)
  have s: "s = (if endOfBatch then writeIngressBatches choices ?ids ?s else ?s)" "sel = (if endOfBatch then [] else ?ids)"
    using run releasePublication_credits [OF pos] by (auto simp: Handle_def Let_def split: if_splits)
  show ?thesis
  proof (cases endOfBatch)
    case True
    have "handled ?ids start old ?s s"
      using ingressLoop_handled [of "[]" ?ids] pend snd ch s(1) True by (simp add: writeIngressBatches_def)
    then have "processed ?ids start old y ?z"
      unfolding processed_def
      by (intro conjI exI [of _ "?c - 1"]) (use c ring s(2) True in simp_all)
    then show ?thesis by (rule exI)
  next
    case False
    have "handled [] start old ?s s" using handled_none [OF snd] s(1) False by simp
    then have "processed [] start old y ?z"
      unfolding processed_def
      by (intro conjI exI [of _ "?c - 1"]) (use c ring s(2) False in simp_all)
    then show ?thesis by (rule exI)
  qed
qed

lemma drain_processed:
  assumes core: "core_inv start old y"
    and z: "z = y\<lparr>yState := drainPending e (yRing y) (yState y), yRing := [], yProcessor := p, yStage := stage\<rparr>"
  shows "processed (yRing y) start old y z"
proof -
  let ?c = "wqPublicationCredits (queue y)"
  have live: "live y = mset (yRing y) + (yReserved y + yPublishing y + mset (ySelected y))" by (simp add: live_def ac_simps)
  have c: "unat ?c = size (yReserved y) + size (yPublishing y) + length (yRing y)"
    using core by (simp add: core_inv_def counts_inv_def)
  then have n: "unat (of_nat (length (yRing y)) :: uint32) = length (yRing y)"
    using unat_uint32_less [of ?c] by (simp add: unat_of_nat)
  then have "of_nat (length (yRing y)) \<le> ?c" using c by (simp add: word_le_nat_alt)
  then have u: "unat (?c - of_nat (length (yRing y))) = size (yReserved y) + size (yPublishing y)"
    using c n by (simp add: unat_sub)
  have "handled (yRing y) start old (set_credits (?c - of_nat (length (yRing y))) (yState y)) (drainPending e (yRing y) (yState y))"
    using core_pending [OF core live] c by (intro drainPending_handled) simp_all
  then show ?thesis
    unfolding processed_def
    by (intro conjI exI [of _ "?c - of_nat (length (yRing y))"]) (use c u z in simp_all)
qed

lemma core_inv_cong:
  assumes "core_inv start old y" and "yState z = yState y" and "yNext z = yNext y" and "yAdmitting z = yAdmitting y"
    and "yBlocked z = yBlocked y" and "yReserved z = yReserved y" and "yPublishing z = yPublishing y"
    and "yFinishing z = yFinishing y" and "yRing z = yRing y" and "ySelected z = ySelected y"
  shows "core_inv start old z"
proof -
  have "live z = live y" using assms by (simp add: live_def)
  then have "unanswered z = unanswered y" "charge_sum z = charge_sum y"
    using assms by (simp_all add: unanswered_def charge_sum_def)
  then show ?thesis using assms \<open>live z = live y\<close> by (simp add: core_inv_def requests_inv_def counts_inv_def)
qed

lemma core_state:
  assumes "core_inv start old y" and "sound start old s" and "same_counters (queue y) (wsQueue s)"
    and "pOptions (wsPartition s) = pOptions (partition_of y)"
    and "\<And>j. aqCharge (wsRequests s j) = aqCharge (request y j)"
    and "\<And>j. aqCompleted (wsRequests s j) = aqCompleted (request y j)"
  shows "core_inv start old (y\<lparr>yState := s\<rparr>)"
proof (rule core_moved [OF assms(1)])
  have c: "counts_inv y" using assms(1) by (simp add: core_inv_def)
  show "counts_inv (y\<lparr>yState := s\<rparr>)"
    by (rule counts_same [OF c]) (simp_all add: live_def assms(3-5))
qed (simp_all add: unanswered_def live_def assms(2,6))

lemma fence_sound:
  assumes "sound start old s"
  shows "sound start old (fence e s)"
proof (rule sound_frame [OF assms])
  show "list_all2 reindexed (pSegments (wsPartition s)) (pSegments (wsPartition (fence e s)))"
    by (simp add: fence_def markIngressUnavailable_def signalFetchWaitersLocked_def list_all2_refl)
qed (simp_all add: fence_state)

lemma fails_processed:
  assumes core: "core_inv start old y"
    and z: "z = y\<lparr>yState := fence e' (failPending e (ySelected y) (yState y)), ySelected := []\<rparr>"
  shows "processed (ySelected y) start old y z"
proof -
  have live: "live y = mset (ySelected y) + (yReserved y + yPublishing y + mset (yRing y))" by (simp add: live_def ac_simps)
  let ?c = "wqPublicationCredits (queue y)" and ?s = "failPending e (ySelected y) (yState y)"
  have h: "handled (ySelected y) start old (yState y) ?s"
    unfolding failPending_def using core_pending [OF core live] by (rule completeAll_handled)
  then have "sound start old (fence e' ?s)" by (intro fence_sound) (simp add: handled_def)
  then have "handled [] start old ?s (fence e' ?s)"
    using fence_answers [of ?s e'] fence_state(7) [of ?s e'] unfolding handled_def by blast
  from handled_trans [OF h this]
  have "handled (ySelected y) start old (set_credits ?c (yState y)) (yState z)" using z by simp
  moreover have "unat ?c = size (yReserved y) + size (yPublishing y) + length (yRing y)"
    using core by (simp add: core_inv_def counts_inv_def)
  ultimately show ?thesis
    unfolding processed_def by (intro conjI exI [of _ ?c]) (use z in simp_all)
qed

lemma fence_core:
  assumes "core_inv start old y"
  shows "core_inv start old (y\<lparr>yState := fence e (yState y)\<rparr>)"
proof (rule core_state [OF assms])
  show "sound start old (fence e (yState y))" using assms by (intro fence_sound) (simp add: core_inv_def)
  show "same_counters (queue y) (wsQueue (fence e (yState y)))"
    using fence_answers [of "yState y" e] by (intro frees_same) (simp add: answers_def charges_def)
  show "pOptions (wsPartition (fence e (yState y))) = pOptions (partition_of y)"
    using fence_state(7) [of "yState y" e] by (simp add: same_partition_def)
qed (simp_all add: fence_state)

lemma core_admit:
  assumes core: "core_inv start old y" and a: "yAdmitting y = add_mset i A"
    and run: "admit closing (pOptions (partition_of y)) (request y i) (queue y) = (Admitted, q)"
  shows "core_inv start old (set_queue q y\<lparr>yAdmitting := A, yReserved := add_mset i (yReserved y)\<rparr>)"
proof (rule core_moved [OF core])
  note q = admit_Admitted [OF run]
  show "counts_inv (set_queue q y\<lparr>yAdmitting := A, yReserved := add_mset i (yReserved y)\<rparr>)"
    using core q by (simp add: core_inv_def counts_inv_def live_def charge_sum_def)
qed (use core a in \<open>simp_all add: unanswered_def live_def core_inv_def\<close>)

lemma charge_sum_cong:
  "live z = live y \<Longrightarrow> (\<And>j. aqCharge (request z j) = aqCharge (request y j)) \<Longrightarrow> charge_sum z = charge_sum y"
  by (simp add: charge_sum_def)

lemma core_parts:
  assumes "core_inv start old y"
  shows "requests_inv y" and "counts_inv y" and "sound start old (yState y)"
  using assms by (simp_all add: core_inv_def)

lemma core_wait:
  assumes core: "core_inv start old y" and a: "yAdmitting y = add_mset i A"
    and run: "admit closing (pOptions (partition_of y)) (request y i) (queue y) = (AdmitWait g, q)"
  shows "core_inv start old (y\<lparr>yState := (yState y)\<lparr>wsQueue := q,
      wsRequests := (request y)(i := (request y i)\<lparr>aqWaited := True\<rparr>)\<rparr>,
      yAdmitting := A, yBlocked := add_mset (i, g) (yBlocked y)\<rparr>)"
proof (rule core_moved [OF core])
  note q = admit_Wait [OF run]
  let ?z = "y\<lparr>yState := (yState y)\<lparr>wsQueue := q, wsRequests := (request y)(i := (request y i)\<lparr>aqWaited := True\<rparr>)\<rparr>,
      yAdmitting := A, yBlocked := add_mset (i, g) (yBlocked y)\<rparr>"
  have "charge_sum ?z = charge_sum y"
    by (rule charge_sum_cong) (simp_all add: live_def)
  moreover have "live ?z = live y" by (simp add: live_def)
  ultimately show "counts_inv ?z"
    using core_parts(2) [OF core] q by (simp add: counts_inv_def)
  show "sound start old (yState ?z)" by (rule sound_same [OF core_parts(3) [OF core]]) simp_all
qed (use a in \<open>simp_all add: unanswered_def live_def\<close>)

lemma core_woken:
  assumes core: "core_inv start old y" and b: "yBlocked y = add_mset (i, g) B"
  shows "counts_inv (set_queue (stopWaiting (queue y)) y\<lparr>yBlocked := B, yAdmitting := A\<rparr>)"
    and "counts_inv (gives_up i e (set_queue (stopWaiting (queue y)) y\<lparr>yBlocked := B\<rparr>))"
proof -
  have c: "counts_inv y" by (rule core_parts(2) [OF core])
  have w: "unat (wqWaiting (queue y)) = Suc (size B)" using c b by (simp add: counts_inv_def)
  note q = stopWaiting_unat [OF w]
  have le: "wqWaiting (queue y) - 1 \<le> oAdmissionWaiters (pOptions (partition_of y))"
    using c w q(2) by (simp add: counts_inv_def word_le_nat_alt)
  show "counts_inv (set_queue (stopWaiting (queue y)) y\<lparr>yBlocked := B, yAdmitting := A\<rparr>)"
    using c q le by (simp add: counts_inv_def live_def charge_sum_def)
  show "counts_inv (gives_up i e (set_queue (stopWaiting (queue y)) y\<lparr>yBlocked := B\<rparr>))"
    using c q le by (simp add: counts_inv_def live_def charge_sum_def)
qed

lemma core_finished:
  assumes core: "core_inv start old y" and f: "yFinishing y = add_mset x F"
  shows "counts_inv (set_queue (finishPublisher (queue y)) y\<lparr>yFinishing := F, yAwaiting := W\<rparr>)"
    and "counts_inv (gives_up i e (set_queue (finishPublisher (queue y)) y\<lparr>yFinishing := F\<rparr>))"
proof -
  have c: "counts_inv y" by (rule core_parts(2) [OF core])
  have w: "unat (wqPublishing (queue y)) = Suc (size (yPublishing y) + size F)" using c f by (simp add: counts_inv_def)
  note q = finishPublisher_unat [OF w]
  show "counts_inv (set_queue (finishPublisher (queue y)) y\<lparr>yFinishing := F, yAwaiting := W\<rparr>)"
    using c q by (simp add: counts_inv_def live_def charge_sum_def)
  show "counts_inv (gives_up i e (set_queue (finishPublisher (queue y)) y\<lparr>yFinishing := F\<rparr>))"
    using c q by (simp add: counts_inv_def live_def charge_sum_def)
qed

lemma core_enqueued:
  assumes core: "core_inv start old y" and r: "yReserved y = add_mset i R"
    and run: "enqueueBegin (request y i) (queue y) = (Inr (), q)"
    and room: "size (yPublishing y) + size (yFinishing y) + 1 < 2 ^ 32"
  shows "core_inv start old (y\<lparr>yState := (yState y)\<lparr>wsQueue := q,
      wsRequests := (request y)(i := (request y i)\<lparr>aqRecord := rec\<rparr>)\<rparr>,
      yReserved := R, yPublishing := add_mset i (yPublishing y)\<rparr>)" (is "core_inv start old ?z")
proof (rule core_moved [OF core])
  have q: "q = (queue y)\<lparr>wqPublishing := wqPublishing (queue y) + 1\<rparr>" using run by (simp add: enqueueBegin_Inr)
  have c: "counts_inv y" by (rule core_parts(2) [OF core])
  have u: "unat (wqPublishing (queue y) + 1) = unat (wqPublishing (queue y)) + 1"
    using c room by (simp add: counts_inv_def unat_word_ariths)
  have live: "live ?z = live y" using r by (simp add: live_def)
  have "charge_sum ?z = charge_sum y"
    by (rule charge_sum_cong [OF live]) simp
  then show "counts_inv ?z" using c q u live r by (simp add: counts_inv_def)
  have "i \<in># unanswered y" using r by (simp add: unanswered_def live_def)
  then have "\<not> aqCompleted (request y i)" using core_parts(1) [OF core] by (simp add: requests_inv_def)
  then show "sound start old (yState ?z)" by (intro sound_same [OF core_parts(3) [OF core]]) auto
qed (use r in \<open>simp_all add: unanswered_def live_def\<close>)

lemma closeFence_fields:
  "wsQueue (closeFence s) = wsQueue s" "wsRequests (closeFence s) = wsRequests s"
  "pOptions (wsPartition (closeFence s)) = pOptions (wsPartition s)"
  "pClosed (wsPartition (closeFence s)) = pClosed (wsPartition s)"
  by (auto simp: closeFence_def Let_def signalFetchWaitersLocked_def split: prod.splits)

lemma closeFinish_fields:
  assumes "closeFinish ts s = (e, s')"
  shows "same_counters (wsQueue s) (wsQueue s')" and "wsRequests s' = wsRequests s"
    and "pOptions (wsPartition s') = pOptions (wsPartition s)" and "pClosed (wsPartition s')" and "wqQueueClosed (wsQueue s')"
    and "wqQueueClosing (wsQueue s') = wqQueueClosing (wsQueue s)" and "wqSealed (wsQueue s') = wqSealed (wsQueue s)"
    and "wqClosingSignal (wsQueue s') = wqClosingSignal (wsQueue s)"
    and "pTopic (wsPartition s') = pTopic (wsPartition s)" and "pPartition (wsPartition s') = pPartition (wsPartition s)"
  using assms by (auto simp: closeFinish_def Let_def signalFetchWaitersLocked_def same_counters_def
      split: prod.splits if_splits)

lemma waitCancelled_fields:
  assumes "waitCancelled e i s = (r, s')"
  shows "wsQueue s' = wsQueue s" and "wsPartition s' = wsPartition s" and "wsWorld s' = wsWorld s"
    and "aqCompleted (wsRequests s' j) = aqCompleted (wsRequests s j)"
    and "aqResultVal (wsRequests s' j) = aqResultVal (wsRequests s j)"
    and "aqRecord (wsRequests s' j) = aqRecord (wsRequests s j)"
    and "aqCharge (wsRequests s' j) = aqCharge (wsRequests s j)"
proof -
  have "s' = s \<or> s' = s\<lparr>wsRequests := (wsRequests s)(i := (wsRequests s i)\<lparr>aqAbandoned := True\<rparr>)\<rparr>"
    using assms by (auto simp: waitCancelled_def Let_def split: bool.splits option.splits)
  then show "wsQueue s' = wsQueue s" "wsPartition s' = wsPartition s" "wsWorld s' = wsWorld s"
    "aqCompleted (wsRequests s' j) = aqCompleted (wsRequests s j)"
    "aqResultVal (wsRequests s' j) = aqResultVal (wsRequests s j)"
    "aqRecord (wsRequests s' j) = aqRecord (wsRequests s j)" "aqCharge (wsRequests s' j) = aqCharge (wsRequests s j)"
    by (elim disjE; simp)+
qed

lemma publishFailed_fields:
  assumes "publishFailed err r (p, q) = (e, p', q')"
  shows "same_partition 0 p p'" and "pSegments p' = pSegments p" and "pClosed p' = pClosed p"
    and "frees n b q0 (releaseReservationLocked r q) \<Longrightarrow> frees n b q0 q'"
  using assms by (auto simp: publishFailed_def markIngressUnavailable_def signalFetchWaitersLocked_def signalQueueLocked_def
      signalSpaceLocked_def same_partition_def frees_def Let_def split: if_splits)

text \<open>What a caller gives up before publication.\<close>

lemma core_gave_up:
  assumes "core_inv start old y" and "yReserved y = add_mset i R" and "q = releaseReservationLocked (request y i) (queue y)"
  shows "core_inv start old (gives_up i e (set_queue q y\<lparr>yReserved := R\<rparr>))"
proof (rule core_released [OF assms(1)])
  show "live y = add_mset i (live (gives_up i e (set_queue q y\<lparr>yReserved := R\<rparr>)))"
    using assms(2) by (simp add: live_def)
  show "sound start old (yState (gives_up i e (set_queue q y\<lparr>yReserved := R\<rparr>)))"
    by (rule sound_same [OF core_parts(3) [OF assms(1)]]) simp_all
qed (use assms(2,3) in simp_all)

lemma core_publish_failed:
  assumes core: "core_inv start old y" and pub: "yPublishing y = add_mset i P"
    and run: "publishFailed err (request y i) (partition_of y, queue y) = (e, p, q)"
  shows "core_inv start old (y\<lparr>yState := (yState y)\<lparr>wsPartition := p, wsQueue := q\<rparr>,
    yPublishing := P, yFinishing := add_mset (i, x) (yFinishing y)\<rparr>)" (is "core_inv start old ?z")
proof -
  let ?q = "releaseReservationLocked (request y i) (queue y)"
  let ?y = "set_queue ?q y\<lparr>yPublishing := P, yFinishing := add_mset (i, x) (yFinishing y)\<rparr>"
  note f = publishFailed_fields [OF run]
  have "core_inv start old ?y"
  proof (rule core_released [OF core])
    show "live y = add_mset i (live ?y)" using pub by (simp add: live_def)
  qed (use pub core_parts(3) [OF core] in simp_all)
  moreover have "sound start old ((yState y)\<lparr>wsPartition := p, wsQueue := q\<rparr>)"
    by (rule sound_frame [OF core_parts(3) [OF core]]) (use f in \<open>simp_all add: list_all2_refl\<close>)
  moreover have "same_counters ?q q" using f(4) [OF frees_refl] by (rule frees_same)
  ultimately have "core_inv start old (?y\<lparr>yState := (yState y)\<lparr>wsPartition := p, wsQueue := q\<rparr>\<rparr>)"
    using f(1) by (intro core_state) (simp_all add: same_partition_def)
  then show ?thesis by (rule core_inv_cong) simp_all
qed

lemma work_core:
  assumes "work l y z" and "core_inv start old y"
  shows "core_inv start old z"
  using assms
proof (induction rule: work.induct)
  case (admit_ok y i A q)
  show ?case by (rule core_admit [OF admit_ok(3,1,2)])
next
  case (admit_refused y i A e q)
  have q: "q = queue y" using admit_Refused admit_refused(2) by blast
  show ?case
    by (rule core_left [OF admit_refused(3), of i], simp_all add: unanswered_def live_def q admit_refused(1))
      (rule counts_same [OF core_parts(2) [OF admit_refused(3)]], simp_all add: live_def q,
       rule sound_same [OF core_parts(3) [OF admit_refused(3)]], simp_all)
next
  case (admit_wait y i A g q)
  show ?case by (rule core_wait [OF admit_wait(3,1,2)])
next
  case (wake_space y i g B)
  show ?case
    by (rule core_moved [OF wake_space(3) _ _ core_woken(1) [OF wake_space(3,1)]])
      (simp_all add: unanswered_def live_def wake_space(1) core_parts(3) [OF wake_space(3)])
next
  case (wake_context y i g B e)
  show ?case
    by (rule core_left [OF wake_context(3) _ _ core_woken(2) [OF wake_context(3,1)]])
      (simp_all add: unanswered_def live_def wake_context(1) sound_same [OF core_parts(3) [OF wake_context(3)]])
next
  case (wake_closing y i g B)
  show ?case
    by (rule core_left [OF wake_closing(3) _ _ core_woken(2) [OF wake_closing(3,1)]])
      (simp_all add: unanswered_def live_def wake_closing(1) sound_same [OF core_parts(3) [OF wake_closing(3)]])
next
  case (admitted_context y i R e)
  show ?case by (rule core_gave_up [OF admitted_context(3,1) refl])
next
  case (enqueue_ok y i R q now)
  show ?case by (rule core_enqueued [OF enqueue_ok(4,1-3)])
next
  case (enqueue_refused y i R e q)
  show ?case by (rule core_gave_up [OF enqueue_refused(3,1) enqueueBegin_Inl [OF enqueue_refused(2)]])
next
  case (publish_ok y i P)
  show ?case
    by (rule core_moved [OF publish_ok(2)], simp_all add: unanswered_def live_def publish_ok(1) core_parts(3) [OF publish_ok(2)])
      (rule counts_same [OF core_parts(2) [OF publish_ok(2)]], simp_all add: live_def publish_ok(1))
next
  case (publish_failed y i P err e p q)
  show ?case by (rule core_publish_failed [OF publish_failed(4,1,3)])
next
  case (finish_ok y i F)
  show ?case
    by (rule core_moved [OF finish_ok(2) _ _ core_finished(1) [OF finish_ok(2,1)]])
      (simp_all add: unanswered_def live_def core_parts(3) [OF finish_ok(2)])
next
  case (finish_failed y i e F)
  show ?case
    by (rule core_moved [OF finish_failed(2) _ _ core_finished(2) [OF finish_failed(2,1)]])
      (simp_all add: unanswered_def live_def sound_same [OF core_parts(3) [OF finish_failed(2)]])
next
  case (result y i W r)
  show ?case by (rule core_inv_cong [OF result(3)]) simp_all
next
  case (result_context y i W e r s)
  note w = waitCancelled_fields [OF result_context(3)]
  have "sound start old s" by (rule sound_same [OF core_parts(3) [OF result_context(4)]]) (simp_all add: w)
  then have "core_inv start old (y\<lparr>yState := s\<rparr>)" by (rule core_state [OF result_context(4)]) (simp_all add: w)
  then show ?case by (rule core_inv_cong) simp_all
next
  case (handle y i rest endOfBatch choices sel s)
  show ?case using handle_processed [OF handle(6,2,4,5)] core_processed [OF handle(6)] by auto
next
  case (processor_fails y e)
  let ?s = "fence (errorf e) (failPending e (ySelected y) (yState y))"
  have core: "core_inv start old (y\<lparr>yState := ?s, ySelected := []\<rparr>)"
    by (rule core_processed [OF processor_fails(2) fails_processed [OF processor_fails(2) refl]])
  then have "core_inv start old (y\<lparr>yState := ?s, ySelected := []\<rparr>
      \<lparr>yState := ?s\<lparr>wsQueue := (wsQueue ?s)\<lparr>wqSealed := True\<rparr>\<rparr>\<rparr>)"
    by (rule core_state) (use core_parts(3) [OF core] in \<open>simp_all add: same_counters_def\<close>)
  then show ?case by (rule core_inv_cong) simp_all
next
  case (failure_drain y e)
  have "processed (yRing y) start old y (y\<lparr>yState := drainPending e (yRing y) (yState y), yRing := [], yProcessor := ProcStopped\<rparr>)"
    by (rule drain_processed [OF failure_drain(3), where stage = "yStage y"]) simp
  then show ?case by (rule core_processed [OF failure_drain(3)])
next
  case (processor_stops y)
  show ?case by (rule core_inv_cong [OF processor_stops(4)]) simp_all
next
  case (close_fence y)
  have "core_inv start old (y\<lparr>yState := closeFence (yState y)\<rparr>)"
    by (rule core_state [OF close_fence(3) closeFence_sound [OF core_parts(3) [OF close_fence(3)]]])
      (simp_all add: closeFence_fields)
  then show ?case by (rule core_inv_cong) simp_all
next
  case (close_drain y)
  have "processed (yRing y) start old y (y\<lparr>yState := drainPending [ErrPartitionUnavailable] (yRing y) (yState y), yRing := [],
      yStage := CloseDrained\<rparr>)"
    by (rule drain_processed [OF close_drain(3), where p = "yProcessor y"]) simp
  then show ?case by (rule core_processed [OF close_drain(3)])
next
  case (close_finish y ts e s)
  have "core_inv start old (y\<lparr>yState := s\<rparr>)"
    by (rule core_state [OF close_finish(4) closeFinish_sound [OF core_parts(3) [OF close_finish(4)] close_finish(2,3)]])
      (simp_all add: closeFinish_fields [OF close_finish(3)])
  then show ?case by (rule core_inv_cong) simp_all
qed

section \<open>Published requests\<close>

definition copied :: "writerSystem \<Rightarrow> request_id \<Rightarrow> bool" where
  "copied y i \<longleftrightarrow> (\<exists>now. aqRecord (request y i) = copyRequest (partition_of y) now (yArguments y i))"

definition in_ring :: "writerSystem \<Rightarrow> request_id \<Rightarrow> bool" where
  "in_ring y i \<longleftrightarrow> i \<in> set (yRing y) \<or> i \<in> set (ySelected y)"

definition published_inv :: "writerSystem \<Rightarrow> bool" where
  "published_inv y \<longleftrightarrow>
     (\<forall>i. aqCompleted (request y i) \<longrightarrow> i < yNext y)
     \<and> (\<forall>i. aqCompleted (request y i) \<or> i \<in># yPublishing y \<or> in_ring y i \<longrightarrow> copied y i)
     \<and> (\<forall>i. (i, None) \<in># yFinishing y \<or> i \<in># yAwaiting y \<longrightarrow> aqCompleted (request y i) \<or> in_ring y i)
     \<and> (\<forall>i r. yAnswers y i = Some (Inr r) \<longrightarrow> aqResultVal (request y i) = Some (Inr r))"

lemma copied_cong:
  assumes "aqRecord (request z i) = aqRecord (request y i)" and "yArguments z i = yArguments y i"
    and "pTopic (partition_of z) = pTopic (partition_of y)" and "pPartition (partition_of z) = pPartition (partition_of y)"
  shows "copied z i = copied y i"
  using assms by (simp add: copied_def copyRequest_def)

lemma core_completed:
  assumes "core_inv start old y"
  shows "aqCompleted (request y i) \<longleftrightarrow> aqResultVal (request y i) \<noteq> None"
proof -
  obtain log where "acks old log (yState y)" using core_parts(3) [OF assms] unfolding sound_def by blast
  then show ?thesis by (simp add: acks_def)
qed

text \<open>Steps that complete nothing.\<close>

lemma published_step:
  assumes p: "published_inv y" and "yNext z = yNext y" and "yArguments z = yArguments y"
    and cp: "\<And>i. aqCompleted (request z i) = aqCompleted (request y i)"
    and "\<And>i. aqResultVal (request z i) = aqResultVal (request y i)"
    and "\<And>i. aqCompleted (request y i) \<or> i \<in># yPublishing y \<or> in_ring y i \<Longrightarrow>
      aqRecord (request z i) = aqRecord (request y i)"
    and "pTopic (partition_of z) = pTopic (partition_of y)" and "pPartition (partition_of z) = pPartition (partition_of y)"
    and "\<And>i. in_ring y i \<Longrightarrow> in_ring z i"
    and "\<And>i. i \<in># yPublishing z \<or> in_ring z i \<Longrightarrow> i \<in># yPublishing y \<or> in_ring y i \<or> copied z i"
    and "\<And>i. (i, None) \<in># yFinishing z \<or> i \<in># yAwaiting z \<Longrightarrow>
      (i, None) \<in># yFinishing y \<or> i \<in># yAwaiting y \<or> in_ring z i"
    and "\<And>i r. yAnswers z i = Some (Inr r) \<Longrightarrow> yAnswers y i = Some (Inr r) \<or> aqResultVal (request z i) = Some (Inr r)"
  shows "published_inv z"
proof -
  have "copied z i" if "aqCompleted (request z i) \<or> i \<in># yPublishing z \<or> in_ring z i" for i
  proof -
    have "(aqCompleted (request y i) \<or> i \<in># yPublishing y \<or> in_ring y i) \<or> copied z i"
      using that cp assms(10) by blast
    then show ?thesis
      using p copied_cong [of z i y] assms(3) assms(6) [of i] assms(7,8) unfolding published_inv_def by auto
  qed
  moreover have "aqCompleted (request z i) \<or> in_ring z i" if "(i, None) \<in># yFinishing z \<or> i \<in># yAwaiting z" for i
  proof -
    have "((i, None) \<in># yFinishing y \<or> i \<in># yAwaiting y) \<or> in_ring z i" using assms(11) [OF that] by blast
    then show ?thesis using p cp assms(9) unfolding published_inv_def by blast
  qed
  moreover have "aqResultVal (request z i) = Some (Inr r)" if "yAnswers z i = Some (Inr r)" for i r
    using assms(12) [OF that] assms(5) [of i] p unfolding published_inv_def by auto
  moreover have "i < yNext z" if "aqCompleted (request z i)" for i
    using that cp p assms(2) unfolding published_inv_def by simp
  ultimately show ?thesis unfolding published_inv_def by blast
qed

text \<open>A step that touches none of this, and a call that gives up before publication.\<close>

lemma published_same:
  assumes p: "published_inv y" and "yNext z = yNext y" and "yArguments z = yArguments y"
    and "\<And>i. aqCompleted (request z i) = aqCompleted (request y i)"
    and "\<And>i. aqResultVal (request z i) = aqResultVal (request y i)"
    and "\<And>i. aqRecord (request z i) = aqRecord (request y i)"
    and "pTopic (partition_of z) = pTopic (partition_of y)" and "pPartition (partition_of z) = pPartition (partition_of y)"
    and "yPublishing z \<subseteq># yPublishing y" and "yRing z = yRing y" and "ySelected z = ySelected y"
    and "\<And>i. (i, None) \<in># yFinishing z \<or> i \<in># yAwaiting z \<Longrightarrow> (i, None) \<in># yFinishing y \<or> i \<in># yAwaiting y"
    and "\<And>i r. yAnswers z i = Some (Inr r) \<Longrightarrow> yAnswers y i = Some (Inr r) \<or> aqResultVal (request z i) = Some (Inr r)"
  shows "published_inv z"
proof -
  have "in_ring z = in_ring y" using assms(10,11) by (auto simp: in_ring_def)
  moreover have "i \<in># yPublishing y" if "i \<in># yPublishing z" for i using assms(9) that by (rule mset_subset_eqD)
  ultimately show ?thesis
    by (intro published_step [OF p assms(2-5) _ assms(7,8) _ _ _ assms(13)]) (use assms(6,12) in auto)
qed

lemma processed_published:
  assumes core: "core_inv start old y" and pr: "processed ids start old y z" and p: "published_inv y"
  shows "published_inv z"
proof -
  obtain c n where ans: "answers ids (set_credits c (yState y)) (yState z)"
    and same: "same_partition n (partition_of y) (partition_of z)"
    and m: "mset (yRing y) + mset (ySelected y) = mset ids + mset (yRing z) + mset (ySelected z)"
    and z: "yNext z = yNext y" "yArguments z = yArguments y" "yAnswers z = yAnswers y"
      "yPublishing z = yPublishing y" "yFinishing z = yFinishing y" "yAwaiting z = yAwaiting y"
    using pr by (auto simp: processed_def handled_def)
  have ring: "in_ring y i \<longleftrightarrow> i \<in> set ids \<or> in_ring z i" for i
    using arg_cong [OF m, of set_mset] by (auto simp: in_ring_def)
  have new: "\<not> aqCompleted (request y i) \<and> i < yNext y" if "i \<in> set ids" for i
  proof -
    have "i \<in># unanswered y" using that ring [of i] by (auto simp: unanswered_def live_def in_ring_def)
    then show ?thesis using core_parts(1) [OF core] by (simp add: requests_inv_def)
  qed
  have cp: "aqCompleted (request z i) \<longleftrightarrow> aqCompleted (request y i) \<or> i \<in> set ids" for i
    using ans by (cases "i \<in> set ids") (simp_all add: answers_def)
  have copy: "copied z i = copied y i" for i
    using ans z(2) same by (intro copied_cong) (simp_all add: answers_def same_partition_def)
  have "aqResultVal (request z i) = Some (Inr r)" if "yAnswers z i = Some (Inr r)" for i r
  proof -
    have r: "aqResultVal (request y i) = Some (Inr r)" using p that z(3) by (simp add: published_inv_def)
    then have "i \<notin> set ids" using new core_completed [OF core] by force
    then show ?thesis using r ans by (simp add: answers_def)
  qed
  moreover have "i < yNext z" if "aqCompleted (request z i)" for i
    using that cp new p z(1) by (auto simp: published_inv_def)
  moreover have "copied z i" if "aqCompleted (request z i) \<or> i \<in># yPublishing z \<or> in_ring z i" for i
    using that copy cp ring p z(4) unfolding published_inv_def by auto
  moreover have "aqCompleted (request z i) \<or> in_ring z i" if "(i, None) \<in># yFinishing z \<or> i \<in># yAwaiting z" for i
    using that cp ring p z(5,6) unfolding published_inv_def by auto
  ultimately show ?thesis unfolding published_inv_def by blast
qed

lemma work_published:
  assumes "work l y z" and "core_inv start old y" and "published_inv y"
  shows "published_inv z"
  using assms
proof (induction rule: work.induct)
  case (enqueue_ok y i R q now)
  let ?z = "y\<lparr>yState := (yState y)\<lparr>wsQueue := q, wsRequests := (request y)(i := (request y i)\<lparr>aqRecord :=
      copyRequest (partition_of y) now (yArguments y i)\<rparr>)\<rparr>, yReserved := R, yPublishing := add_mset i (yPublishing y)\<rparr>"
  have i: "i \<in># yReserved y" using enqueue_ok(1) by simp
  then have "i \<in># unanswered y" by (simp add: unanswered_def live_def)
  then have "\<not> aqCompleted (request y i)" using core_parts(1) [OF enqueue_ok(4)] by (simp add: requests_inv_def)
  moreover have "count (unanswered y) i \<le> 1" using core_parts(1) [OF enqueue_ok(4)] by (simp add: requests_inv_def)
  then have "i \<notin># yPublishing y \<and> \<not> in_ring y i"
    using enqueue_ok(1) by (auto simp: unanswered_def live_def in_ring_def not_in_iff count_mset_0_iff)
  moreover have "copied ?z i" by (auto simp: copied_def)
  ultimately show ?case
    by (intro published_step [OF enqueue_ok(5)]) (auto simp: in_ring_def)
next
  case (publish_ok y i P)
  have "\<And>j. in_ring y j \<Longrightarrow> in_ring (y\<lparr>yPublishing := P, yRing := yRing y @ [i], yFinishing := F\<rparr>) j" for F
    by (auto simp: in_ring_def)
  then show ?case
    using publish_ok(1) by (intro published_step [OF publish_ok(3)]) (auto simp: in_ring_def)
next
  case (publish_failed y i P err e p q)
  show ?case
    by (rule published_same [OF publish_failed(5)])
      (use publishFailed_fields(1) [OF publish_failed(3)] publish_failed(1) in \<open>auto simp: same_partition_def\<close>)
next
  case (finish_ok y i F)
  show ?case by (rule published_same [OF finish_ok(3)]) (use finish_ok(1) in auto)
next
  case (finish_failed y i e F)
  show ?case by (rule published_same [OF finish_failed(3)]) (use finish_failed(1) in \<open>auto split: if_splits\<close>)
next
  case (result y i W r)
  show ?case by (rule published_same [OF result(4)]) (use result(1,2) in \<open>auto split: if_splits\<close>)
next
  case (result_context y i W e r s)
  have "r = Inr x \<Longrightarrow> aqResultVal (request y i) = Some (Inr x)" for x
    using result_context(3) by (auto simp: waitCancelled_def Let_def split: bool.splits option.splits)
  then show ?case
    by (intro published_same [OF result_context(5)])
      (use result_context(1) waitCancelled_fields [OF result_context(3)] in \<open>auto split: if_splits\<close>)
next
  case (handle y i rest endOfBatch choices sel s)
  show ?case
    using handle_processed [OF handle(6,2,4,5)] processed_published [OF handle(6) _ handle(7)] by auto
next
  case (processor_fails y e)
  have "published_inv (y\<lparr>yState := fence (errorf e) (failPending e (ySelected y) (yState y)), ySelected := []\<rparr>)"
    by (rule processed_published [OF processor_fails(2) fails_processed [OF processor_fails(2) refl] processor_fails(3)])
  then show ?case by (rule published_same) simp_all
next
  case (failure_drain y e)
  have "processed (yRing y) start old y (y\<lparr>yState := drainPending e (yRing y) (yState y), yRing := [], yProcessor := ProcStopped\<rparr>)"
    by (rule drain_processed [OF failure_drain(3), where stage = "yStage y"]) simp
  then show ?case by (rule processed_published [OF failure_drain(3) _ failure_drain(4)])
next
  case (close_drain y)
  have "processed (yRing y) start old y (y\<lparr>yState := drainPending [ErrPartitionUnavailable] (yRing y) (yState y), yRing := [],
      yStage := CloseDrained\<rparr>)"
    by (rule drain_processed [OF close_drain(3), where p = "yProcessor y"]) simp
  then show ?case by (rule processed_published [OF close_drain(3) _ close_drain(4)])
next
  case (close_fence y)
  have "pTopic (wsPartition (closeFence s)) = pTopic (wsPartition s)" "pPartition (wsPartition (closeFence s)) = pPartition (wsPartition s)" for s
    by (auto simp: closeFence_def Let_def signalFetchWaitersLocked_def split: prod.splits)
  then show ?case by (intro published_same [OF close_fence(4)]) (simp_all add: closeFence_fields)
next
  case (close_finish y ts e s)
  show ?case
    by (rule published_same [OF close_finish(5)]) (simp_all add: closeFinish_fields [OF close_finish(3)])
qed (erule published_same; simp split: if_splits)+

lemma prepareAppend_new:
  assumes "prepareAppend ctxErr closing outcome a p l = (Inr r, l')"
  shows "\<not> aqCompleted r" and "aqResultVal r = None"
  using assms by (auto simp: prepareAppend_def split: if_splits sum.splits prod.splits)

lemma outside_core:
  assumes "outside y z" and "core_inv start old y" and "published_inv y"
  shows "core_inv start old z"
  using assms
proof (induction rule: outside.induct)
  case (append_begins y outcome a r l)
  note r = prepareAppend_new [OF append_begins(1)] and core = core_parts [OF append_begins(2)]
  let ?s = "(yState y)\<lparr>wsLedger := l, wsRequests := (request y)(yNext y := r)\<rparr>"
  let ?z = "y\<lparr>yState := ?s, yNext := yNext y + 1, yArguments := (yArguments y)(yNext y := a),
      yAnswers := (yAnswers y)(yNext y := None), yAdmitting := add_mset (yNext y) (yAdmitting y)\<rparr>"
  have new: "\<not> aqCompleted (request y (yNext y))" using append_begins(3) by (auto simp: published_inv_def)
  then have "aqResultVal (request y (yNext y)) = None" using core_completed [OF append_begins(2)] by blast
  then have snd: "sound start old ?s" using new r by (intro sound_same [OF core(3)]) auto
  have out: "yNext y \<notin># unanswered y" using core(1) by (auto simp: requests_inv_def)
  have u: "unanswered ?z = add_mset (yNext y) (unanswered y)" and live: "live ?z = live y"
    by (simp_all add: unanswered_def live_def)
  have "requests_inv ?z"
    unfolding requests_inv_def u
  proof (intro conjI allI ballI)
    fix i show "count (add_mset (yNext y) (unanswered y)) i \<le> 1"
      using core(1) out by (auto simp: requests_inv_def not_in_iff)
    assume "i \<in># add_mset (yNext y) (unanswered y)"
    then show "i < yNext ?z" "\<not> aqCompleted (request ?z i)" using core(1) r(1) by (auto simp: requests_inv_def)
  qed
  moreover have "charge_sum ?z = charge_sum y"
    unfolding charge_sum_def live
  proof (rule arg_cong [of _ _ sum_mset], rule image_mset_cong)
    fix i assume "i \<in># live y"
    then have "i \<in># unanswered y" by (simp add: unanswered_def)
    then show "unat (aqCharge (request ?z i)) = unat (aqCharge (request y i))" using out by auto
  qed
  then have "counts_inv ?z" using core(2) live by (simp add: counts_inv_def)
  ultimately show ?case using snd by (simp add: core_inv_def)
next
  case (close_begins y)
  have "core_inv start old (set_queue (closeBegin (queue y)) y)"
    by (rule core_state [OF close_begins(3)])
      (simp_all add: core_parts(3) [OF close_begins(3)] closeBegin_def same_counters_def signalSpaceLocked_def signalQueueLocked_def)
  then show ?case by (rule core_inv_cong) simp_all
next
  case (store_closes y)
  show ?case by (rule core_inv_cong [OF store_closes(1)]) simp_all
next
  case (fenced y e)
  show ?case by (rule fence_core [OF fenced(1)])
next
  case (environment y w p f b l)
  let ?s = "(yState y)\<lparr>wsLedger := l, wsBudget := b, wsFiles := f, wsWorld := w, wsPartition := p\<rparr>"
  have "sound start old ?s"
    by (rule sound_frame [OF core_parts(3) [OF environment(5)]]) (use environment(1-3) in simp_all)
  then show ?case
    by (rule core_state [OF environment(5)]) (use environment(3) in \<open>simp_all add: same_partition_def\<close>)
qed

lemma outside_published:
  assumes "outside y z" and "core_inv start old y" and "published_inv y" and "callers_inv y"
  shows "published_inv z"
  using assms
proof (induction rule: outside.induct)
  case (append_begins y outcome a r l)
  note r = prepareAppend_new [OF append_begins(1)]
  let ?z = "y\<lparr>yState := (yState y)\<lparr>wsLedger := l, wsRequests := (request y)(yNext y := r)\<rparr>,
      yNext := yNext y + 1, yArguments := (yArguments y)(yNext y := a),
      yAnswers := (yAnswers y)(yNext y := None), yAdmitting := add_mset (yNext y) (yAdmitting y)\<rparr>"
  have old: "request ?z i = request y i" "yArguments ?z i = yArguments y i" "yAnswers ?z i = yAnswers y i"
    if "i \<noteq> yNext y" for i using that by simp_all
  have ring: "in_ring ?z i = in_ring y i" for i by (simp add: in_ring_def)
  have below: "i < yNext y" if "i \<in># yPublishing y \<or> in_ring y i" for i
  proof -
    have "i \<in># unanswered y" using that by (auto simp: unanswered_def live_def in_ring_def)
    then show ?thesis using core_parts(1) [OF append_begins(2)] by (simp add: requests_inv_def)
  qed
  have caller: "i < yNext y" if "(i, None) \<in># yFinishing y \<or> i \<in># yAwaiting y" for i
  proof -
    have "i \<in># callers y" using that by (force simp: callers_def)
    then show ?thesis using append_begins(4) by (simp add: callers_inv_def)
  qed
  have p: "\<And>i. aqCompleted (request y i) \<Longrightarrow> i < yNext y"
    "\<And>i. aqCompleted (request y i) \<or> i \<in># yPublishing y \<or> in_ring y i \<Longrightarrow> copied y i"
    "\<And>i. (i, None) \<in># yFinishing y \<or> i \<in># yAwaiting y \<Longrightarrow> aqCompleted (request y i) \<or> in_ring y i"
    "\<And>i r. yAnswers y i = Some (Inr r) \<Longrightarrow> aqResultVal (request y i) = Some (Inr r)"
    using append_begins(3) unfolding published_inv_def by blast+
  have cp: "copied ?z i = copied y i" if "i \<noteq> yNext y" for i
    using that by (intro copied_cong) simp_all
  show ?case
    unfolding published_inv_def
  proof (intro conjI allI impI)
    fix i
    show "i < yNext ?z" if "aqCompleted (request ?z i)"
      using that p(1) [of i] r(1) by (cases "i = yNext y") auto
    show "copied ?z i" if "aqCompleted (request ?z i) \<or> i \<in># yPublishing ?z \<or> in_ring ?z i"
    proof (cases "i = yNext y")
      case True
      then show ?thesis using that r(1) below [of i] ring by auto
    next
      case False
      then show ?thesis using that p(2) [of i] cp [OF False] ring by simp
    qed
    show "aqCompleted (request ?z i) \<or> in_ring ?z i" if "(i, None) \<in># yFinishing ?z \<or> i \<in># yAwaiting ?z"
      using that caller [of i] p(3) [of i] ring by auto
    show "aqResultVal (request ?z i) = Some (Inr x)" if "yAnswers ?z i = Some (Inr x)" for x
      using that p(4) [of i x] by (cases "i = yNext y") auto
  qed
next
  case (fenced y e)
  show ?case
    by (rule published_same [OF fenced(2)])
      (use fence_state(7) [of "yState y" e] in \<open>simp_all add: fence_state same_partition_def\<close>)
next
  case (environment y w p f b l)
  show ?case by (rule published_same [OF environment(6)]) (use environment(3) in \<open>simp_all add: same_partition_def\<close>)
qed (erule published_same; simp)+

section \<open>Closing in stages\<close>

definition flags :: "writerQueue \<Rightarrow> bool \<times> bool \<times> bool \<times> bool" where
  "flags q = (wqSealed q, wqClosingSignal q, wqQueueClosing q, wqQueueClosed q)"

lemma flags_counters [simp]:
  "flags (q\<lparr>wqAdmittedBytes := a\<rparr>) = flags q" "flags (q\<lparr>wqAdmittedRecords := b\<rparr>) = flags q"
  "flags (q\<lparr>wqPublicationCredits := b\<rparr>) = flags q" "flags (q\<lparr>wqPublishing := b\<rparr>) = flags q"
  "flags (q\<lparr>wqPublisherWake := n\<rparr>) = flags q" "flags (q\<lparr>wqWaiting := b\<rparr>) = flags q"
  "flags (q\<lparr>wqSpaceWake := n\<rparr>) = flags q"
  by (simp_all add: flags_def)

lemma flags_keep [simp]:
  "flags (stopWaiting q) = flags q" "flags (finishPublisher q) = flags q"
  "flags (releaseReservationLocked r q) = flags q"
  by (simp_all add: stopWaiting_def finishPublisher_def signalPublisherLocked_def releaseReservationLocked_def
      releaseAdmissionLocked_def releasePublicationLocked_def signalSpaceLocked_def Let_def)

lemma admit_flags: "admit closing options r q = (a, q') \<Longrightarrow> flags q' = flags q"
  by (auto simp: admit_def split: if_splits)

lemma frees_flags: "frees n b q q' \<Longrightarrow> flags q' = flags q"
  by (simp add: frees_def flags_def)

lemma processed_flags:
  assumes "processed ids start old y z"
  shows "flags (queue z) = flags (queue y)"
proof -
  obtain c where "frees (length ids) (charges (set_credits c (yState y)) ids) ((queue y)\<lparr>wqPublicationCredits := c\<rparr>) (queue z)"
    using assms by (auto simp: processed_def handled_def answers_def)
  from frees_flags [OF this] show ?thesis by simp
qed

definition stage_inv :: "writerSystem \<Rightarrow> bool" where
  "stage_inv y \<longleftrightarrow>
     (case flags (queue y) of (sealed, signalled, closing, closed) \<Rightarrow>
        closing = (yStage y \<noteq> CloseNone) \<and> (closing \<longrightarrow> sealed \<and> signalled)
        \<and> closed = (yStage y = CloseDone) \<and> (yProcessor y \<noteq> ProcRunning \<longrightarrow> sealed))
     \<and> (yStage y = CloseDone \<longrightarrow> pClosed (partition_of y))
     \<and> (yStage y \<in> {CloseFenced, CloseDrained, CloseDone} \<or> yProcessor y = ProcStopped
          \<longrightarrow> yPublishing y = {#} \<and> yFinishing y = {#})
     \<and> (yProcessor y \<noteq> ProcRunning \<longrightarrow> ySelected y = [])
     \<and> (yStage y \<in> {CloseDrained, CloseDone} \<longrightarrow> yProcessor y = ProcStopped \<and> yRing y = [])
     \<and> (ySelected y \<noteq> [] \<longrightarrow> yRing y \<noteq> [])"

lemma stage_same:
  assumes "stage_inv y" and "flags (queue z) = flags (queue y)" and "yStage z = yStage y" and "yProcessor z = yProcessor y"
    and "pClosed (partition_of z) = pClosed (partition_of y)" and "yPublishing y = {#} \<Longrightarrow> yPublishing z = {#}"
    and "yPublishing y = {#} \<and> yFinishing y = {#} \<Longrightarrow> yFinishing z = {#}" and "ySelected z = ySelected y"
    and "yRing z = yRing y \<or> yPublishing y \<noteq> {#} \<and> yRing z \<noteq> []"
  shows "stage_inv z"
proof -
  have p: "yStage y \<in> {CloseFenced, CloseDrained, CloseDone} \<or> yProcessor y = ProcStopped
      \<longrightarrow> yPublishing y = {#} \<and> yFinishing y = {#}"
    and r: "yStage y \<in> {CloseDrained, CloseDone} \<longrightarrow> yProcessor y = ProcStopped \<and> yRing y = []"
    and l: "ySelected y \<noteq> [] \<longrightarrow> yRing y \<noteq> []"
    using assms(1) unfolding stage_inv_def by - (elim conjE, assumption)+
  have "yStage y \<in> {CloseFenced, CloseDrained, CloseDone} \<or> yProcessor y = ProcStopped
      \<longrightarrow> yPublishing z = {#} \<and> yFinishing z = {#}" using p assms(6,7) by blast
  moreover have "yStage y \<in> {CloseDrained, CloseDone} \<longrightarrow> yProcessor y = ProcStopped \<and> yRing z = []"
    using p r assms(9) by auto
  moreover have "ySelected y \<noteq> [] \<longrightarrow> yRing z \<noteq> []" using l assms(9) by auto
  ultimately show ?thesis
    using assms(1) unfolding stage_inv_def assms(2-5,8) by (elim conjE) (intro conjI)
qed

lemma stage_unsealed:
  assumes "stage_inv y" and "\<not> wqSealed (queue y)"
  shows "yStage y = CloseNone" and "yProcessor y = ProcRunning"
  using conjunct1 [OF assms(1) [unfolded stage_inv_def]] assms(2) unfolding flags_def by auto

lemma no_publisher:
  assumes "core_inv start old y" and "wqPublishing (queue y) = 0"
  shows "yPublishing y = {#}" and "yFinishing y = {#}"
  using core_parts(2) [OF assms(1)] assms(2) by (simp_all add: counts_inv_def)

lemma work_stage:
  assumes "work l y z" and "core_inv start old y" and "stage_inv y"
  shows "stage_inv z"
  using assms
proof (induction rule: work.induct)
  case (enqueue_ok y i R q now)
  have q: "\<not> wqSealed (queue y)" "flags q = flags (queue y)" using enqueue_ok(2) by (simp_all add: enqueueBegin_Inr)
  note n = stage_unsealed [OF enqueue_ok(5) q(1)]
  show ?case using enqueue_ok(5) n q(2) by (simp add: stage_inv_def)
next
  case (enqueue_refused y i R e q)
  show ?case by (rule stage_same [OF enqueue_refused(4)]) (simp_all add: enqueueBegin_Inl [OF enqueue_refused(2)])
next
  case (publish_ok y i P)
  show ?case by (rule stage_same [OF publish_ok(3)]) (use publish_ok(1) in simp_all)
next
  case (publish_failed y i P err e p q)
  have "flags q = flags (queue y)"
    using frees_flags [OF publishFailed_fields(4) [OF publish_failed(3) frees_refl]] by simp
  then show ?case
    by (intro stage_same [OF publish_failed(5)])
      (use publish_failed(1) publishFailed_fields(3) [OF publish_failed(3)] in simp_all)
next
  case (handle y i rest endOfBatch choices sel s)
  obtain ids where "processed ids start old y (y\<lparr>yState := s, yRing := rest, ySelected := sel\<rparr>)"
    using handle_processed [OF handle(6,2,4,5)] by blast
  then have f: "flags (wsQueue s) = flags (queue y)" using processed_flags by fastforce
  have "sel = [] \<or> rest \<noteq> []" using handle(3,5) by (auto simp: Handle_def Let_def split: if_splits)
  then show ?case using handle(1,2,7) f by (auto simp: stage_inv_def split: prod.splits)
next
  case (processor_fails y e)
  let ?s = "fence (errorf e) (failPending e (ySelected y) (yState y))"
  have "flags (wsQueue ?s) = flags (queue y)"
    using processed_flags [OF fails_processed [OF processor_fails(2) refl]] by simp
  then show ?case using processor_fails(1,3) by (auto simp: stage_inv_def flags_def split: prod.splits)
next
  case (failure_drain y e)
  have "processed (yRing y) start old y (y\<lparr>yState := drainPending e (yRing y) (yState y), yRing := [], yProcessor := ProcStopped\<rparr>)"
    by (rule drain_processed [OF failure_drain(3), where stage = "yStage y"]) simp
  from processed_flags [OF this] show ?case
    using failure_drain(1,4) no_publisher [OF failure_drain(3,2)] by (auto simp: stage_inv_def split: prod.splits)
next
  case (processor_stops y)
  then show ?case by (auto simp: stage_inv_def split: prod.splits)
next
  case (close_fence y)
  then show ?case
    using no_publisher [OF close_fence(3,2)] by (auto simp: stage_inv_def closeFence_fields split: prod.splits)
next
  case (close_drain y)
  have "processed (yRing y) start old y (y\<lparr>yState := drainPending [ErrPartitionUnavailable] (yRing y) (yState y), yRing := [],
      yStage := CloseDrained\<rparr>)"
    by (rule drain_processed [OF close_drain(3), where p = "yProcessor y"]) simp
  from processed_flags [OF this] show ?case
    using close_drain(1,2,4) by (auto simp: stage_inv_def split: prod.splits)
next
  case (close_finish y ts e s)
  then show ?case
    using closeFinish_fields [OF close_finish(3)] by (auto simp: stage_inv_def flags_def split: prod.splits)
qed (erule stage_same; simp add: admit_flags waitCancelled_fields)+

lemma outside_stage:
  assumes "outside y z" and "stage_inv y"
  shows "stage_inv z"
  using assms
proof (induction rule: outside.induct)
  case (close_begins y)
  then show ?case
    by (auto simp: stage_inv_def flags_def closeBegin_def signalSpaceLocked_def signalQueueLocked_def split: prod.splits)
next
  case (fenced y e)
  have "flags (wsQueue (fence e (yState y))) = flags (queue y)"
    using fence_answers [of "yState y" e] frees_flags by (fastforce simp: answers_def)
  then show ?case by (intro stage_same [OF fenced(1)]) (simp_all add: fence_state)
qed (erule stage_same; simp)+

section \<open>Reachable states\<close>

definition system_inv :: "uint64 \<Rightarrow> Record list \<Rightarrow> writerSystem \<Rightarrow> bool" where
  "system_inv start old y \<longleftrightarrow> callers_inv y \<and> core_inv start old y \<and> published_inv y \<and> stage_inv y"

lemma step_inv:
  assumes "step y z" and "system_inv start old y"
  shows "system_inv start old z"
proof -
  have i: "callers_inv y" "core_inv start old y" "published_inv y" "stage_inv y"
    using assms(2) by (simp_all add: system_inv_def)
  show ?thesis
  proof (cases "\<exists>l. work l y z")
    case True
    then obtain l where w: "work l y z" by blast
    then show ?thesis
      unfolding system_inv_def
      by (intro conjI work_callers [OF w i(1)] work_core [OF w i(2)] work_published [OF w i(2,3)]
          work_stage [OF w i(2,4)])
  next
    case False
    then have o: "outside y z" using assms(1) by (simp add: step_def)
    show ?thesis
      unfolding system_inv_def
      by (intro conjI outside_callers [OF o i(1)] outside_core [OF o i(2,3)] outside_published [OF o i(2,3,1)]
          outside_stage [OF o i(4)])
  qed
qed

lemma started_inv:
  assumes "started y" and "partition_inv (wsWorld (yState y)) (partition_of y) css"
  shows "system_inv (log_start (partition_of y)) (log_of css) y"
proof -
  obtain n where q: "queue y = fresh_queue n" using assms(1) unfolding started_def by blast
  have s: "yNext y = 0" "yAdmitting y = {#}" "yBlocked y = {#}" "yReserved y = {#}" "yPublishing y = {#}" "yFinishing y = {#}"
    "yAwaiting y = {#}" "yRing y = []" "ySelected y = []" "yProcessor y = ProcRunning" "yStage y = CloseNone"
    "\<not> pUnavailable (partition_of y)" "options_ok (pOptions (partition_of y))" "yAnswers y = (\<lambda>_. None)"
    and r: "\<And>i. \<not> aqCompleted (request y i)" "\<And>i. aqResultVal (request y i) = None"
    using assms(1) by (simp_all add: started_def)
  have live: "live y = {#}" by (simp add: live_def s)
  then have u: "unanswered y = {#}" by (simp add: unanswered_def s)
  have "callers_inv y" by (simp add: callers_inv_def callers_def s)
  moreover have "requests_inv y" by (simp add: requests_inv_def u)
  moreover have "counts_inv y" by (simp add: counts_inv_def live s charge_sum_def q fresh_queue_def)
  moreover have "log_state (log_of css) (yState y)" using assms(2) s(12,13) by (auto simp: log_state_def)
  moreover have "acks (log_of css) (log_of css) (yState y)" by (simp add: acks_def r acked_def)
  moreover have "pLogEnd (partition_of y) = log_start (partition_of y) + of_nat (length (log_of css))"
    using image_end [OF assms(2)] by (simp add: log_start_def)
  ultimately show ?thesis
    unfolding system_inv_def core_inv_def sound_def
    by (intro conjI exI [of _ "log_of css"]) (simp_all add: published_inv_def stage_inv_def s r q fresh_queue_def flags_def in_ring_def)
qed

lemma reachable_inv:
  assumes "started y" and "partition_inv (wsWorld (yState y)) (partition_of y) css" and "step\<^sup>*\<^sup>* y z"
  shows "system_inv (log_start (partition_of y)) (log_of css) z"
  using assms(3) started_inv [OF assms(1,2)] by (induction rule: rtranclp_induct) (simp, rule step_inv)

text \<open>C3. The writer never holds more than its limits: in every reachable state the counters of admission
  count exactly the requests that are admitted and not answered, with their bytes; these stay within
  the configured records and bytes, the ring never has more requests than slots, and the callers that
  wait for admission stay within their limit.\<close>

theorem writer_within_limits:
  assumes "started y" and "step\<^sup>*\<^sup>* y z"
  shows "unat (wqAdmittedRecords (queue z)) = size (live z)
    \<and> unat (wqAdmittedBytes (queue z)) = (\<Sum>i \<in># live z. unat (aqCharge (request z i)))
    \<and> size (live z) \<le> unat (oInFlightRecords (pOptions (partition_of z)))
    \<and> (\<Sum>i \<in># live z. unat (aqCharge (request z i))) \<le> unat (oInFlightBytes (pOptions (partition_of z)))
    \<and> length (yRing z) \<le> unat (wqCapacity (queue z))
    \<and> size (yBlocked z) \<le> unat (oAdmissionWaiters (pOptions (partition_of z)))"
proof -
  obtain css where "partition_inv (wsWorld (yState y)) (partition_of y) css" using assms(1) unfolding started_def by blast
  from core_parts(2) [OF conjunct1 [OF conjunct2 [OF reachable_inv [OF assms(1) this assms(2), unfolded system_inv_def]]]]
  show ?thesis by (simp add: counts_inv_def charge_sum_def word_le_nat_alt)
qed

lemma distinct_offsets:
  assumes "numbered off log" and "length log < 2 ^ 64" and "j < length log" and "k < length log"
    and "rOffset (log ! j) = rOffset (log ! k)"
  shows "j = k"
proof -
  have "(of_nat j :: uint64) = of_nat k" using assms by (simp add: numbered_def)
  then have "unat (of_nat j :: uint64) = unat (of_nat k :: uint64)" by simp
  then show ?thesis using assms(2-4) by (simp add: unat_of_nat)
qed


section \<open>Closing ends\<close>

text \<open>The work that is left: every step of a part brings a call or a request nearer to its end.\<close>

definition work_left :: "writerSystem \<Rightarrow> nat" where
  "work_left y =
     8 * size (yBlocked y) + 7 * size (yAdmitting y) + 6 * size (yReserved y) + 5 * size (yPublishing y)
     + 2 * size (yFinishing y) + size (yAwaiting y) + 2 * length (yRing y) + length (ySelected y)
     + (case yProcessor y of ProcRunning \<Rightarrow> 2 | ProcFailed _ \<Rightarrow> 1 | ProcStopped \<Rightarrow> 0)
     + (case yStage y of CloseNone \<Rightarrow> 4 | CloseBegun \<Rightarrow> 3 | CloseFenced \<Rightarrow> 2 | CloseDrained \<Rightarrow> 1 | CloseDone \<Rightarrow> 0)"

lemma Handle_lengths:
  "Handle choices i endOfBatch sel s = (sel', s') \<Longrightarrow> length sel' \<le> Suc (length sel)"
  by (auto simp: Handle_def Let_def split: if_splits)

lemma work_decreases:
  assumes "work l y z" and "stage_inv y" and "yStage y \<noteq> CloseNone"
  shows "work_left z < work_left y" and "yStage z \<noteq> CloseNone"
proof -
  have closing: "wqQueueClosing (queue y)"
    using conjunct1 [OF assms(2) [unfolded stage_inv_def]] assms(3) by (simp add: flags_def)
  show "work_left z < work_left y"
    using assms(1,3) closing
  proof (cases rule: work.cases)
    case (admit_ok i A q)
    then show ?thesis using admit_Admitted(8) [OF admit_ok(4)] closing by simp
  next
    case (admit_wait i A g q)
    then show ?thesis using admit_Wait(4) [OF admit_wait(4)] closing by simp
  next
    case (handle i rest endOfBatch choices sel s)
    then show ?thesis using Handle_lengths [OF handle(7)] by (simp add: work_left_def)
  qed (simp_all add: work_left_def)
  show "yStage z \<noteq> CloseNone" using assms(1,3) by (cases rule: work.cases) simp_all
qed

text \<open>A part can always go on, until the writer is closed and every call has its answer.\<close>

definition quiet_system :: "writerSystem \<Rightarrow> bool" where
  "quiet_system y \<longleftrightarrow>
     yStage y = CloseDone \<and> yProcessor y = ProcStopped \<and> yRing y = [] \<and> ySelected y = []
     \<and> wqQueueClosed (queue y) \<and> pClosed (partition_of y)
     \<and> wqAdmittedRecords (queue y) = 0 \<and> wqAdmittedBytes (queue y) = 0 \<and> wqPublicationCredits (queue y) = 0
     \<and> (\<forall>i < yNext y. yAnswers y i \<noteq> None)"

lemma callers_go_on:
  assumes "stage_inv y" and "yStage y \<noteq> CloseNone" and stuck: "\<nexists>z. work Normal y z"
  shows "yAdmitting y = {#}" and "yBlocked y = {#}" and "yReserved y = {#}" and "yPublishing y = {#}" and "yFinishing y = {#}"
proof -
  have fl: "wqQueueClosing (queue y)" "wqClosingSignal (queue y)"
    using conjunct1 [OF assms(1) [unfolded stage_inv_def]] assms(2) by (simp_all add: flags_def)
  have member: "\<exists>x N. M = add_mset x N" if "M \<noteq> {#}" for M :: "'c multiset" using that by (cases M) auto
  show "yAdmitting y = {#}"
  proof (rule ccontr)
    assume "yAdmitting y \<noteq> {#}"
    then obtain i A where a: "yAdmitting y = add_mset i A" using member by blast
    obtain r q where "admit (yStoreClosing y) (pOptions (partition_of y)) (request y i) (queue y) = (r, q)" by fastforce
    then show False using stuck work.intros(1-3) [OF a] by (cases r) auto
  qed
  show "yBlocked y = {#}"
  proof (rule ccontr)
    assume "yBlocked y \<noteq> {#}"
    then obtain i g B where "yBlocked y = add_mset (i, g) B" using member by (metis surj_pair)
    then show False using stuck wake_closing fl(2) by blast
  qed
  show "yReserved y = {#}"
  proof (rule ccontr)
    assume "yReserved y \<noteq> {#}"
    then obtain i R where r: "yReserved y = add_mset i R" using member by blast
    have "\<exists>e q. enqueueBegin (request y i) (queue y) = (Inl e, q)" using fl(1) by (simp add: enqueueBegin_def)
    then show False using stuck enqueue_refused [OF r] by blast
  qed
  show "yPublishing y = {#}"
  proof (rule ccontr)
    assume "yPublishing y \<noteq> {#}"
    then obtain i P where "yPublishing y = add_mset i P" using member by blast
    then show False using stuck publish_ok by blast
  qed
  show "yFinishing y = {#}"
  proof (rule ccontr)
    assume "yFinishing y \<noteq> {#}"
    then obtain i e F where "yFinishing y = add_mset (i, e) F" using member by (metis surj_pair)
    then show False using stuck finish_ok finish_failed by (cases e) blast+
  qed
qed

lemma processor_goes_on:
  assumes "core_inv start old y" and "stage_inv y" and "yStage y \<noteq> CloseNone" and stuck: "\<nexists>z. work Normal y z"
  shows "yStage y = CloseDone"
proof -
  note none = callers_go_on [OF assms(2-4)]
  have pub: "wqPublishing (queue y) = 0"
    using core_parts(2) [OF assms(1)] none by (simp add: counts_inv_def unat_eq_0)
  have begun: "yStage y \<noteq> CloseBegun" using stuck close_fence pub by blast
  have failed: "yProcessor y \<noteq> ProcFailed e" for e using stuck failure_drain pub by blast
  have running: "yProcessor y \<noteq> ProcRunning" if fenced: "yStage y = CloseFenced"
  proof
    assume r: "yProcessor y = ProcRunning"
    show False
    proof (cases "yRing y")
      case Nil
      then have "ySelected y = []" using assms(2) by (simp add: stage_inv_def)
      then show False using stuck processor_stops [OF r _ fenced] by blast
    next
      case (Cons i rest)
      let ?choices = "\<lambda>_ :: nat. \<lparr>wcRandom = 0, wcTemporaries = ([0x70], [0x70]), wcTailLocked = False, wcBudgetLocked = False\<rparr>"
      obtain sel s where "Handle ?choices i True (ySelected y) (yState y) = (sel, s)" by fastforce
      then show False using stuck handle [OF r Cons, of True ?choices] by (simp add: choice_ok_def)
    qed
  qed
  have "yStage y \<noteq> CloseFenced"
  proof
    assume fenced: "yStage y = CloseFenced"
    then have "yProcessor y = ProcStopped" using running failed by (cases "yProcessor y") auto
    then show False using stuck close_drain fenced by blast
  qed
  moreover have "yStage y \<noteq> CloseDrained"
  proof
    assume d: "yStage y = CloseDrained"
    obtain e s where "closeFinish (\<lambda>_ :: nat. ([0x70], [0x70])) (yState y) = (e, s)" by fastforce
    then show False using stuck close_finish [OF d, of "\<lambda>_. ([0x70], [0x70])"] by simp
  qed
  ultimately show ?thesis using begun assms(3) by (cases "yStage y") auto
qed

lemma stuck_quiet:
  assumes inv: "system_inv start old y" and closing: "yStage y \<noteq> CloseNone" and stuck: "\<nexists>z. work Normal y z"
  shows "quiet_system y"
proof -
  have i: "callers_inv y" "core_inv start old y" "published_inv y" "stage_inv y" using inv by (simp_all add: system_inv_def)
  have ended: "yStage y = CloseDone" by (rule processor_goes_on [OF i(2,4) closing stuck])
  note none = callers_go_on [OF i(4) closing stuck]
  have st: "wqQueueClosed (queue y)" "pClosed (partition_of y)" "yProcessor y = ProcStopped" "yRing y = []" "ySelected y = []"
    using i(4) ended by (simp_all add: stage_inv_def flags_def)
  have wait: "yAwaiting y = {#}"
  proof (rule ccontr)
    assume "yAwaiting y \<noteq> {#}"
    then obtain j W where w: "yAwaiting y = add_mset j W" by (cases "yAwaiting y") auto
    then have "aqCompleted (request y j)" using i(3) st(4,5) by (auto simp: published_inv_def in_ring_def)
    then obtain r where "aqResultVal (request y j) = Some r" using core_completed [OF i(2)] by auto
    then show False using stuck result [OF w] by blast
  qed
  then have "callers y = {#}" by (simp add: callers_def none)
  then have "{i. i < yNext y \<and> yAnswers y i = None} = {}"
    using i(1) by (simp add: callers_inv_def mset_set_empty_iff)
  then have "\<forall>i < yNext y. yAnswers y i \<noteq> None" by simp
  moreover have "live y = {#}" by (simp add: live_def none st)
  then have "wqAdmittedRecords (queue y) = 0" "wqAdmittedBytes (queue y) = 0" "wqPublicationCredits (queue y) = 0"
    using core_parts(2) [OF i(2)] by (simp_all add: counts_inv_def charge_sum_def none st unat_eq_0)
  ultimately show ?thesis unfolding quiet_system_def using ended st by (intro conjI)
qed

lemma run_keeps:
  assumes "(\<lambda>a b. \<exists>l. work l a b)\<^sup>*\<^sup>* y z" and "system_inv start old y" and "yStage y \<noteq> CloseNone"
  shows "system_inv start old z \<and> yStage z \<noteq> CloseNone"
  using assms
proof (induction rule: rtranclp_induct)
  case (step a b)
  then obtain l where w: "work l a b" by blast
  have "step a b" using w by (auto simp: step_def)
  then show ?case using step step_inv work_decreases(2) [OF w] by (auto simp: system_inv_def)
qed simp

text \<open>C2. Closing always completes. Once \<open>closeWriter\<close> has begun, the parts of the writer cannot run
  forever, whatever contexts end and however the ring fails; and when none of them can go on, the
  writer is closed, every call of \<open>Append\<close> has returned, and nothing is left admitted. No part waits
  for another forever.\<close>

theorem closing_completes:
  assumes "started y" and "step\<^sup>*\<^sup>* y z" and "yStage z \<noteq> CloseNone"
  shows "\<not> (\<exists>f. f 0 = z \<and> (\<forall>n. \<exists>l. work l (f n) (f (Suc n))))
    \<and> (\<forall>z'. (\<lambda>a b. \<exists>l. work l a b)\<^sup>*\<^sup>* z z' \<and> (\<nexists>z''. work Normal z' z'') \<longrightarrow> quiet_system z')"
proof
  obtain css where css: "partition_inv (wsWorld (yState y)) (partition_of y) css" using assms(1) unfolding started_def by blast
  note inv = reachable_inv [OF assms(1) css assms(2)]
  show "\<not> (\<exists>f. f 0 = z \<and> (\<forall>n. \<exists>l. work l (f n) (f (Suc n))))"
  proof
    assume "\<exists>f. f 0 = z \<and> (\<forall>n. \<exists>l. work l (f n) (f (Suc n)))"
    then obtain f where f: "f 0 = z" "\<And>n. \<exists>l. work l (f n) (f (Suc n))" by blast
    have run: "(\<lambda>a b. \<exists>l. work l a b)\<^sup>*\<^sup>* z (f n)" for n
      by (induction n) (use f in \<open>auto intro: rtranclp.rtrancl_into_rtrancl\<close>)
    have "work_left (f (Suc n)) < work_left (f n)" for n
      using f(2) [of n] run_keeps [OF run inv assms(3)] work_decreases(1) by (auto simp: system_inv_def)
    then have "work_left (f n) + n \<le> work_left (f 0)" for n
      by (induction n) (simp, metis Suc_leI add_Suc_right add_Suc le_trans add_le_mono1)
    from this [of "Suc (work_left (f 0))"] show False by simp
  qed
  show "\<forall>z'. (\<lambda>a b. \<exists>l. work l a b)\<^sup>*\<^sup>* z z' \<and> (\<nexists>z''. work Normal z' z'') \<longrightarrow> quiet_system z'"
    using run_keeps [OF _ inv assms(3)] stuck_quiet by blast
qed

section \<open>A run\<close>

definition example_system :: writerSystem where
  "example_system =
     \<lparr>yState = \<lparr>wsPartition = example_partition, wsQueue = fresh_queue 32, wsLedger = None, wsBudget = None,
        wsFiles = None, wsWorld = example_world [],
        wsRequests = (\<lambda>_. \<lparr>aqRecord = example_record, aqCharge = 0, aqDisk = None, aqCompleted = False,
          aqResultVal = None, aqAbandoned = False, aqWaited = False\<rparr>)\<rparr>,
      yNext = 0, yArguments = (\<lambda>_. \<lparr>aTopic = 0, aPartition = 0, aKey = None, aValue = None, aHeaders = []\<rparr>),
      yAnswers = (\<lambda>_. None), yAdmitting = {#}, yBlocked = {#}, yReserved = {#}, yPublishing = {#},
      yFinishing = {#}, yAwaiting = {#}, yRing = [], ySelected = [], yProcessor = ProcRunning,
      yStage = CloseNone, yStoreClosing = False\<rparr>"

definition example_request :: AppendRequest where
  "example_request = \<lparr>aTopic = 7, aPartition = 3, aKey = None, aValue = Some [1, 2, 3],
     aHeaders = [\<lparr>hName = [0x61], hValue = Some []\<rparr>]\<rparr>"

lemma example_started: "started example_system"
proof -
  have "startWriter (\<lambda>_. Inr ()) (pOptions example_partition) = Inr 32"
    using example_reopen(2) by (simp add: example_partition_def)
  moreover have "partition_inv (example_world []) example_partition [[]]" by (rule example_inv)
  ultimately show ?thesis
    unfolding started_def using example_options_ok
    by (simp add: example_system_def) (auto simp: example_partition_def)
qed

lemma example_sizes:
  "recordEncodedBytes (copyRequest example_partition now example_request) = Inr 48"
  "recordEncodedBytes (request_record example_partition example_request) = Inr 48"
  by (simp_all add: copyRequest_def request_record_def example_request_def recordEncodedBytes_def andThen_def checkedAdd_def
      Let_def validHeaderCount_def len_def validHeaderName_def)

lemma example_formed:
  "formBatch example_partition [copyRequest example_partition 1000 example_request] = example_batch"
  by (simp add: formBatch_def offsetRecords_def copyRequest_def example_partition_def example_request_def
      example_batch_def example_record_def)

lemma example_prepare:
  "prepareAppend [] False outcome example_request example_partition None
    = (Inr \<lparr>aqRecord = request_record example_partition example_request, aqCharge = requestDescriptorBytes + 48,
         aqDisk = None, aqCompleted = False, aqResultVal = None, aqAbandoned = False, aqWaited = False\<rparr>, None)"
proof -
  have "requestCharge 7 3 example_options example_request = Inr (requestDescriptorBytes + 48)"
    using example_sizes(2)
    by (simp add: requestCharge_def request_record_def example_request_def example_partition_def example_options_def
        andThen_def checkedAdd_def requestDescriptorBytes_def)
  then show ?thesis
    using example_sizes(2) by (simp add: prepareAppend_def estimateDiskBatchGrowth_def reserveDisk_def andThen_def
        example_partition_def)
qed

definition example_choice :: writeChoice where
  "example_choice = \<lparr>wcRandom = 1, wcTemporaries = ([0x70], [0x70]), wcTailLocked = False, wcBudgetLocked = False\<rparr>"

lemma example_writeRequests:
  assumes "wsPartition s = example_partition" and "wsWorld s = example_world []"
    and "aqRecord (wsRequests s 0) = copyRequest example_partition 1000 example_request"
  obtains p' w' where "writeRequests example_choice [0] s = complete 0 (Inr example_record)
      (s\<lparr>wsPartition := p', wsWorld := w', wsBudget := wsBudget s\<rparr>)"
    and "wFaults w' = []" and "pLogEnd p' = 42" and "log_start p' = 41" and "pSegments p' \<noteq> []"
    and "\<not> pClosed p'" and "\<not> pClosing p'" and "\<not> pUnavailable p'"
proof -
  have le: "length example_bytes \<le> unat MaxBatchBytes"
    using DecodeBatch_facts(3) [OF decode_encoded [OF example_encoded]] by simp
  obtain p' w' where run: "appendEncodedLocked 1 ([0x70], [0x70]) example_batch example_bytes example_partition (example_world [])
      = (Inr (41, None), p', w')" and facts: "wFaults w' = []" "pLogEnd p' = 42" "log_start p' = 41" "pSegments p' \<noteq> []"
      "\<not> pClosed p'" "\<not> pClosing p'" "\<not> pUnavailable p'"
    unfolding example_append
    by (simp add: writeActive_def Let_def example_partition_def example_world_def fileWriteAt_def put_file_def
        fileSync_def fileEffect_def extendPrefixDigestLocked_def signalFetchWaitersLocked_def example_batch_def
        extendSegment_def refreshSegmentIndexes_def log_start_def split_def recovered_fields recovered_segment_def
        scan_start_def example_header_def)
  have "appendFormed example_choice example_batch example_partition (example_world []) = (Inr (41, None), p', w')"
    using run le by (simp add: appendFormed_def example_encoded example_choice_def example_partition_def example_options_def)
  moreover have "\<not> pUnavailable example_partition" by (simp add: example_partition_def)
  ultimately have "writeRequests example_choice [0] s = complete 0 (Inr example_record)
      (s\<lparr>wsPartition := p', wsWorld := w', wsBudget := wsBudget s\<rparr>)"
    by (simp add: writeRequests_def Let_def assms example_formed publishTail_def example_batch_def)
  then show ?thesis using facts by (rule that)
qed

lemma example_write:
  assumes "wsPartition s = example_partition" and "wsWorld s = example_world []"
    and "aqRecord (wsRequests s 0) = copyRequest example_partition 1000 example_request"
    and "\<not> aqCompleted (wsRequests s 0)"
  shows "aqResultVal (wsRequests (writeIngressBatches (\<lambda>_. example_choice) [0] s) 0) = Some (Inr example_record)"
proof -
  obtain p' w' where "writeRequests example_choice [0] s = complete 0 (Inr example_record)
      (s\<lparr>wsPartition := p', wsWorld := w', wsBudget := wsBudget s\<rparr>)"
    by (rule example_writeRequests [OF assms(1-3)]) (rule that)
  then show ?thesis
    using assms example_sizes(1) by (simp add: writeIngressBatches_def complete_def Let_def split: option.splits)
qed

lemma step_work: "work l y z \<Longrightarrow> step y z"
  by (auto simp: step_def)

lemma example_run:
  "\<exists>z. step\<^sup>*\<^sup>* example_system z \<and> yAnswers z 0 = Some (Inr example_record) \<and> yStage z = CloseNone"
proof -
  define r0 where "r0 = \<lparr>aqRecord = request_record example_partition example_request, aqCharge = requestDescriptorBytes + 48,
    aqDisk = None, aqCompleted = False, aqResultVal = None, aqAbandoned = False, aqWaited = False\<rparr>"
  let ?y = example_system
  define y1 where "y1 = ?y\<lparr>yState := (yState ?y)\<lparr>wsLedger := None, wsRequests := (request ?y)(yNext ?y := r0)\<rparr>,
    yNext := yNext ?y + 1, yArguments := (yArguments ?y)(yNext ?y := example_request),
    yAnswers := (yAnswers ?y)(yNext ?y := None), yAdmitting := add_mset (yNext ?y) (yAdmitting ?y)\<rparr>"
  have s1: "step ?y y1"
    unfolding step_def y1_def using example_prepare [folded r0_def]
    by (intro disjI2 append_begins [where outcome = "Inl []"]) (simp add: example_system_def)
  note e = y1_def example_system_def fresh_queue_def r0_def
  define q2 where "q2 = (queue y1)\<lparr>wqAdmittedBytes := requestDescriptorBytes + 48, wqAdmittedRecords := 1,
    wqPublicationCredits := 1\<rparr>"
  define y2 where "y2 = set_queue q2 y1\<lparr>yAdmitting := {#}, yReserved := add_mset 0 (yReserved y1)\<rparr>"
  have a2: "admit (yStoreClosing y1) (pOptions (partition_of y1)) (request y1 0) (queue y1) = (Admitted, q2)"
    by (simp add: q2_def e admit_def example_partition_def example_options_def requestDescriptorBytes_def)
  have s2: "step y1 y2" unfolding y2_def by (rule step_work, rule admit_ok [OF _ a2]) (simp add: e)
  define q3 where "q3 = (queue y2)\<lparr>wqPublishing := 1\<rparr>"
  define y3 where "y3 = y2\<lparr>yState := (yState y2)\<lparr>wsQueue := q3, wsRequests := (request y2)(0 := (request y2 0)\<lparr>aqRecord :=
      copyRequest (partition_of y2) 1000 (yArguments y2 0)\<rparr>)\<rparr>, yReserved := {#}, yPublishing := add_mset 0 (yPublishing y2)\<rparr>"
  have s3: "step y2 y3"
    unfolding y3_def by (rule step_work, rule enqueue_ok) (simp_all add: q3_def y2_def q2_def e enqueueBegin_def)
  define y4 where "y4 = y3\<lparr>yPublishing := {#}, yRing := yRing y3 @ [0], yFinishing := add_mset (0, None) (yFinishing y3)\<rparr>"
  have s4: "step y3 y4"
    unfolding y4_def by (rule step_work, rule publish_ok) (simp add: y3_def y2_def e)
  define s where "s = writeIngressBatches (\<lambda>_. example_choice) [0] ((yState y4)\<lparr>wsQueue := releasePublicationLocked (queue y4)\<rparr>)"
  define y5 where "y5 = y4\<lparr>yState := s, yRing := [], ySelected := []\<rparr>"
  have h5: "Handle (\<lambda>_. example_choice) 0 True (ySelected y4) (yState y4) = ([], s)"
    by (simp add: Handle_def Let_def s_def y4_def y3_def y2_def e)
  have s5: "step y4 y5"
    unfolding y5_def by (rule step_work, rule handle [OF _ _ _ _ h5]) (simp_all add: y4_def y3_def y2_def e choice_ok_def example_choice_def)
  have st: "wsPartition ((yState y4)\<lparr>wsQueue := releasePublicationLocked (queue y4)\<rparr>) = example_partition"
    "wsWorld ((yState y4)\<lparr>wsQueue := releasePublicationLocked (queue y4)\<rparr>) = example_world []"
    "aqRecord (wsRequests ((yState y4)\<lparr>wsQueue := releasePublicationLocked (queue y4)\<rparr>) 0) = copyRequest example_partition 1000 example_request"
    "\<not> aqCompleted (wsRequests ((yState y4)\<lparr>wsQueue := releasePublicationLocked (queue y4)\<rparr>) 0)"
    by (simp_all add: y4_def y3_def y2_def e)
  have res: "aqResultVal (request y5 0) = Some (Inr example_record)"
    using example_write [OF st] by (simp add: y5_def s_def)
  define y6 where "y6 = set_queue (finishPublisher (queue y5)) y5\<lparr>yFinishing := {#}, yAwaiting := add_mset 0 (yAwaiting y5)\<rparr>"
  have s6: "step y5 y6"
    unfolding y6_def by (rule step_work, rule finish_ok) (simp add: y5_def y4_def y3_def y2_def e)
  define y7 where "y7 = returns 0 (Inr example_record) (y6\<lparr>yAwaiting := {#}\<rparr>)"
  have s7: "step y6 y7"
    unfolding y7_def by (rule step_work, rule result) (use res in \<open>simp_all add: y6_def y5_def y4_def y3_def y2_def e\<close>)
  have "step\<^sup>*\<^sup>* ?y y7"
    using s1 s2 s3 s4 s5 s6 s7 by (meson converse_rtranclp_into_rtranclp r_into_rtranclp)
  moreover have "yAnswers y7 0 = Some (Inr example_record)" "yStage y7 = CloseNone"
    by (simp_all add: y7_def y6_def y5_def y4_def y3_def y2_def e)
  ultimately show ?thesis by blast
qed

theorem writer_within_limits_witness:
  "\<exists>z. step\<^sup>*\<^sup>* example_system z \<and> yAnswers z 0 = Some (Inr example_record)
     \<and> unat (wqAdmittedRecords (queue z)) = size (live z) \<and> length (yRing z) \<le> unat (wqCapacity (queue z))"
  using example_run writer_within_limits [OF example_started] by metis


theorem closing_completes_witness:
  "\<exists>z. step\<^sup>*\<^sup>* example_system z \<and> yStage z = CloseBegun \<and> yAnswers z 0 = Some (Inr example_record)
     \<and> (\<forall>z'. (\<lambda>a b. \<exists>l. work l a b)\<^sup>*\<^sup>* z z' \<and> (\<nexists>z''. work Normal z' z'') \<longrightarrow> quiet_system z')"
proof -
  obtain y where y: "step\<^sup>*\<^sup>* example_system y" "yAnswers y 0 = Some (Inr example_record)" "yStage y = CloseNone"
    using example_run by blast
  have "partition_inv (wsWorld (yState example_system)) (partition_of example_system) [[]]"
    using example_inv by (simp add: example_system_def)
  then have st: "stage_inv y" using reachable_inv [OF example_started _ y(1)] by (auto simp: system_inv_def)
  then have "\<not> wqQueueClosed (queue y)" "\<not> wqQueueClosing (queue y)"
    using conjunct1 [OF st [unfolded stage_inv_def]] y(3) by (simp_all add: flags_def)
  then have "step y (set_queue (closeBegin (queue y)) y\<lparr>yStage := CloseBegun\<rparr>)"
    unfolding step_def by (intro disjI2 close_begins)
  with y(1) have z: "step\<^sup>*\<^sup>* example_system (set_queue (closeBegin (queue y)) y\<lparr>yStage := CloseBegun\<rparr>)"
    by (rule rtranclp.rtrancl_into_rtrancl)
  show ?thesis
    using closing_completes [OF example_started z] z y(2)
    by (intro exI [of _ "set_queue (closeBegin (queue y)) y\<lparr>yStage := CloseBegun\<rparr>"]) simp
qed

end
