(* ===== verification/Readers.thy ===== *)
theory Readers
  imports Reading Writer_System
begin

text \<open>
  Readers beside the writer: the writer keeps the tail cache true to the log, a fetch returns a part of the
  log, and a reader that fetches again and again delivers the log.
\<close>

section \<open>The writer keeps the tail cache true\<close>

lemma writeRequests_slots:
  assumes pend: "pending ids s" and new: "pTail (wsPartition (writeRequests choice ids s)) = Some t" "Some b \<in> set (ptSlots t)"
  defines "rs \<equiv> offsetRecords (wsPartition s) (map (aqRecord \<circ> wsRequests s) ids)"
  shows "(\<exists>t. pTail (wsPartition s) = Some t \<and> Some b \<in> set (ptSlots t))
    \<or> rs \<noteq> [] \<and> dbBase b = rOffset (hd rs) \<and> dbRecords b = rs
      \<and> map (\<lambda>i. aqResultVal (wsRequests (writeRequests choice ids s) i)) ids = map (Some \<circ> Inr) rs"
proof (cases "pUnavailable (wsPartition s)")
  case True
  then show ?thesis using new by (auto simp: writeRequests_def completeAll_state fence_tail)
next
  case False
  define batch where "batch = formBatch (wsPartition s) (map (\<lambda>i. aqRecord (wsRequests s i)) ids)"
  have rs: "bRecords batch = rs" by (simp add: batch_def rs_def o_def)
  obtain r p w where run: "appendFormed choice batch (wsPartition s) (wsWorld s) = (r, p, w)" using prod_cases3 by blast
  note tail = appendFormed_tail [OF run]
  show ?thesis
  proof (cases r)
    case (Inl e)
    then have "pTail (wsPartition (writeRequests choice ids s)) = pTail p"
      using False run by (simp add: writeRequests_def batch_def [symmetric] Let_def completeAll_state fence_tail)
    then show ?thesis using new tail by metis
  next
    case (Inr x)
    obtain off pub where x: "x = (off, pub)" by (cases x)
    obtain q budget where pt: "publishTail (wcTailLocked choice) (wcBudgetLocked choice) pub p (wsBudget s) = (q, budget)" by fastforce
    let ?t = "s\<lparr>wsPartition := q, wsWorld := w, wsBudget := budget\<rparr>"
    have wr: "writeRequests choice ids s = completeAll ids (map Inr rs) ?t"
      using False run Inr x pt rs by (simp add: writeRequests_def batch_def [symmetric] Let_def)
    have "pending ids ?t" using pend by (intro pending_cong [of ?t s]) (simp_all add: frees_refl)
    moreover have "length (map Inr rs) = length ids" by (simp add: rs_def)
    ultimately have res: "map (\<lambda>i. aqResultVal (wsRequests (writeRequests choice ids s) i)) ids = map (Some \<circ> Inr) rs"
      using completeAll_answers [of ids ?t "map Inr rs"] wr by simp
    have q: "pTail q = Some t" using new(1) wr by (simp add: completeAll_state)
    show ?thesis
    proof (cases pub)
      case None
      then show ?thesis using pt q tail new(2) by (auto simp: publishTail_def)
    next
      case (Some pb)
      obtain tl bg where o: "offer (wcTailLocked choice) (wcBudgetLocked choice) (tpTopic pb) (tpPartition pb) (tpRecords pb) (tpDurableEnd pb)
          (pTail p) (wsBudget s) = (tl, bg)" by fastforce
      have "tl = Some t" using pt Some o q by (simp add: publishTail_def) auto
      from offer_slots [OF o this new(2)] show ?thesis using tail Inr x Some rs res by auto
    qed
  qed
qed

lemma writeRequests_reading:
  assumes inv: "reading_inv start log s" and pend: "pending ids s" and ch: "choice_ok choice"
  shows "\<exists>new. reading_inv start (log @ new) (writeRequests choice ids s)
    \<and> (let vals = map (\<lambda>i. aqResultVal (wsRequests (writeRequests choice ids s) i)) ids
        in new = [] \<and> (\<exists>e. vals = map (\<lambda>_. Some (Inl e)) ids) \<or> vals = map (Some \<circ> Inr) new)"
proof -
  let ?s = "writeRequests choice ids s"
  define rs where "rs = offsetRecords (wsPartition s) (map (aqRecord \<circ> wsRequests s) ids)"
  have log: "log_state log s" and fin: "pLogEnd (wsPartition s) = start + of_nat (length log)"
    and tt: "tail_true start log (pTail (wsPartition s))" using inv by (simp_all add: reading_inv_def)
  obtain log' where w: "written ids log s log' ?s" using writeRequests_written [OF pend log ch] by blast
  let ?vals = "map (\<lambda>i. aqResultVal (wsRequests ?s i)) ids"
  consider (failed) e where "?vals = map (\<lambda>_. Some (Inl e)) ids" "log' = log" "same_partition 0 (wsPartition s) (wsPartition ?s)"
    | (ok) "?vals = map (Some \<circ> Inr) rs" "log' = log @ rs" "same_partition (length ids) (wsPartition s) (wsPartition ?s)"
    using w unfolding written_def Let_def rs_def by blast
  then show ?thesis
  proof cases
    case failed
    have "tail_true start log (pTail (wsPartition ?s))"
      unfolding tail_true_def
    proof (intro allI impI)
      fix t b assume t: "pTail (wsPartition ?s) = Some t" "Some b \<in> set (ptSlots t)"
      from writeRequests_slots [OF pend t] show "log_slice start log (dbBase b) (dbRecords b)"
        using tt failed(1) by (cases ids) (auto simp: tail_true_def offsetRecords_def)
    qed
    then have "reading_inv start (log @ []) ?s" using w failed fin by (simp add: reading_inv_def written_def same_partition_def)
    then show ?thesis using failed(1) unfolding Let_def by blast
  next
    case ok
    have "rOffset (hd rs) = start + of_nat (length log)" if "rs \<noteq> []"
      using that fin by (cases ids) (simp_all add: rs_def offsetRecords_def)
    then have sl: "log_slice start (log @ rs) (rOffset (hd rs)) rs" if "rs \<noteq> []"
      using that by (auto simp: log_slice_def)
    have "tail_true start (log @ rs) (pTail (wsPartition ?s))"
      unfolding tail_true_def
    proof (intro allI impI)
      fix t b assume t: "pTail (wsPartition ?s) = Some t" "Some b \<in> set (ptSlots t)"
      from writeRequests_slots [OF pend t] show "log_slice start (log @ rs) (dbBase b) (dbRecords b)"
        using tt sl by (auto simp: tail_true_def rs_def [symmetric] intro: log_slice_grows)
    qed
    then have "reading_inv start (log @ rs) ?s"
      using w ok fin by (simp add: reading_inv_def written_def same_partition_def rs_def add.assoc)
    then show ?thesis using ok unfolding Let_def by blast
  qed
qed

section \<open>A reader beside the writer\<close>

text \<open>
  A reader with the offset it started from and the records it has delivered since. The lock of the
  partition makes a fetch and the writing of a batch exclude each other, so that these are steps. In
  between, other readers fetch, requests come and go, the partition may be fenced, and the file system
  may begin to fail or recover.
\<close>

record readerRun =
  rrState :: writerState
  rrReader :: Reader
  rrFrom :: uint64
  rrGot :: "Record list"

inductive reader_step :: "readerRun \<Rightarrow> readerRun \<Rightarrow> bool" where
  batch_written: "reader_step x (x\<lparr>rrState := writeRequests choice ids (rrState x)\<rparr>)"
  if "pending ids (rrState x)" and "choice_ok choice"
| fetched: "reader_step x (x\<lparr>rrState := s, rrReader := reader,
      rrGot := (if err = [] then rrGot x @ frRecords result else rrGot x)\<rparr>)"
  if "Reader_Fetch locked tailLocked ctx options (rrReader x) (rrState x) = ((result, err), reader, s)"
| sought: "reader_step x (x\<lparr>rrReader := reader, rrFrom := (if r = Inr () then offset else rrFrom x),
      rrGot := (if r = Inr () then [] else rrGot x)\<rparr>)"
  if "Seek locked offset (wsPartition (rrState x)) (rrReader x) = (r, reader)"
| reader_closed: "reader_step x (x\<lparr>rrReader := Reader_Close (rrReader x)\<rparr>)"
| others_fetch: "reader_step x (x\<lparr>rrState := s\<rparr>)"
  if "Fetch tailLocked ctx offset options (rrState x) = (r, ctx', s)"
| new_requests: "reader_step x (x\<lparr>rrState := (rrState x)\<lparr>wsRequests := requests, wsQueue := q\<rparr>\<rparr>)"
| now_fenced: "reader_step x (x\<lparr>rrState := fence e (rrState x)\<rparr>)"
| weather: "reader_step x (x\<lparr>rrState := (rrState x)\<lparr>wsWorld := (wsWorld (rrState x))\<lparr>wFaults := faults\<rparr>\<rparr>\<rparr>)"

definition reader_inv :: "uint64 \<Rightarrow> Record list \<Rightarrow> readerRun \<Rightarrow> bool" where
  "reader_inv start log x \<longleftrightarrow>
     reading_inv start log (rrState x) \<and> start \<le> rrFrom x
     \<and> rdNext (rrReader x) = rrFrom x + of_nat (length (rrGot x))
     \<and> unat (rrFrom x) - unat start + length (rrGot x) \<le> length log
     \<and> rrGot x = take (length (rrGot x)) (drop (unat (rrFrom x) - unat start) log)"

text \<open>A valid offset of an available partition lies in its log.\<close>

lemma valid_offset:
  assumes "reading_inv start log s" and "validateReadOffset offset (wsPartition s) = Inr ()"
  shows "start \<le> offset" and "unat offset - unat start \<le> length log" and "unat start + length log < 2 ^ 64"
proof -
  have "\<not> pUnavailable (wsPartition s)" using assms(2) by (simp add: validateReadOffset_Inr)
  then obtain css where "partition_inv (wsWorld s) (wsPartition s) css" "log_of css = log" "log_start (wsPartition s) = start"
    by (rule reading_image [OF assms(1)])
  then have "unat (pLogEnd (wsPartition s)) = unat start + length log" "unat start + length log < 2 ^ 64"
    using image_numbered by metis+
  then show "start \<le> offset" "unat offset - unat start \<le> length log" "unat start + length log < 2 ^ 64"
    using assms(2) \<open>log_start (wsPartition s) = start\<close> by (auto simp: validateReadOffset_Inr word_le_nat_alt)
qed

lemma reader_inv_state:
  assumes "reader_inv start log x" and "reading_inv start (log @ new) s"
  shows "reader_inv start (log @ new) (x\<lparr>rrState := s\<rparr>)"
  using assms unfolding reader_inv_def by (simp add: trans_le_add1)

lemma serves_continues:
  assumes got: "got = take (length got) (drop k log)" and k: "k + length got \<le> length log"
    and pos: "unat offset - unat start = k + length got" and s: "serves start log limits offset result"
  shows "got @ frRecords result = take (length (got @ frRecords result)) (drop k log)"
    and "k + length (got @ frRecords result) \<le> length log"
    and "frNextOffset result = offset + of_nat (length (frRecords result))"
proof -
  define rs where "rs = drop (k + length got) log"
  define n where "n = length (frRecords result)"
  have r: "frRecords result = take n rs" "frNextOffset result = offset + of_nat n"
    using s unfolding serves_def Let_def pos rs_def [symmetric] n_def [symmetric] by simp_all
  have tk: "take (length got + n) (drop k log) = take (length got) (drop k log) @ take n rs"
    unfolding take_add rs_def drop_drop add.commute [of "length got" k] ..
  have len: "length (got @ frRecords result) = length got + n" by (simp add: n_def)
  show "got @ frRecords result = take (length (got @ frRecords result)) (drop k log)"
    unfolding len tk by (rule arg_cong2 [OF got r(1), of "(@)"])
  have "n \<le> length rs" using r(1) n_def by (metis length_take min.bounded_iff order_refl)
  then show "k + length (got @ frRecords result) \<le> length log" using k unfolding len by (simp add: rs_def)
  show "frNextOffset result = offset + of_nat (length (frRecords result))" using r(2) by (simp add: n_def)
qed

lemma reader_fetch_inv:
  assumes inv: "reader_inv start log x"
    and run: "Reader_Fetch locked tailLocked ctx options (rrReader x) (rrState x) = ((result, err), reader, s)"
  shows "reader_inv start log (x\<lparr>rrState := s, rrReader := reader,
      rrGot := (if err = [] then rrGot x @ frRecords result else rrGot x)\<rparr>)"
proof (cases "locked \<and> \<not> rdClosed (rrReader x)")
  case False
  then have "err \<noteq> [] \<and> reader = rrReader x \<and> s = rrState x" using run by (auto simp: Reader_Fetch_def split: if_splits)
  then show ?thesis using inv by simp
next
  case True
  obtain c where f: "Fetch tailLocked ctx (rdNext (rrReader x)) options (rrState x) = ((result, err), c, s)"
    using run True by (auto simp: Reader_Fetch_def split: prod.splits if_splits)
  have rd: "reader = (if err = [] then (rrReader x)\<lparr>rdNext := frNextOffset result\<rparr> else rrReader x)"
    using run True f by (auto simp: Reader_Fetch_def split: if_splits)
  have ri: "reading_inv start log (rrState x)" using inv by (simp add: reader_inv_def)
  note F = Fetch_reading [OF ri f]
  show ?thesis
  proof (cases "err = []")
    case False
    then show ?thesis using inv F(1) rd by (simp add: reader_inv_def)
  next
    case ok: True
    obtain limits where sv: "serves start log limits (rdNext (rrReader x)) result"
      and val: "validateReadOffset (rdNext (rrReader x)) (wsPartition (rrState x)) = Inr ()" using F(5) [OF ok] by blast
    let ?k = "unat (rrFrom x) - unat start"
    have i: "start \<le> rrFrom x" "rdNext (rrReader x) = rrFrom x + of_nat (length (rrGot x))"
      "?k + length (rrGot x) \<le> length log" "rrGot x = take (length (rrGot x)) (drop ?k log)"
      using inv unfolding reader_inv_def by blast+
    have "unat (rdNext (rrReader x)) = unat (rrFrom x) + length (rrGot x)"
      using i(1-3) valid_offset(3) [OF ri val] by (simp add: unat_word_ariths unat_of_nat word_le_nat_alt)
    then have pos: "unat (rdNext (rrReader x)) - unat start = ?k + length (rrGot x)" using i(1) by (simp add: word_le_nat_alt)
    note C = serves_continues [OF i(4,3) pos sv, unfolded length_append]
    show ?thesis
      using ok rd F(1) i(1,2) C(2,3) unfolding reader_inv_def by (simp add: add.assoc C(1) [symmetric])
  qed
qed

lemma reader_step_inv:
  assumes "reader_step x y" and inv: "reader_inv start log x"
  shows "\<exists>new. reader_inv start (log @ new) y"
proof -
  have ri: "reading_inv start log (rrState x)" using inv by (simp add: reader_inv_def)
  from assms(1) show ?thesis
  proof cases
    case (batch_written ids choice)
    then obtain new where "reading_inv start (log @ new) (writeRequests choice ids (rrState x))"
      using writeRequests_reading [OF ri] by blast
    then show ?thesis using reader_inv_state [OF inv] batch_written by blast
  next
    case (fetched locked tailLocked ctx options result err reader s)
    have "reader_inv start (log @ []) y" using fetched(1) reader_fetch_inv [OF inv fetched(2)] by simp
    then show ?thesis by blast
  next
    case (sought locked offset r reader)
    have "reader_inv start (log @ []) y"
    proof (cases "r = Inr ()")
      case True
      then have "validateReadOffset offset (wsPartition (rrState x)) = Inr ()" "reader = (rrReader x)\<lparr>rdNext := offset\<rparr>"
        using sought by (auto simp: Seek_def split: if_splits sum.splits)
      then show ?thesis using True sought(1) ri valid_offset(1,2) [OF ri] by (simp add: reader_inv_def)
    next
      case False
      then have "reader = rrReader x" using sought by (auto simp: Seek_def split: if_splits sum.splits)
      then show ?thesis using False sought(1) inv by (simp add: reader_inv_def)
    qed
    then show ?thesis by blast
  next
    case reader_closed
    then have "reader_inv start (log @ []) y" using inv by (simp add: reader_inv_def Reader_Close_def)
    then show ?thesis by blast
  next
    case (others_fetch tailLocked ctx offset options r ctx' s)
    have "reading_inv start (log @ []) s"
      using others_fetch(2) Fetch_reading(1) [OF ri] by (cases r) simp
    then show ?thesis using reader_inv_state [OF inv] others_fetch(1) by blast
  next
    case (new_requests q rqs)
    have "reading_inv start (log @ []) ((rrState x)\<lparr>wsRequests := rqs, wsQueue := q\<rparr>)"
      using ri by (simp add: reading_inv_def log_state_def)
    then show ?thesis using reader_inv_state [OF inv] new_requests by blast
  next
    case (now_fenced e)
    have "reading_inv start (log @ []) (fence e (rrState x))" using reading_fence [OF ri] by simp
    then show ?thesis using reader_inv_state [OF inv] now_fenced by blast
  next
    case (weather faults)
    have "reading_inv start log ((rrState x)\<lparr>wsFiles := wsFiles (rrState x), wsWorld := (wsWorld (rrState x))\<lparr>wFaults := faults\<rparr>\<rparr>)"
      by (rule reading_frame [OF ri]) (simp add: content_def)
    then have "reading_inv start (log @ []) ((rrState x)\<lparr>wsWorld := (wsWorld (rrState x))\<lparr>wFaults := faults\<rparr>\<rparr>)" by simp
    then show ?thesis using reader_inv_state [OF inv] weather by blast
  qed
qed

lemma reader_run_inv:
  assumes "reader_step\<^sup>*\<^sup>* x y" and "reader_inv start log x"
  shows "\<exists>new. reader_inv start (log @ new) y"
  using assms
proof induction
  case base
  then show ?case using append_Nil2 by metis
next
  case (step y z)
  then obtain new where "reader_inv start (log @ new) y" by blast
  from reader_step_inv [OF step(2) this] show ?case by (metis append.assoc)
qed

text \<open>C5. A successful fetch returns a part of the log that starts at the requested offset, within the
  limits for records and bytes, and names the offset after it; it returns no records only at the end of the
  log. This holds for reads from the tail cache and from the segment files, with any failures of the file
  system in between, and the fetch leaves the partition and the files alone.\<close>

theorem fetch_returns_log_slice:
  assumes "reading_inv start log s" and "Fetch tailLocked ctx offset options s = ((result, []), ctx', s')"
  shows "\<exists>limits n. normalizeFetchOptions options = Inr limits \<and> n = length (frRecords result)
    \<and> frRecords result = take n (drop (unat offset - unat start) log) \<and> frNextOffset result = offset + of_nat n
    \<and> n \<le> unat (foMaxRecords limits) \<and> records_length (frRecords result) \<le> unat (foMaxBytes limits)
    \<and> (n = 0 \<longrightarrow> offset = pLogEnd (wsPartition s))
    \<and> wsPartition s' = wsPartition s \<and> (\<forall>q. content (wsWorld s') q = content (wsWorld s) q)"
proof -
  note F = Fetch_reading [OF assms]
  obtain limits where l: "normalizeFetchOptions options = Inr limits" "serves start log limits offset result"
    and v: "validateReadOffset offset (wsPartition s) = Inr ()" using F(5) by blast
  have "pLogEnd (wsPartition s) = start + of_nat (length log)" using assms(1) by (simp add: reading_inv_def)
  then have "unat (pLogEnd (wsPartition s)) = unat start + length log"
    using valid_offset(3) [OF assms(1) v] by (simp add: unat_word_ariths unat_of_nat)
  then have "offset = pLogEnd (wsPartition s)" if "drop (unat offset - unat start) log = []"
    using that valid_offset(1,2) [OF assms(1) v] by (simp add: word_le_nat_alt word_unat_eq_iff)
  then show ?thesis using l F(3,4) unfolding serves_def Let_def by (intro exI [of _ limits] exI [of _ "length (frRecords result)"]) simp
qed

text \<open>C6. A fetch with valid limits at a valid offset of an open partition succeeds when the file system does
  not fail and the context does not end, unless the first record is larger than the byte limit; then it
  reports this and does not fence the partition.\<close>

theorem fetch_succeeds:
  assumes "reading_inv start log s" and "validateReadOffset offset (wsPartition s) = Inr ()"
    and "normalizeFetchOptions options = Inr limits" and "wFaults (wsWorld s) = []"
  shows "\<exists>result err ctx' s'. Fetch tailLocked [] offset options s = ((result, err), ctx', s') \<and> wsPartition s' = wsPartition s
    \<and> (let rs = drop (unat offset - unat start) log
       in err = (if rs \<noteq> [] \<and> record_length (hd rs) > unat (foMaxBytes limits) then [ErrFetchLimitTooSmall, ErrNew] else []))"
proof -
  obtain result err ctx' s' where run: "Fetch tailLocked [] offset options s = ((result, err), ctx', s')" by (metis surj_pair)
  let ?rs = "drop (unat offset - unat start) log"
  from run have "wsPartition s' = wsPartition s \<and> (err = [] \<or> err = [ErrFetchLimitTooSmall, ErrNew] \<and> too_small start log limits offset)
    \<and> (err = [] \<longrightarrow> \<not> too_small start log limits offset)"
  proof (cases rule: Fetch_cases)
    case 1
    then show ?thesis using assms(3) by simp
  next
    case (2 lim c files w)
    then have lim: "lim = limits" "c = []" using assms(3) by simp_all
    have e: "err = [] \<or> err = [ErrFetchLimitTooSmall, ErrNew] \<and> too_small start log limits offset"
      using fetchLocked_reading(3) [OF assms(1) 2(1,2) assms(2,4)] lim by simp
    have "\<not> too_small start log limits offset" if ok: "err = []"
    proof
      assume ts: "too_small start log limits offset"
      have sv: "serves start log limits offset result" using fetchLocked_reading(2) [OF assms(1) 2(1,2) ok] unfolding lim by blast
      obtain r rs where rs: "?rs = r # rs" and big: "record_length r > unat (foMaxBytes limits)"
        using ts by (cases ?rs) (auto simp: too_small_def Let_def)
      then obtain k where "length (frRecords result) = Suc k" using sv by (cases "length (frRecords result)") (auto simp: serves_def Let_def)
      then have "records_length (r # take k rs) \<le> unat (foMaxBytes limits)" using sv rs by (auto simp: serves_def Let_def)
      then show False using big by (simp add: records_length_def)
    qed
    moreover have "\<not> shouldFenceFetchError err"
      using e by (auto simp: shouldFenceFetchError_def errors_Is_def)
    ultimately show ?thesis using 2 e by (simp add: Let_def)
  qed
  then show ?thesis using run unfolding too_small_def Let_def by (intro exI [of _ result] exI [of _ err] exI [of _ ctx'] exI [of _ s'] conjI) auto
qed

text \<open>C4. A reader follows the log: whatever the order in which batches are written, the reader and others
  fetch, the reader seeks and the file system fails, what it has delivered since it was created or last
  sought is the log from that offset on, without gaps, repetitions or changes, and its position is the
  offset after the last delivered record. The log itself only grows.\<close>

theorem reader_follows_log:
  assumes "reading_inv start log (rrState x)" and "NewReader (rrFrom x) (wsPartition (rrState x)) = Inr (rrReader x)"
    and "rrGot x = []" and "reader_step\<^sup>*\<^sup>* x y"
  shows "\<exists>new. reading_inv start (log @ new) (rrState y) \<and> start \<le> rrFrom y
    \<and> rrGot y = take (length (rrGot y)) (drop (unat (rrFrom y) - unat start) (log @ new))
    \<and> rdNext (rrReader y) = rrFrom y + of_nat (length (rrGot y))"
proof -
  have v: "validateReadOffset (rrFrom x) (wsPartition (rrState x)) = Inr ()"
    and r: "rrReader x = \<lparr>rdNext = rrFrom x, rdClosed = False\<rparr>"
    using assms(2) by (auto simp: NewReader_def andThen_Inr_iff)
  have "reader_inv start log x"
    using assms(1,3) r valid_offset(1,2) [OF assms(1) v] by (simp add: reader_inv_def)
  then obtain new where "reader_inv start (log @ new) y" using reader_run_inv [OF assms(4)] by blast
  then show ?thesis unfolding reader_inv_def by blast
qed

section \<open>An example\<close>

definition example_reading :: writerState where
  "example_reading = (yState example_system)\<lparr>wsQueue := (fresh_queue 32)\<lparr>wqAdmittedRecords := 1\<rparr>,
     wsRequests := (\<lambda>_. \<lparr>aqRecord = copyRequest example_partition 1000 example_request, aqCharge = 0, aqDisk = None,
       aqCompleted = False, aqResultVal = None, aqAbandoned = False, aqWaited = False\<rparr>)\<rparr>"

definition example_fetch :: FetchOptions where
  "example_fetch = \<lparr>foMaxRecords = 0, foMaxBytes = 0, foMaxWait = 0\<rparr>"

definition example_limits :: FetchOptions where
  "example_limits = \<lparr>foMaxRecords = 1024, foMaxBytes = 4194304, foMaxWait = 0\<rparr>"

lemma example_normalize: "normalizeFetchOptions example_fetch = Inr example_limits"
  by (simp add: normalizeFetchOptions_def example_fetch_def example_limits_def)

abbreviation example_written :: writerState where
  "example_written \<equiv> writeRequests example_choice [0] example_reading"

lemma example_pending: "pending [0] example_reading" "choice_ok example_choice"
  by (simp_all add: pending_def example_reading_def fresh_queue_def charges_def choice_ok_def example_choice_def)

lemma example_empty: "reading_inv 41 [] example_reading"
proof -
  have s: "wsPartition example_reading = example_partition" "wsWorld example_reading = example_world []"
    by (simp_all add: example_reading_def example_system_def)
  have "log_state [] example_reading"
    unfolding log_state_def s using example_options_ok example_inv [of "[]"]
    by (auto simp: log_of_def example_partition_def)
  moreover have "pLogEnd example_partition = 41" "pTail example_partition = None" by (simp_all add: example_partition_def)
  ultimately show ?thesis by (simp add: reading_inv_def s tail_true_def)
qed

lemma example_written_facts:
  "reading_inv 41 [example_record] example_written" "wFaults (wsWorld example_written) = []"
  "validateReadOffset 41 (wsPartition example_written) = Inr ()"
proof -
  have s: "wsPartition example_reading = example_partition" "wsWorld example_reading = example_world []"
    "aqRecord (wsRequests example_reading 0) = copyRequest example_partition 1000 example_request"
    "\<not> aqCompleted (wsRequests example_reading 0)"
    by (simp_all add: example_reading_def example_system_def)
  obtain p' w' where eq: "example_written = complete 0 (Inr example_record)
      (example_reading\<lparr>wsPartition := p', wsWorld := w', wsBudget := wsBudget example_reading\<rparr>)"
    and f: "wFaults w' = []" "pLogEnd p' = 42" "log_start p' = 41" "pSegments p' \<noteq> []" "\<not> pClosed p'" "\<not> pClosing p'" "\<not> pUnavailable p'"
    by (rule example_writeRequests [OF s(1-3)]) (rule that)
  have p: "wsPartition example_written = p'" "wsWorld example_written = w'" by (simp_all add: eq complete_state)
  show "wFaults (wsWorld example_written) = []" using f p by simp
  show "validateReadOffset 41 (wsPartition example_written) = Inr ()" using f p by (simp add: validateReadOffset_Inr)
  have val: "aqResultVal (wsRequests example_written 0) = Some (Inr example_record)"
    unfolding eq using s(4) by (simp add: complete_def Let_def split: option.splits)
  obtain new where "reading_inv 41 ([] @ new) example_written"
    and "new = [] \<and> (\<exists>e. [aqResultVal (wsRequests example_written 0)] = map (\<lambda>_. Some (Inl e)) [0])
       \<or> [aqResultVal (wsRequests example_written 0)] = map (Some \<circ> Inr) new"
    using writeRequests_reading [OF example_empty example_pending] by (auto simp: Let_def)
  then show "reading_inv 41 [example_record] example_written" unfolding val by auto
qed

lemma example_fetched:
  "\<exists>result ctx' s'. Fetch False [] 41 example_fetch example_written = ((result, []), ctx', s') \<and> frRecords result = [example_record]
     \<and> frNextOffset result = 42"
proof -
  obtain result err ctx' s' where run: "Fetch False [] 41 example_fetch example_written = ((result, err), ctx', s')" by (metis surj_pair)
  have small: "record_length example_record \<le> unat (foMaxBytes example_limits)"
    by (simp add: example_limits_def record_length_def record_tail_def example_record_def nullable_bytes_def header_bytes_def)
  from run have "err = []"
  proof (cases rule: Fetch_cases)
    case (2 lim c files w)
    then show ?thesis
      using fetchLocked_reading(3) [OF example_written_facts(1) 2(1,2) example_written_facts(3,2)] example_normalize small
      by (simp add: too_small_def Let_def)
  qed (use example_normalize in simp)
  then have "serves 41 [example_record] example_limits 41 result"
    using Fetch_reading(5) [OF example_written_facts(1) run] example_normalize by auto
  then have "frRecords result = [example_record] \<and> frNextOffset result = 42"
    by (cases "frRecords result") (auto simp: serves_def Let_def)
  then show ?thesis using run \<open>err = []\<close> by blast
qed

theorem fetch_returns_log_slice_witness:
  "\<exists>result ctx' s' limits n. Fetch False [] 41 example_fetch example_written = ((result, []), ctx', s')
     \<and> frRecords result = [example_record] \<and> normalizeFetchOptions example_fetch = Inr limits
     \<and> frRecords result = take n (drop (unat (41 :: uint64) - unat (41 :: uint64)) [example_record]) \<and> frNextOffset result = 41 + of_nat n
     \<and> n \<le> unat (foMaxRecords limits) \<and> wsPartition s' = wsPartition example_written"
proof -
  obtain result ctx' s' where r: "Fetch False [] 41 example_fetch example_written = ((result, []), ctx', s')"
    "frRecords result = [example_record]" using example_fetched by blast
  from fetch_returns_log_slice [OF example_written_facts(1) r(1)] r show ?thesis
    by (elim exE conjE) (intro exI conjI)
qed

theorem fetch_succeeds_witness:
  "\<exists>result ctx' s'. Fetch True [] 41 example_fetch example_written = ((result, []), ctx', s')
     \<and> wsPartition s' = wsPartition example_written"
proof -
  have "record_length example_record \<le> unat (foMaxBytes example_limits)"
    by (simp add: example_limits_def record_length_def record_tail_def example_record_def nullable_bytes_def header_bytes_def)
  then show ?thesis
    using fetch_succeeds [OF example_written_facts(1,3) example_normalize example_written_facts(2), of True] by auto
qed

theorem reader_follows_log_witness:
  "\<exists>y new. reader_step\<^sup>*\<^sup>* \<lparr>rrState = example_reading, rrReader = \<lparr>rdNext = 41, rdClosed = False\<rparr>, rrFrom = 41, rrGot = []\<rparr> y
     \<and> rrGot y = [example_record] \<and> rdNext (rrReader y) = 42
     \<and> rrGot y = take (length (rrGot y)) (drop (unat (rrFrom y) - unat (41 :: uint64)) ([] @ new))"
proof -
  let ?x = "\<lparr>rrState = example_reading, rrReader = \<lparr>rdNext = 41, rdClosed = False\<rparr>, rrFrom = 41, rrGot = []\<rparr>"
  let ?y = "?x\<lparr>rrState := example_written\<rparr>"
  obtain result ctx' s' where f: "Fetch False [] 41 example_fetch example_written = ((result, []), ctx', s')"
    "frRecords result = [example_record]" "frNextOffset result = 42" using example_fetched by blast
  let ?z = "?y\<lparr>rrState := s', rrReader := \<lparr>rdNext = 42, rdClosed = False\<rparr>, rrGot := [example_record]\<rparr>"
  have "reader_step ?x ?y" using batch_written [of "[0]" ?x example_choice] example_pending by simp
  moreover have "Reader_Fetch True False [] example_fetch (rrReader ?y) (rrState ?y) = ((result, []), \<lparr>rdNext = 42, rdClosed = False\<rparr>, s')"
    using f by (simp add: Reader_Fetch_def)
  then have "reader_step ?y ?z" using fetched [of True False "[]" example_fetch ?y] f(2) by simp
  ultimately have run: "reader_step\<^sup>*\<^sup>* ?x ?z" by (meson converse_rtranclp_into_rtranclp r_into_rtranclp)
  have "validateReadOffset 41 example_partition = Inr ()"
    by (simp add: validateReadOffset_def example_partition_def example_header_def recovered_segment_def Let_def)
  then have new: "NewReader (rrFrom ?x) (wsPartition (rrState ?x)) = Inr (rrReader ?x)"
    by (simp add: NewReader_def andThen_def example_reading_def example_system_def)
  have inv: "reading_inv 41 [] (rrState ?x)" using example_empty by simp
  have "rrGot ?x = []" by simp
  then obtain log where "rrGot ?z = take (length (rrGot ?z)) (drop (unat (rrFrom ?z) - unat (41 :: uint64)) ([] @ log))"
    using reader_follows_log [OF inv new _ run] by blast
  moreover have "rrGot ?z = [example_record]" "rdNext (rrReader ?z) = 42" by simp_all
  ultimately show ?thesis using run by blast
qed

end
