(* ===== verification/Catalog.thy ===== *)
theory Catalog
  imports Reading Events
begin

text \<open>
  The catalog of \<open>src/storage/catalog.go\<close>: the projection of the events of the cluster-metadata log onto
  topics and their retained ranges. A topic is reached in Go through two maps that share one object; here
  the map by name holds the identifier under which the other map holds the object. The zero values before
  \<open>StoreInitialized\<close> are \<open>None\<close>.
\<close>

section \<open>Topics\<close>

record TopicPartition =
  cpPartition :: uint32
  cpConfig :: PartitionConfigV1
  cpInitialSegment :: SegmentID
  cpInitialHeaderHash :: hash32
  cpRetainedL :: uint64
  cpCurrentRetainedSegment :: SegmentID
  cpCurrentRetainedHeaderHash :: hash32
  cpBoundaryCatalogNext :: uint64
  cpMaximumRecordedRetirementH :: uint64

record TopicDescriptor =
  tdID :: TopicID
  tdName :: bytes
  tdPartitions :: "TopicPartition list"

record catalogTopic =
  ctDescriptor :: TopicDescriptor
  ctRetired :: "uint32 \<rightharpoonup> (uint64 \<rightharpoonup> retiredSegmentEvent)"
  ctCreationOffset :: uint64

record catalogProjection =
  cgStoreID :: StoreID
  cgInitialized :: "storeInitializedEvent option"
  cgConfig :: "PartitionConfigV1 option"
  cgOffsetsConfig :: "PartitionConfigV1 option"
  cgRevision :: uint64
  cgTopicsByName :: "bytes \<rightharpoonup> TopicID"
  cgTopicsByID :: "TopicID \<rightharpoonup> catalogTopic"

definition newCatalogProjection :: catalogProjection where
  "newCatalogProjection =
     \<lparr>cgStoreID = 0, cgInitialized = None, cgConfig = None, cgOffsetsConfig = None, cgRevision = 0,
      cgTopicsByName = Map.empty, cgTopicsByID = Map.empty\<rparr>"

section \<open>Applying events\<close>

definition applyStoreInitialized :: "Record \<Rightarrow> bytes \<Rightarrow> catalogProjection \<Rightarrow> catalogProjection result" where
  "applyStoreInitialized record payload projection =
     (if rOffset record \<noteq> 0 \<or> cgRevision projection \<noteq> 0 then Inl (corrupt ErrInvalidRecord)
      else
        andThen (decodeStoreInitializedPayload payload) (\<lambda>event.
          Inr (projection\<lparr>cgStoreID := siStoreID event, cgInitialized := Some event,
                 cgConfig := Some (siCatalogConfig event), cgOffsetsConfig := Some (siOffsetsConfig event),
                 cgRevision := 1\<rparr>)))"

definition created_partition :: "uint64 \<Rightarrow> topicCreatedPartition \<Rightarrow> TopicPartition" where
  "created_partition offset part =
     \<lparr>cpPartition = topicCreatedPartition.tpPartition part, cpConfig = tpConfig part,
      cpInitialSegment = anID (tpInitial part), cpInitialHeaderHash = anHeaderHash (tpInitial part),
      cpRetainedL = 0,
      cpCurrentRetainedSegment = anID (tpInitial part),
      cpCurrentRetainedHeaderHash = anHeaderHash (tpInitial part),
      cpBoundaryCatalogNext = offset + 1, cpMaximumRecordedRetirementH = 0\<rparr>"

definition applyTopicCreated :: "Record \<Rightarrow> bytes \<Rightarrow> catalogProjection \<Rightarrow> catalogProjection result" where
  "applyTopicCreated record payload projection =
     (if cgRevision projection = 0 then Inl (corrupt ErrInvalidRecord)
      else
        andThen (decodeTopicCreatedPayload payload) (\<lambda>event.
          if tcStoreID event \<noteq> cgStoreID projection \<or> tcExpectedCatalogNext event \<noteq> rOffset record
          then Inl (corrupt ErrInvalidRecord)
          else if cgTopicsByName projection (tcName event) \<noteq> None then Inl (corrupt ErrInvalidRecord)
          else if cgTopicsByID projection (tcTopicID event) \<noteq> None then Inl (corrupt ErrInvalidRecord)
          else
            let partitions = map (created_partition (rOffset record)) (tcPartitions event);
                topic = \<lparr>ctDescriptor = \<lparr>tdID = tcTopicID event, tdName = tcName event, tdPartitions = partitions\<rparr>,
                         ctRetired = Map.empty, ctCreationOffset = rOffset record\<rparr>
            in Inr (projection\<lparr>cgTopicsByName := (cgTopicsByName projection)(tcName event \<mapsto> tcTopicID event),
                      cgTopicsByID := (cgTopicsByID projection)(tcTopicID event \<mapsto> topic),
                      cgRevision := rOffset record + 1\<rparr>)))"

definition sameEventAnchor :: "eventAnchor \<Rightarrow> eventAnchor \<Rightarrow> bool" where
  "sameEventAnchor left right \<longleftrightarrow> anID left = anID right \<and> anHeaderHash left = anHeaderHash right"

text \<open>The loop over the retired segments; it returns the offset after the last one.\<close>

fun checkRetired ::
  "uint64 \<Rightarrow> SegmentID \<Rightarrow> retiredSegmentEvent list \<Rightarrow> uint64 \<Rightarrow> SegmentID set \<Rightarrow> uint64 result" where
  "checkRetired newL successor [] cursor seen = Inr cursor"
| "checkRetired newL successor (retired # rest) cursor seen =
     (if rtBase retired \<noteq> cursor \<or> rtBase retired \<ge> rtEnd retired \<or> rtEnd retired > newL \<or> rtBytes retired = 0
      then Inl (corrupt ErrInvalidRecord)
      else if anID (rtAnchor retired) \<in> seen then Inl (corrupt ErrInvalidRecord)
      else if anID (rtAnchor retired) = successor then Inl (corrupt ErrInvalidRecord)
      else checkRetired newL successor rest (rtEnd retired) (insert (anID (rtAnchor retired)) seen))"

definition advance_partition :: "uint64 \<Rightarrow> partitionLogStartAdvancedEvent \<Rightarrow> TopicPartition \<Rightarrow> TopicPartition" where
  "advance_partition offset event part =
     part\<lparr>cpRetainedL := laNewL event,
          cpCurrentRetainedSegment := anID (laRetainedAnchor event),
          cpCurrentRetainedHeaderHash := anHeaderHash (laRetainedAnchor event),
          cpBoundaryCatalogNext := offset + 1,
          cpMaximumRecordedRetirementH :=
            (if laEvaluatedDurableEnd event > cpMaximumRecordedRetirementH part then laEvaluatedDurableEnd event
             else cpMaximumRecordedRetirementH part)\<rparr>"

text \<open>The retirement maps are extended entry by entry.\<close>

definition record_retired ::
  "retiredSegmentEvent list \<Rightarrow> (uint64 \<rightharpoonup> retiredSegmentEvent) option \<Rightarrow> (uint64 \<rightharpoonup> retiredSegmentEvent)" where
  "record_retired retired byBase =
     foldl (\<lambda>m r. m(rtBase r \<mapsto> r)) (case byBase of None \<Rightarrow> Map.empty | Some m \<Rightarrow> m) retired"

definition advance_topic :: "uint64 \<Rightarrow> partitionLogStartAdvancedEvent \<Rightarrow> catalogTopic \<Rightarrow> catalogTopic" where
  "advance_topic offset event topic =
     (let index = tkPartition (laKey event); d = ctDescriptor topic
      in topic\<lparr>ctRetired := (ctRetired topic)(index \<mapsto> record_retired (laRetired event) (ctRetired topic index)),
               ctDescriptor := d\<lparr>tdPartitions := (tdPartitions d)[unat index :=
                 advance_partition offset event (tdPartitions d ! unat index)]\<rparr>\<rparr>)"

definition applyLogStartAdvanced :: "Record \<Rightarrow> bytes \<Rightarrow> catalogProjection \<Rightarrow> catalogProjection result" where
  "applyLogStartAdvanced record payload projection =
     andThen (decodePartitionLogStartAdvancedPayload payload) (\<lambda>event.
       if laStoreID event \<noteq> cgStoreID projection \<or> laExpectedCatalogNext event \<noteq> rOffset record
       then Inl (corrupt ErrInvalidRecord)
       else
         case cgTopicsByID projection (tkTopic (laKey event)) of
           None \<Rightarrow> Inl (corrupt ErrInvalidRecord)
         | Some topic \<Rightarrow>
             if tkPartition (laKey event) \<ge> of_nat (length (tdPartitions (ctDescriptor topic)))
             then Inl (corrupt ErrInvalidRecord)
             else
               let part = tdPartitions (ctDescriptor topic) ! unat (tkPartition (laKey event))
               in if cpRetainedL part \<noteq> laExpectedOldL event \<or> laNewL event \<le> laExpectedOldL event
                     \<or> laNewL event > laEvaluatedDurableEnd event
                  then Inl (corrupt ErrInvalidRecord)
                  else if laReasonMask event AND NOT (pcRetentionMask (cpConfig part)) \<noteq> 0 \<or> laReasonMask event = 0
                  then Inl (corrupt ErrInvalidRecord)
                  else if laEvaluatedDurableEnd event < cpMaximumRecordedRetirementH part
                  then Inl (corrupt ErrInvalidRecord)
                  else if length (laRetired event) = 0 \<or> rtBase (laRetired event ! 0) \<noteq> laExpectedOldL event
                  then Inl (corrupt ErrInvalidRecord)
                  else if \<not> sameEventAnchor (rtAnchor (laRetired event ! 0))
                            \<lparr>anID = cpCurrentRetainedSegment part, anHeaderHash = cpCurrentRetainedHeaderHash part\<rparr>
                  then Inl (corrupt ErrInvalidRecord)
                  else
                    andThen (checkRetired (laNewL event) (anID (laRetainedAnchor event)) (laRetired event)
                               (laExpectedOldL event) {}) (\<lambda>cursor.
                      if cursor \<noteq> laNewL event then Inl (corrupt ErrInvalidRecord)
                      else Inr (projection\<lparr>cgTopicsByID := (cgTopicsByID projection)
                                  (tkTopic (laKey event) \<mapsto> advance_topic (rOffset record) event topic),
                                  cgRevision := rOffset record + 1\<rparr>)))"

definition catalog_apply :: "Record \<Rightarrow> catalogProjection \<Rightarrow> catalogProjection result" where
  "catalog_apply record projection =
     andThen (decodeSystemEvent record ClusterMetadataTopicID) (\<lambda>(eventType, payload).
       if eventType = event_code EventStoreInitialized then applyStoreInitialized record payload projection
       else if eventType = event_code EventTopicCreated then applyTopicCreated record payload projection
       else if eventType = event_code EventPartitionLogStartAdvanced
       then applyLogStartAdvanced record payload projection
       else Inl [ErrUnsupportedFormat, ErrNew])"

section \<open>Replay\<close>

text \<open>The records of one read, and the reads up to the durable end. Each read returns at least one record,
  so the number of offsets is enough fuel; \<open>None\<close> is running out of it.\<close>

fun replayRecords ::
  "(Record \<Rightarrow> 'p \<Rightarrow> 'p result) \<Rightarrow> Record list \<Rightarrow> uint64 \<Rightarrow> 'p \<Rightarrow> (uint64 \<times> 'p) result" where
  "replayRecords apply [] offset projection = Inr (offset, projection)"
| "replayRecords apply (r # rs) offset projection =
     (if rOffset r \<noteq> offset then Inl (corrupt ErrInvalidRecord)
      else andThen (apply r projection) (\<lambda>projection. replayRecords apply rs (offset + 1) projection))"

fun replayLoop ::
  "nat \<Rightarrow> (Record \<Rightarrow> 'p \<Rightarrow> 'p result) \<Rightarrow> Partition \<Rightarrow> uint64 \<Rightarrow> uint64 \<Rightarrow> 'p \<Rightarrow> segmentFileCache option \<Rightarrow> world
     \<Rightarrow> 'p result option \<times> segmentFileCache option \<times> world" where
  "replayLoop fuel apply p end offset projection files w =
     (if \<not> offset < end then (Some (Inr projection), files, w)
      else
        case fuel of
          0 \<Rightarrow> (None, files, w)
        | Suc fuel \<Rightarrow>
            (case Read offset MaxBatchRecords p files w of
               (Inl e, files, w) \<Rightarrow> (Some (Inl e), files, w)
             | (Inr records, files, w) \<Rightarrow>
                 if records = [] then (Some (Inl (corrupt ErrInvalidRecord)), files, w)
                 else
                   case replayRecords apply records offset projection of
                     Inl e \<Rightarrow> (Some (Inl e), files, w)
                   | Inr (offset, projection) \<Rightarrow> replayLoop fuel apply p end offset projection files w))"

declare replayLoop.simps [simp del]

definition catalog_replay ::
  "Partition \<Rightarrow> catalogProjection \<Rightarrow> segmentFileCache option \<Rightarrow> world
     \<Rightarrow> catalogProjection result option \<times> segmentFileCache option \<times> world" where
  "catalog_replay p projection files w =
     (case EndOffset p of
        Inl e \<Rightarrow> (Some (Inl e), files, w)
      | Inr end \<Rightarrow>
          (case replayLoop (unat end) catalog_apply p end 0 projection files w of
             (Some (Inr projection), files, w) \<Rightarrow>
               (Some (if cgRevision projection = 0 then Inl (corrupt ErrInvalidRecord) else Inr projection), files, w)
           | other \<Rightarrow> other))"

section \<open>New topics\<close>

text \<open>\<open>random\<close> is the outcome of reading the random source.\<close>

definition newTopicID :: "id16 result \<Rightarrow> TopicID result" where
  "newTopicID random =
     (case random of
        Inl e \<Rightarrow> Inl (errorf e)
      | Inr i \<Rightarrow>
          Inr (if IsZero i \<or> i = ClusterMetadataTopicID \<or> i = ConsumerOffsetsTopicID
               then bytes_id ((id_bytes i)[15 := id_bytes i ! 15 XOR 1]) else i))"

section \<open>The shape of a catalog\<close>

text \<open>Retired segments that follow each other from one offset to another.\<close>

fun retired_chain :: "uint64 \<Rightarrow> retiredSegmentEvent list \<Rightarrow> uint64 \<Rightarrow> bool" where
  "retired_chain lo [] hi \<longleftrightarrow> lo = hi"
| "retired_chain lo (r # rs) hi \<longleftrightarrow> rtBase r = lo \<and> lo < rtEnd r \<and> retired_chain (rtEnd r) rs hi"

lemma retired_chain_append:
  "retired_chain lo (rs @ ss) hi \<longleftrightarrow> (\<exists>m. retired_chain lo rs m \<and> retired_chain m ss hi)"
  by (induction rs arbitrary: lo) auto

lemma retired_chain_le: "retired_chain lo rs hi \<Longrightarrow> lo \<le> hi"
  by (induction lo rs hi rule: retired_chain.induct) auto

lemma retired_chain_above: "retired_chain lo rs hi \<Longrightarrow> r \<in> set rs \<Longrightarrow> lo \<le> rtBase r \<and> rtEnd r \<le> hi"
  by (induction lo rs hi rule: retired_chain.induct) (auto dest: retired_chain_le)

lemma retired_chain_distinct: "retired_chain lo rs hi \<Longrightarrow> distinct (map rtBase rs)"
proof (induction lo rs hi rule: retired_chain.induct)
  case (2 lo r rs hi)
  then have "rtBase r < rtBase x" if "x \<in> set rs" for x
    using retired_chain_above [of "rtEnd r" rs hi x] that by auto
  then show ?case using 2 by (fastforce dest: less_imp_neq)
qed simp

definition by_base :: "retiredSegmentEvent list \<Rightarrow> (uint64 \<rightharpoonup> retiredSegmentEvent)" where
  "by_base rs = map_of (map (\<lambda>r. (rtBase r, r)) rs)"

lemma record_retired_by_base:
  assumes "distinct (map rtBase (rs @ new))" and "m = Some (by_base rs) \<or> m = None \<and> rs = []"
  shows "record_retired new m = by_base (rs @ new)"
proof -
  have start: "(case m of None \<Rightarrow> Map.empty | Some m \<Rightarrow> m) = by_base rs" using assms(2) by (auto simp: by_base_def)
  have "foldl (\<lambda>m r. m(rtBase r \<mapsto> r)) (by_base rs) new = by_base (rs @ new)" using assms(1)
  proof (induction new rule: rev_induct)
    case (snoc r new)
    have "rtBase r \<notin> fst ` set (map (\<lambda>r. (rtBase r, r)) (rs @ new))" using snoc.prems by force
    then have "map_of (map (\<lambda>r. (rtBase r, r)) (rs @ new)) (rtBase r) = None" by (simp only: map_of_eq_None_iff not_False_eq_True)
    then have "by_base (rs @ new @ [r]) = (by_base (rs @ new))(rtBase r \<mapsto> r)"
      unfolding by_base_def by (auto simp: map_add_def fun_eq_iff split: option.splits)
    then show ?case using snoc by simp
  qed simp
  then show ?thesis using start by (simp add: record_retired_def)
qed

text \<open>A partition of a topic: what was retired are the segments from offset 0 to the retained start, beginning
  with the first segment.\<close>

definition catalog_partition_ok :: "uint64 \<Rightarrow> catalogTopic \<Rightarrow> nat \<Rightarrow> bool" where
  "catalog_partition_ok revision topic i \<longleftrightarrow>
     (let part = tdPartitions (ctDescriptor topic) ! i
      in cpPartition part = of_nat i \<and> config_ok False (cpConfig part)
         \<and> cpRetainedL part \<le> cpMaximumRecordedRetirementH part \<and> cpBoundaryCatalogNext part \<le> revision
         \<and> (\<exists>rs. retired_chain 0 rs (cpRetainedL part)
               \<and> (ctRetired topic (of_nat i) = Some (by_base rs) \<or> ctRetired topic (of_nat i) = None \<and> rs = [])
               \<and> (let anchor = (if rs = [] then \<lparr>anID = cpCurrentRetainedSegment part, anHeaderHash = cpCurrentRetainedHeaderHash part\<rparr>
                               else rtAnchor (hd rs))
                  in anchor = \<lparr>anID = cpInitialSegment part, anHeaderHash = cpInitialHeaderHash part\<rparr>)))"

definition topic_ok :: "uint64 \<Rightarrow> catalogTopic \<Rightarrow> bool" where
  "topic_ok revision topic \<longleftrightarrow>
     (let d = ctDescriptor topic
      in validTopicName (tdName d) \<and> \<not> reserved_topic (tdID d) \<and> 0 < length (tdPartitions d)
         \<and> length (tdPartitions d) \<le> maxTopicPartitions \<and> ctCreationOffset topic < revision
         \<and> (\<forall>i < length (tdPartitions d). catalog_partition_ok revision topic i))"

definition catalog_inv :: "catalogProjection \<Rightarrow> bool" where
  "catalog_inv p \<longleftrightarrow>
     (cgRevision p = 0 \<longrightarrow> cgTopicsByID p = Map.empty)
     \<and> (\<forall>name i. cgTopicsByName p name = Some i \<longrightarrow> (\<exists>t. cgTopicsByID p i = Some t \<and> tdName (ctDescriptor t) = name))
     \<and> (\<forall>i t. cgTopicsByID p i = Some t \<longrightarrow>
          tdID (ctDescriptor t) = i \<and> cgTopicsByName p (tdName (ctDescriptor t)) = Some i \<and> topic_ok (cgRevision p) t)"

text \<open>A later catalog keeps every topic with its name, partitions and policies, and the retained starts only
  advance.\<close>

definition partition_extends :: "TopicPartition \<Rightarrow> TopicPartition \<Rightarrow> bool" where
  "partition_extends a b \<longleftrightarrow>
     cpPartition b = cpPartition a \<and> cpConfig b = cpConfig a \<and> cpInitialSegment b = cpInitialSegment a
     \<and> cpInitialHeaderHash b = cpInitialHeaderHash a \<and> cpRetainedL a \<le> cpRetainedL b
     \<and> cpMaximumRecordedRetirementH a \<le> cpMaximumRecordedRetirementH b"

definition topic_extends :: "catalogTopic \<Rightarrow> catalogTopic \<Rightarrow> bool" where
  "topic_extends s t \<longleftrightarrow>
     tdID (ctDescriptor t) = tdID (ctDescriptor s) \<and> tdName (ctDescriptor t) = tdName (ctDescriptor s)
     \<and> ctCreationOffset t = ctCreationOffset s
     \<and> list_all2 partition_extends (tdPartitions (ctDescriptor s)) (tdPartitions (ctDescriptor t))"

definition catalog_extends :: "catalogProjection \<Rightarrow> catalogProjection \<Rightarrow> bool" where
  "catalog_extends p q \<longleftrightarrow>
     (cgRevision p \<noteq> 0 \<longrightarrow> cgStoreID q = cgStoreID p \<and> cgInitialized q = cgInitialized p)
     \<and> (\<forall>i s. cgTopicsByID p i = Some s \<longrightarrow> (\<exists>t. cgTopicsByID q i = Some t \<and> topic_extends s t))"

lemma partition_extends_refl [simp]: "partition_extends a a"
  by (simp add: partition_extends_def)

lemma topic_extends_refl [simp]: "topic_extends s s"
  by (simp add: topic_extends_def list.rel_refl)

lemma catalog_extends_refl [simp]: "catalog_extends p p"
  by (simp add: catalog_extends_def)

lemma partition_extends_trans: "partition_extends a b \<Longrightarrow> partition_extends b c \<Longrightarrow> partition_extends a c"
  by (auto simp: partition_extends_def)

lemma topic_extends_trans:
  assumes "topic_extends r s" and "topic_extends s t"
  shows "topic_extends r t"
proof -
  have "list_all2 partition_extends (tdPartitions (ctDescriptor r)) (tdPartitions (ctDescriptor s))"
    "list_all2 partition_extends (tdPartitions (ctDescriptor s)) (tdPartitions (ctDescriptor t))"
    using assms by (simp_all add: topic_extends_def)
  then have "list_all2 partition_extends (tdPartitions (ctDescriptor r)) (tdPartitions (ctDescriptor t))"
    using list_all2_trans [where ?P1.0 = partition_extends and ?P2.0 = partition_extends and ?P3.0 = partition_extends]
      partition_extends_trans by blast
  then show ?thesis using assms by (simp add: topic_extends_def)
qed

lemma catalog_extends_trans:
  assumes "catalog_extends p q" and "catalog_extends q r" and "cgRevision p \<noteq> 0 \<Longrightarrow> cgRevision q \<noteq> 0"
  shows "catalog_extends p r"
proof -
  have "\<exists>u. cgTopicsByID r i = Some u \<and> topic_extends s u" if "cgTopicsByID p i = Some s" for i s
  proof -
    obtain t where t: "cgTopicsByID q i = Some t" "topic_extends s t" using assms(1) \<open>cgTopicsByID p i = Some s\<close> unfolding catalog_extends_def by blast
    obtain u where "cgTopicsByID r i = Some u" "topic_extends t u" using assms(2) t(1) unfolding catalog_extends_def by blast
    then show ?thesis using topic_extends_trans [OF t(2)] by blast
  qed
  moreover have "cgRevision p \<noteq> 0 \<longrightarrow> cgStoreID r = cgStoreID p \<and> cgInitialized r = cgInitialized p"
    using assms unfolding catalog_extends_def by simp
  ultimately show ?thesis unfolding catalog_extends_def by blast
qed

lemma topic_ok_later:
  assumes "topic_ok revision t" and "revision \<le> revision'"
  shows "topic_ok revision' t"
  using assms by (auto simp: topic_ok_def catalog_partition_ok_def Let_def)

section \<open>Events keep the shape\<close>

lemma checkRetired_chain:
  "checkRetired newL successor rs cursor seen = Inr stop \<Longrightarrow> retired_chain cursor rs stop"
  by (induction newL successor rs cursor seen rule: checkRetired.induct) (auto split: if_splits)

text \<open>The revision of a projection that has taken in all records before the next one.\<close>

definition due :: "Record \<Rightarrow> catalogProjection \<Rightarrow> bool" where
  "due r p \<longleftrightarrow> cgRevision p = rOffset r \<and> unat (rOffset r) + 1 < 2 ^ 64"

lemma due_next: "due r p \<Longrightarrow> rOffset r < rOffset r + 1 \<and> cgRevision p \<le> rOffset r + 1"
  by (auto simp: due_def word_less_nat_alt word_le_nat_alt unat_word_ariths)

lemma applyStoreInitialized_inv:
  assumes "applyStoreInitialized r payload p = Inr q" and "catalog_inv p" and "due r p"
  shows "catalog_inv q \<and> cgRevision q = rOffset r + 1 \<and> catalog_extends p q"
  using assms by (auto simp: applyStoreInitialized_def andThen_Inr_iff catalog_inv_def catalog_extends_def split: if_splits)

lemma created_partition_ok:
  assumes ev: "topic_event_ok e" and i: "i < length (tcPartitions e)"
    and t: "t = \<lparr>ctDescriptor = \<lparr>tdID = a, tdName = n, tdPartitions = map (created_partition off) (tcPartitions e)\<rparr>,
                 ctRetired = Map.empty, ctCreationOffset = off\<rparr>"
  shows "catalog_partition_ok (off + 1) t i"
proof -
  have "topic_partition_ok i (tcPartitions e ! i)"
    using ev i by (auto simp: topic_event_ok_def all_index_nth)
  then show ?thesis using i
    by (simp add: t catalog_partition_ok_def created_partition_def topic_partition_ok_def Let_def)
qed

lemma applyTopicCreated_inv:
  assumes "applyTopicCreated r payload p = Inr q" and inv: "catalog_inv p" and due: "due r p"
  shows "catalog_inv q \<and> cgRevision q = rOffset r + 1 \<and> catalog_extends p q"
proof -
  obtain e where e: "decodeTopicCreatedPayload payload = Inr e"
    and free: "cgTopicsByName p (tcName e) = None" "cgTopicsByID p (tcTopicID e) = None"
    and q: "q = p\<lparr>cgTopicsByName := (cgTopicsByName p)(tcName e \<mapsto> tcTopicID e),
      cgTopicsByID := (cgTopicsByID p)(tcTopicID e \<mapsto>
        \<lparr>ctDescriptor = \<lparr>tdID = tcTopicID e, tdName = tcName e, tdPartitions = map (created_partition (rOffset r)) (tcPartitions e)\<rparr>,
         ctRetired = Map.empty, ctCreationOffset = rOffset r\<rparr>),
      cgRevision := rOffset r + 1\<rparr>"
    using assms(1) by (auto simp: applyTopicCreated_def andThen_Inr_iff Let_def split: if_splits)
  have ok: "topic_event_ok e" "validTopicName (tcName e)" using e by (auto simp: decodeTopicCreatedPayload_Inr_iff)
  let ?t = "\<lparr>ctDescriptor = \<lparr>tdID = tcTopicID e, tdName = tcName e, tdPartitions = map (created_partition (rOffset r)) (tcPartitions e)\<rparr>,
         ctRetired = Map.empty, ctCreationOffset = rOffset r\<rparr>"
  note later = due_next [OF due]
  have new: "topic_ok (rOffset r + 1) ?t"
    using ok later created_partition_ok [OF ok(1) _ refl, where off = "rOffset r" and a = "tcTopicID e" and n = "tcName e"]
    by (simp add: topic_ok_def topic_event_ok_def)
  have old: "topic_ok (rOffset r + 1) t" if "cgTopicsByID p i = Some t" for i t
    using that inv later topic_ok_later unfolding catalog_inv_def by blast
  have "rOffset r + 1 \<noteq> 0" using later by auto
  moreover have "cgTopicsByName p name \<noteq> Some (tcTopicID e)" for name
    using inv free(2) unfolding catalog_inv_def by force
  moreover have "tdName (ctDescriptor t) \<noteq> tcName e" if "cgTopicsByID p i = Some t" for i t
    using inv free(1) that unfolding catalog_inv_def by force
  ultimately have "catalog_inv q"
    using inv new old free unfolding catalog_inv_def q by (auto simp: map_upd_Some_unfold)
  moreover have "catalog_extends p q" using free by (auto simp: catalog_extends_def q)
  ultimately show ?thesis by (simp add: q)
qed

lemma advance_topic_fields:
  "tdID (ctDescriptor (advance_topic off e t)) = tdID (ctDescriptor t)"
  "tdName (ctDescriptor (advance_topic off e t)) = tdName (ctDescriptor t)"
  "ctCreationOffset (advance_topic off e t) = ctCreationOffset t"
  "tdPartitions (ctDescriptor (advance_topic off e t)) =
     (tdPartitions (ctDescriptor t))[unat (tkPartition (laKey e)) :=
       advance_partition off e (tdPartitions (ctDescriptor t) ! unat (tkPartition (laKey e)))]"
  "ctRetired (advance_topic off e t) =
     (ctRetired t)(tkPartition (laKey e) \<mapsto> record_retired (laRetired e) (ctRetired t (tkPartition (laKey e))))"
  by (simp_all add: advance_topic_def Let_def)

lemma advance_partition_ok:
  assumes old: "catalog_partition_ok revision t i" and i: "i < length (tdPartitions (ctDescriptor t))" "i = unat (tkPartition (laKey e))"
    and part: "part = tdPartitions (ctDescriptor t) ! i"
    and frm: "cpRetainedL part = laExpectedOldL e" and upto: "laNewL e \<le> laEvaluatedDurableEnd e"
    and anchor: "laRetired e \<noteq> []" "sameEventAnchor (rtAnchor (laRetired e ! 0))
       \<lparr>anID = cpCurrentRetainedSegment part, anHeaderHash = cpCurrentRetainedHeaderHash part\<rparr>"
    and chain: "retired_chain (laExpectedOldL e) (laRetired e) (laNewL e)"
  shows "catalog_partition_ok (off + 1) (advance_topic off e t) i"
proof -
  let ?k = "tkPartition (laKey e)"
  have k: "of_nat i = ?k" using i(2) by simp
  obtain rs where rs: "retired_chain 0 rs (cpRetainedL part)"
    "ctRetired t ?k = Some (by_base rs) \<or> ctRetired t ?k = None \<and> rs = []"
    "(if rs = [] then \<lparr>anID = cpCurrentRetainedSegment part, anHeaderHash = cpCurrentRetainedHeaderHash part\<rparr>
      else rtAnchor (hd rs)) = \<lparr>anID = cpInitialSegment part, anHeaderHash = cpInitialHeaderHash part\<rparr>"
    using old unfolding catalog_partition_ok_def Let_def part [symmetric] k by blast
  have p: "cpPartition part = of_nat i" "config_ok False (cpConfig part)"
    using old unfolding catalog_partition_ok_def Let_def part [symmetric] by blast+
  let ?rs = "rs @ laRetired e"
  have chain': "retired_chain 0 ?rs (laNewL e)" using rs(1) chain frm by (auto simp: retired_chain_append)
  have rec: "record_retired (laRetired e) (ctRetired t ?k) = by_base ?rs"
    using retired_chain_distinct [OF chain'] rs(2) by (intro record_retired_by_base) auto
  have "rtAnchor (hd ?rs) = \<lparr>anID = cpInitialSegment part, anHeaderHash = cpInitialHeaderHash part\<rparr>"
  proof (cases "rs = []")
    case True
    then show ?thesis using rs(3) anchor by (cases "laRetired e") (auto simp: sameEventAnchor_def)
  next
    case False
    then show ?thesis using rs(3) by simp
  qed
  moreover have "tdPartitions (ctDescriptor (advance_topic off e t)) ! i = advance_partition off e part"
    using i part by (simp add: advance_topic_fields)
  moreover have "ctRetired (advance_topic off e t) (of_nat i) = Some (by_base ?rs)"
    using k rec by (simp add: advance_topic_fields)
  ultimately show ?thesis
    using p chain' anchor(1) upto unfolding catalog_partition_ok_def Let_def
    by (auto simp: advance_partition_def intro!: exI [of _ ?rs])
qed

lemma advance_other_ok:
  assumes "catalog_partition_ok revision t i" and "i \<noteq> unat (tkPartition (laKey e))" and "revision \<le> off + 1" and "i < 2 ^ 32"
  shows "catalog_partition_ok (off + 1) (advance_topic off e t) i"
proof -
  have "unat (of_nat i :: uint32) = i" using assms(4) by (simp add: unat_of_nat)
  then have "(of_nat i :: uint32) \<noteq> tkPartition (laKey e)" using assms(2) by metis
  then show ?thesis using assms by (auto simp: catalog_partition_ok_def advance_topic_fields Let_def)
qed

lemma applyLogStartAdvanced_inv:
  assumes run: "applyLogStartAdvanced r payload p = Inr q" and inv: "catalog_inv p" and due: "due r p"
  shows "catalog_inv q \<and> cgRevision q = rOffset r + 1 \<and> catalog_extends p q"
proof -
  obtain e t cursor where t: "cgTopicsByID p (tkTopic (laKey e)) = Some t"
    and idx: "\<not> tkPartition (laKey e) \<ge> of_nat (length (tdPartitions (ctDescriptor t)))"
    and part: "cpRetainedL (tdPartitions (ctDescriptor t) ! unat (tkPartition (laKey e))) = laExpectedOldL e"
      "laExpectedOldL e < laNewL e" "laNewL e \<le> laEvaluatedDurableEnd e"
    and hd: "laRetired e \<noteq> []" "sameEventAnchor (rtAnchor (laRetired e ! 0))
       \<lparr>anID = cpCurrentRetainedSegment (tdPartitions (ctDescriptor t) ! unat (tkPartition (laKey e))),
        anHeaderHash = cpCurrentRetainedHeaderHash (tdPartitions (ctDescriptor t) ! unat (tkPartition (laKey e)))\<rparr>"
    and chk: "checkRetired (laNewL e) (anID (laRetainedAnchor e)) (laRetired e) (laExpectedOldL e) {} = Inr (laNewL e)"
    and q: "q = p\<lparr>cgTopicsByID := (cgTopicsByID p)(tkTopic (laKey e) \<mapsto> advance_topic (rOffset r) e t), cgRevision := rOffset r + 1\<rparr>"
    using run unfolding applyLogStartAdvanced_def Let_def
    by (auto simp: andThen_Inr_iff split: if_splits option.splits)
  note later = due_next [OF due]
  let ?k = "tkPartition (laKey e)" and ?t' = "advance_topic (rOffset r) e t"
  have ok: "topic_ok (cgRevision p) t" "tdID (ctDescriptor t) = tkTopic (laKey e)"
    "cgTopicsByName p (tdName (ctDescriptor t)) = Some (tkTopic (laKey e))" using inv t unfolding catalog_inv_def by blast+
  have len: "length (tdPartitions (ctDescriptor t)) \<le> 65536" using ok(1) by (simp add: topic_ok_def Let_def)
  have k: "unat ?k < length (tdPartitions (ctDescriptor t))"
    using idx len by (simp add: word_le_nat_alt unat_of_nat)
  have parts: "catalog_partition_ok (rOffset r + 1) ?t' i" if i: "i < length (tdPartitions (ctDescriptor t))" for i
  proof -
    have old: "catalog_partition_ok (cgRevision p) t i" using ok(1) i by (simp add: topic_ok_def Let_def)
    show ?thesis
    proof (cases "i = unat ?k")
      case True
      show ?thesis
        by (rule advance_partition_ok [OF old i True refl _ part(3) hd(1) _ checkRetired_chain [OF chk]]) (use part hd True in simp_all)
    next
      case False
      then show ?thesis using old later i len by (intro advance_other_ok [OF old]) auto
    qed
  qed
  have new: "topic_ok (rOffset r + 1) ?t'"
    using ok(1) parts later unfolding topic_ok_def Let_def advance_topic_fields by (auto simp: due [unfolded due_def])
  have old: "topic_ok (rOffset r + 1) x" if "cgTopicsByID p i = Some x" for i x
    using that inv later topic_ok_later unfolding catalog_inv_def by blast
  have "rOffset r + 1 \<noteq> 0" using later by auto
  moreover have "tdName (ctDescriptor t) = name" if "cgTopicsByName p name = Some (tkTopic (laKey e))" for name
    using inv t that unfolding catalog_inv_def by force
  ultimately have "catalog_inv q"
    using inv new old t ok unfolding catalog_inv_def q by (auto simp: map_upd_Some_unfold advance_topic_fields)
  moreover have "partition_extends (tdPartitions (ctDescriptor t) ! unat ?k)
      (advance_partition (rOffset r) e (tdPartitions (ctDescriptor t) ! unat ?k))"
    using part by (auto simp: partition_extends_def advance_partition_def)
  then have "topic_extends t ?t'"
    unfolding topic_extends_def advance_topic_fields using k by (auto simp: list_all2_conv_all_nth nth_list_update)
  then have "catalog_extends p q" using t by (auto simp: catalog_extends_def q)
  ultimately show ?thesis by (simp add: q)
qed

lemma catalog_apply_inv:
  assumes "catalog_apply r p = Inr q" and "catalog_inv p" and "due r p"
  shows "catalog_inv q \<and> cgRevision q = rOffset r + 1 \<and> catalog_extends p q"
  using assms applyStoreInitialized_inv applyTopicCreated_inv applyLogStartAdvanced_inv
  by (auto simp: catalog_apply_def andThen_Inr_iff split: if_splits)

end
