(* ===== verification/Catalog_Log.thy ===== *)
theory Catalog_Log
  imports Catalog
begin

text \<open>
  The catalog and the log it is replayed from. \<open>Partition.Read\<close> (\<open>partition.go\<close>) returns a slice of the log that the
  segment files hold, \<open>catalogProjection.replay\<close> (\<open>catalog.go\<close>) folds the catalog events over all of it, and the
  projections of successive prefixes extend each other.
\<close>

section \<open>The reference read\<close>

lemma collectRecords_append:
  "collectRecords offset m (xs @ ys) result =
     (case collectRecords offset m xs result of
        (result, True) \<Rightarrow> (result, True)
      | (result, False) \<Rightarrow> collectRecords offset m ys result)"
  by (induction offset m xs result rule: collectRecords.induct) auto

lemma collectRecords_skip: "collectRecords offset m rs result = collectRecords offset m (from_offset offset rs) result"
  by (induction offset m rs result rule: collectRecords.induct) auto

lemma collectRecords_take:
  assumes "length result \<le> unat m"
  shows "fst (collectRecords offset m rs result) = result @ take (unat m - length result) (from_offset offset rs)"
    and "length (fst (collectRecords offset m rs result)) \<le> unat m"
proof -
  have "fst (collectRecords offset m rs result) = result @ take (unat m - length result) (from_offset offset rs)"
    using assms
  proof (induction offset m rs result rule: collectRecords.induct)
    case (2 offset m r rs result)
    have full: "of_nat (length result) \<ge> m \<longleftrightarrow> length result = unat m"
      using "2.prems" unat_uint32_less [of m] by (auto simp: word_le_nat_alt unat_of_nat)
    show ?case
    proof (cases "rOffset r < offset \<or> length result = unat m")
      case True
      then show ?thesis using 2 full by auto
    next
      case False
      then have "unat m - length result = Suc (unat m - length (result @ [r]))" using "2.prems" by (simp add: Suc_diff_Suc)
      then show ?thesis using False 2 full by simp
    qed
  qed simp
  then show "fst (collectRecords offset m rs result) = result @ take (unat m - length result) (from_offset offset rs)"
    and "length (fst (collectRecords offset m rs result)) \<le> unat m" using assms by auto
qed

lemma readLoop_chunks:
  assumes "chunks_ok t p off cs"
  shows "readLoop t p offset m (pre @ chunk_bytes cs) (length pre) result = Inr (collectRecords offset m (chunk_records cs) result)"
  using assms
proof (induction cs arbitrary: off pre result)
  case Nil
  then show ?case by (simp add: readLoop.simps)
next
  case (Cons x cs)
  obtain c b where x: "x = (c, b)" by (cases x)
  have dec: "DecodeBatch c t p = Inr b" and ok: "chunks_ok t p (off + of_nat (length (bRecords b))) cs"
    using Cons.prems x by auto
  note f = DecodeBatch_facts [OF dec]
  have cut: "slice (length pre + lo) (length pre + hi) (pre @ c @ chunk_bytes cs) = slice lo hi c" if "lo \<le> hi" "hi \<le> length c" for lo hi
    using slice_middle [of lo hi c "length pre" pre "chunk_bytes cs"] that by simp
  have len: "Uint32 (slice (length pre + 8) (length pre + 12) (pre @ c @ chunk_bytes cs)) = of_nat (length c)"
    "unat (of_nat (length c) :: uint32) = length c"
    using f(1-3) cut [of 8 12] by (simp_all add: unat_of_nat)
  have whole: "slice (length pre) (length pre + length c) (pre @ c @ chunk_bytes cs) = c"
    using cut [of 0 "length c"] by (simp add: slice_def)
  have guard: "\<not> (of_nat (length c) < (ucast BatchHeaderBytes + of_nat BatchTrailerBytes :: uint32))"
    using f(2,3) by (simp add: word_less_nat_alt unat_of_nat)
  have ne: "c \<noteq> []" using f(2) by auto
  have "readLoop t p offset m (pre @ c @ chunk_bytes cs) (length pre) result =
      (case collectRecords offset m (bRecords b) result of
         (result, True) \<Rightarrow> Inr (result, True)
       | (result, False) \<Rightarrow> readLoop t p offset m (pre @ c @ chunk_bytes cs) (length pre + length c) result)"
    using f(2) len whole guard dec ne
    by (simp add: readLoop.simps [of t p offset m _ "length pre"] Let_def split: prod.split bool.split)
  also have "\<dots> = Inr (collectRecords offset m (chunk_records (x # cs)) result)"
    using Cons.IH [OF ok, of "pre @ c"] x
    by (simp add: collectRecords_append split: prod.split bool.split)
  finally show ?case using x by simp
qed

lemma readFile_effect:
  assumes "readFile path n w = (r, w')" and "content w path = Some d" and "n \<le> length d"
  shows "(r = Inr (take n d) \<or> wFaults w \<noteq> [] \<and> (\<exists>e. r = Inl e)) \<and> (\<forall>q. content w' q = content w q) \<and> (wFaults w = [] \<longrightarrow> w' = w)"
proof -
  have "r = Inr (take n d)" if "r = Inr data" for data
    using readFile_Inr [of path n w data w' d] assms that by (simp add: slice_def)
  moreover have "wFaults w = [] \<Longrightarrow> w' = w \<and> (\<exists>data. r = Inr data)"
    using assms by (auto simp: readFile_def fileReadAt_def Let_def slice_def split: if_splits)
  ultimately show ?thesis using readFile_content [OF assms(1)] by (cases r) auto
qed

lemma readSegmentFile_effect:
  assumes "readSegmentFile s files w = (r, files', w')" and "content w (sgPath s) = Some d" and "sgSize s \<le> length d"
  shows "(r = Inr (take (sgSize s) d) \<or> wFaults w \<noteq> [] \<and> (\<exists>e. r = Inl e)) \<and> (\<forall>q. content w' q = content w q) \<and> (wFaults w = [] \<longrightarrow> w' = w)"
proof -
  obtain ra f1 w1 where a: "acquireSegmentFile s files w = (ra, f1, w1)" using prod_cases3 by blast
  obtain r2 w2 where rd: "readFile (sgPath s) (sgSize s) w1 = (r2, w2)" by (metis surj_pair)
  obtain f3 w3 where rl: "releaseSegmentFile s f1 w2 = (f3, w3)" by (metis surj_pair)
  have A: "(\<forall>q. content w1 q = content w q) \<and> (wFaults w = [] \<longrightarrow> w1 = w \<and> ra = Inr ())"
    using acquireSegmentFile_world [OF a] assms(2) by simp
  have d: "content w1 (sgPath s) = Some d" using A assms(2) by simp
  note R = readFile_effect [OF rd d assms(3)] and L = releaseSegmentFile_world [OF rl]
  show ?thesis
  proof (cases ra)
    case (Inl e)
    then show ?thesis using assms(1) a A by (auto simp: readSegmentFile_def)
  next
    case (Inr u)
    then have "r = r2 \<and> w' = w3" using assms(1) a rd rl by (simp add: readSegmentFile_def)
    then show ?thesis using A R L by auto
  qed
qed

lemma readSegments_stored:
  assumes "list_all2 (\<lambda>s cs. \<exists>tail. stored v p tail s cs) ss css" and "\<forall>q. content w q = content v q"
    and "readSegments (pTopic p) (pPartition p) offset m ss result files w = (r, files', w')"
  shows "reads_as (Inr (fst (collectRecords offset m (log_of css) result))) [] w r [] w'"
  using assms
proof (induction ss css arbitrary: result files w rule: list_all2_induct)
  case Nil
  then show ?case by (simp add: reads_as_def log_of_def)
next
  case (Cons s ss cs css)
  have log: "log_of (cs # css) = chunk_records cs @ log_of css" by (simp add: log_of_def)
  obtain tail where "stored v p tail s cs" using Cons(1) by blast
  then have st: "stored w p tail s cs" by (rule stored_frame) (simp_all add: Cons.prems(1))
  show ?case
  proof (cases "offset \<ge> sgEnd s")
    case True
    then show ?thesis
      using stored_skip [OF st True] Cons.IH [OF Cons.prems(1)] Cons.prems(2) log
        collectRecords_skip [of offset m "chunk_records cs @ log_of css"] collectRecords_skip [of offset m "log_of css"] by simp
  next
    case False
    have inv: "segment_inv (pTopic p) (pPartition p) (pDir p) s cs"
      and data: "content w (sgPath s) = Some (segment_prefix (sgHeader s) @ chunk_bytes cs @ tail)" and sz: "sgSize s < 2 ^ 63"
      using st by (simp_all add: stored_def segment_image_def)
    obtain i where i: "hintPosition (index_entries (sgOffsetIndex s)) offset 72 = 72 + length (chunk_bytes (take i cs))"
      "from_offset offset (chunk_records cs) = from_offset offset (chunk_records (drop i cs))"
      by (rule hint_chunk [OF inv sz, of offset]) (rule that)
    have cs: "chunk_bytes cs = chunk_bytes (take i cs) @ chunk_bytes (drop i cs)"
      by (metis append_take_drop_id chunk_simps(6))
    obtain off where ok: "chunks_ok (pTopic p) (pPartition p) off (drop i cs)"
      using inv chunks_ok_append [of _ _ _ "take i cs" "drop i cs"] by (auto simp: segment_inv_def)
    obtain r1 f1 w1 where rs: "readSegmentFile s files w = (r1, f1, w1)" using prod_cases3 by blast
    have sg: "sgSize s = 72 + length (chunk_bytes cs)" by (rule segment_inv_fields(2) [OF inv])
    have R: "(r1 = Inr (segment_prefix (sgHeader s) @ chunk_bytes cs) \<or> wFaults w \<noteq> [] \<and> (\<exists>e. r1 = Inl e))
      \<and> (\<forall>q. content w1 q = content w q) \<and> (wFaults w = [] \<longrightarrow> w1 = w)"
      using readSegmentFile_effect [OF rs data] sg by simp
    show ?thesis
    proof (cases r1)
      case (Inl e)
      then show ?thesis using Cons.prems(2) False rs R by (auto simp: reads_as_def errorf_def)
    next
      case (Inr d)
      then have d: "d = (segment_prefix (sgHeader s) @ chunk_bytes (take i cs)) @ chunk_bytes (drop i cs)" using R cs by auto
      have "readLoop (pTopic p) (pPartition p) offset m d (72 + length (chunk_bytes (take i cs))) result
          = Inr (collectRecords offset m (chunk_records (drop i cs)) result)"
        unfolding d using readLoop_chunks [OF ok, of offset m "segment_prefix (sgHeader s) @ chunk_bytes (take i cs)"] by simp
      moreover have "collectRecords offset m (chunk_records (drop i cs)) result = collectRecords offset m (chunk_records cs) result"
        using i(2) collectRecords_skip by metis
      ultimately have run: "(r, files', w') = (case collectRecords offset m (chunk_records cs) result of
          (result, True) \<Rightarrow> (Inr result, f1, w1)
        | (result, False) \<Rightarrow> readSegments (pTopic p) (pPartition p) offset m ss result f1 w1)"
        using Cons.prems(2) False rs Inr i(1) by (auto split: prod.splits bool.splits)
      obtain res full where c: "collectRecords offset m (chunk_records cs) result = (res, full)" by (metis surj_pair)
      show ?thesis
      proof (cases full)
        case True
        then show ?thesis using run c R log by (auto simp: reads_as_def collectRecords_append)
      next
        case nf: False
        have "readSegments (pTopic p) (pPartition p) offset m ss res f1 w1 = (r, files', w')" using run c nf by simp
        then have "reads_as (Inr (fst (collectRecords offset m (log_of css) res))) [] w1 r [] w'"
          using R by (intro Cons.IH) (simp_all add: Cons.prems(1))
        then show ?thesis using R c nf log by (auto simp: reads_as_def collectRecords_append)
      qed
    qed
  qed
qed

lemma Read_log:
  assumes img: "partition_image w p css rest" and start: "log_start p \<le> offset" "offset \<le> pLogEnd p"
    and opened: "\<not> pClosed p" "\<not> pClosing p" "\<not> pUnavailable p"
    and run: "Read offset m p files w = (r, files', w')"
  shows "reads_as (Inr (take (if m = 0 then 65536 else unat m) (drop (unat offset - unat (log_start p)) (log_of css)))) [] w r [] w'"
proof -
  note N = image_numbered [OF img]
  have seg: "pSegments p \<noteq> []" using img by (auto simp: partition_image_def)
  have nl: "\<not> offset < sBaseOffset (sgHeader (hd (pSegments p)))" "\<not> pLogEnd p < offset"
    using start by (simp_all add: log_start_def not_less)
  show ?thesis
  proof (cases "offset = pLogEnd p")
    case True
    then have "r = Inr []" "w' = w" using run opened seg nl by (simp_all add: Read_def)
    moreover have "drop (unat offset - unat (log_start p)) (log_of css) = []" using True N(3) by simp
    ultimately show ?thesis by (simp add: reads_as_def)
  next
    case False
    define m' where "m' = (if m = 0 then MaxBatchRecords else m)"
    have "readSegments (pTopic p) (pPartition p) offset m' (pSegments p) [] files w = (r, files', w')"
      using run opened seg nl False by (simp add: Read_def m'_def Let_def)
    from readSegments_stored [OF image_stored [OF img] _ this]
    have "reads_as (Inr (fst (collectRecords offset m' (log_of css) []))) [] w r [] w'" by simp
    then show ?thesis
      using collectRecords_take(1) [of "[]" m' offset "log_of css"] from_offset_numbered [OF N(1,2)]
      by (simp add: m'_def split: if_splits)
  qed
qed


section \<open>Replay\<close>

lemma replayRecords_append:
  "replayRecords f (rs @ rs') off p =
     andThen (replayRecords f rs off p) (\<lambda>(off, p). replayRecords f rs' off p)"
  by (induction f rs off p rule: replayRecords.induct) (auto simp: andThen_def split: sum.splits)

lemma replayRecords_offset: "replayRecords f rs off p = Inr (off', q) \<Longrightarrow> off' = off + of_nat (length rs)"
  by (induction f rs off p rule: replayRecords.induct) (auto simp: andThen_Inr_iff split: if_splits)

lemma image_content:
  assumes "partition_image w p css tail" and "\<forall>q. content w' q = content w q"
  shows "partition_image w' p css tail"
  using image_reindexed [OF assms(1), of "pSegments p" w'] assms(2) by (simp add: list_all2_refl)

abbreviation replayed :: "(Record \<Rightarrow> 'p \<Rightarrow> 'p result) \<Rightarrow> Record list \<Rightarrow> uint64 \<Rightarrow> 'p \<Rightarrow> 'p result" where
  "replayed f rs offset projection \<equiv> andThen (replayRecords f rs offset projection) (\<lambda>(_, p). Inr p)"

lemma replayLoop_log:
  assumes "partition_image w p css rest" and opened: "\<not> pClosed p" "\<not> pClosing p" "\<not> pUnavailable p"
    and off: "log_start p \<le> offset" "offset \<le> pLogEnd p"
    and fuel: "unat (pLogEnd p) - unat offset \<le> fuel"
    and run: "replayLoop fuel f p (pLogEnd p) offset projection files w = (r, files', w')"
  shows "\<exists>res. r = Some res \<and> reads_as
    (replayed f (drop (unat offset - unat (log_start p)) (log_of css)) offset projection) [] w res [] w'"
  using assms(1) off fuel run
proof (induction fuel arbitrary: offset projection files w)
  case 0
  then have "offset = pLogEnd p" by (simp add: word_le_nat_alt word_unat_eq_iff)
  then show ?case using 0 image_numbered(3) [OF "0.prems"(1)] by (auto simp: replayLoop.simps reads_as_def)
next
  case (Suc fuel)
  note img = Suc.prems(1)
  note N = image_numbered [OF img]
  let ?k = "unat offset - unat (log_start p)"
  show ?case
  proof (cases "offset < pLogEnd p")
    case False
    then have "offset = pLogEnd p" using Suc.prems by simp
    then show ?thesis using N(3) Suc.prems(5) by (auto simp: replayLoop.simps reads_as_def)
  next
    case True
    define rs where "rs = take 65536 (drop ?k (log_of css))"
    obtain r1 files1 w1 where rd: "Read offset MaxBatchRecords p files w = (r1, files1, w1)" using prod_cases3 by blast
    have R: "reads_as (Inr rs) [] w r1 [] w1"
      using Read_log [OF img Suc.prems(2,3) opened rd] by (simp add: rs_def)
    have lt: "unat offset < unat (pLogEnd p)" "unat (log_start p) \<le> unat offset"
      using True Suc.prems(2) by (simp_all add: word_less_nat_alt word_le_nat_alt)
    then have ne: "rs \<noteq> []" using N(3) by (auto simp: rs_def)
    have split: "drop ?k (log_of css) = rs @ drop (?k + length rs) (log_of css)"
      using append_take_drop_id [of 65536 "drop ?k (log_of css)"] by (simp add: rs_def add.commute min_def)
    have len: "unat offset + length rs \<le> unat (pLogEnd p)" using lt N(3) by (simp add: rs_def)
    show ?thesis
    proof (cases r1)
      case (Inl e)
      then show ?thesis using True rd R Suc.prems(5) by (auto simp: replayLoop.simps [of "Suc fuel"] reads_as_def)
    next
      case read: (Inr rs')
      then have r1: "r1 = Inr rs" using R by (simp add: reads_as_def)
      show ?thesis
      proof (cases "replayRecords f rs offset projection")
        case (Inl e)
        then have "replayRecords f (drop ?k (log_of css)) offset projection = Inl e" by (simp add: split replayRecords_append)
        then show ?thesis using True rd R r1 ne Inl Suc.prems(5) by (auto simp: replayLoop.simps [of "Suc fuel"] reads_as_def)
      next
        case (Inr y)
        obtain q where y: "y = (offset + of_nat (length rs), q)" using replayRecords_offset Inr by (metis surj_pair)
        have u: "unat (offset + of_nat (length rs)) = unat offset + length rs"
          using len unat_uint64_less [of "pLogEnd p"] by (simp add: unat_word_ariths unat_of_nat)
        have img1: "partition_image w1 p css rest" using R by (intro image_content [OF img]) (simp add: reads_as_def)
        have run: "replayLoop fuel f p (pLogEnd p) (offset + of_nat (length rs)) q files1 w1 = (r, files', w')"
          using Suc.prems(5) True rd r1 ne Inr y by (simp add: replayLoop.simps [of "Suc fuel"])
        have "Suc 0 \<le> length rs" using ne by (cases rs) simp_all
        then have nxt: "log_start p \<le> offset + of_nat (length rs)" "offset + of_nat (length rs) \<le> pLogEnd p"
          "unat (pLogEnd p) - unat (offset + of_nat (length rs)) \<le> fuel"
          unfolding word_le_nat_alt using u len lt Suc.prems(4) by linarith+
        have "\<exists>res. r = Some res \<and> reads_as (replayed f (drop (unat (offset + of_nat (length rs)) - unat (log_start p)) (log_of css))
          (offset + of_nat (length rs)) q) [] w1 res [] w'"
          by (rule Suc.IH [OF img1 nxt run])
        moreover have "unat (offset + of_nat (length rs)) - unat (log_start p) = ?k + length rs" using u lt by simp
        moreover have "replayRecords f (drop ?k (log_of css)) offset projection
            = replayRecords f (drop (?k + length rs) (log_of css)) (offset + of_nat (length rs)) q"
          by (simp only: split replayRecords_append Inr y andThen_simps prod.case)
        ultimately show ?thesis using R by (auto simp: reads_as_def)
      qed
    qed
  qed
qed

section \<open>Projections of a log\<close>

text \<open>
  What replay relies on in a projection: applying the record that is due keeps the invariant, counts the record and
  leads to a state that extends the one before. The catalog and the offsets projection are the two instances.
\<close>

locale event_projection =
  fixes step :: "Record \<Rightarrow> 'p \<Rightarrow> 'p result"
    and revision :: "'p \<Rightarrow> uint64"
    and inv :: "'p \<Rightarrow> bool"
    and extends :: "'p \<Rightarrow> 'p \<Rightarrow> bool"
    and fresh :: 'p
  assumes step_keeps: "step r p = Inr q \<Longrightarrow> inv p \<Longrightarrow> revision p = rOffset r \<Longrightarrow> unat (rOffset r) + 1 < 2 ^ 64 \<Longrightarrow>
      inv q \<and> revision q = rOffset r + 1 \<and> extends p q"
    and extends_refl: "extends p p"
    and extends_trans: "extends p q \<Longrightarrow> extends q t \<Longrightarrow> revision p \<le> revision q \<Longrightarrow> extends p t"
    and fresh_inv: "inv fresh"
    and fresh_revision: "revision fresh = 0"
begin

lemma replay_keeps:
  assumes "replayRecords step rs off p = Inr (off', q)" and "inv p" and "revision p = off" and "unat off + length rs < 2 ^ 64"
  shows "inv q \<and> revision q = off' \<and> extends p q"
  using assms
proof (induction rs arbitrary: off p)
  case Nil
  then show ?case by (simp add: extends_refl)
next
  case (Cons r rs)
  obtain p1 where ap: "step r p = Inr p1" and r: "rOffset r = off"
    and rest: "replayRecords step rs (off + 1) p1 = Inr (off', q)"
    using Cons.prems(1) by (auto simp: andThen_Inr_iff split: if_splits)
  have p1: "inv p1" "revision p1 = off + 1" "extends p p1"
    using step_keeps [OF ap Cons.prems(2)] Cons.prems(3,4) r by simp_all
  have u: "unat (off + 1) = unat off + 1" using Cons.prems(4) by (simp add: unat_word_ariths)
  then have "inv q \<and> revision q = off' \<and> extends p1 q"
    using Cons.prems(4) by (intro Cons.IH [OF rest p1(1,2)]) simp
  moreover have "revision p \<le> revision p1" using u p1(2) Cons.prems(3) by (simp add: word_le_nat_alt)
  ultimately show ?case using extends_trans [OF p1(3)] by blast
qed

lemma history:
  assumes "replayed step (rs @ rs') 0 fresh = Inr q" and "length (rs @ rs') < 2 ^ 64"
  shows "\<exists>p. replayed step rs 0 fresh = Inr p \<and> inv p \<and> revision p = of_nat (length rs) \<and> inv q \<and> extends p q"
proof -
  obtain off p off' where a: "replayRecords step rs 0 fresh = Inr (off, p)" and b: "replayRecords step rs' off p = Inr (off', q)"
    using assms(1) by (auto simp: replayRecords_append andThen_Inr_iff)
  have off: "off = of_nat (length rs)" using replayRecords_offset [OF a] by simp
  have p: "inv p" "revision p = off" using replay_keeps [OF a fresh_inv fresh_revision] assms(2) by simp_all
  have "unat off = length rs" using off assms(2) by (simp add: unat_of_nat)
  then have "inv q \<and> extends p q" using replay_keeps [OF b p] assms(2) by simp
  then show ?thesis using a p off by simp
qed

end

section \<open>The catalog and its log\<close>

lemma newCatalogProjection_inv: "catalog_inv newCatalogProjection" "cgRevision newCatalogProjection = 0"
  by (simp_all add: catalog_inv_def newCatalogProjection_def)

interpretation cat: event_projection catalog_apply cgRevision catalog_inv catalog_extends newCatalogProjection
proof
  fix p q r
  assume e: "catalog_extends p q" "catalog_extends q r" and "cgRevision p \<le> cgRevision q"
  then have "cgRevision p \<noteq> 0 \<Longrightarrow> cgRevision q \<noteq> 0" by auto
  then show "catalog_extends p r" by (rule catalog_extends_trans [OF e])
qed (simp_all add: catalog_apply_inv due_def newCatalogProjection_inv)

text \<open>C7. History is kept: when a catalog log replays, so does every prefix of it, the revision of the
  projection is the number of records applied, both projections satisfy the catalog invariant (names and ids agree,
  partitions are numbered, the retired segments of each partition run without gap up to its retained start), and the
  later one extends the earlier: no topic disappears or changes its name, identity, policies or anchors, and
  retained starts only move forward.\<close>

theorem catalog_history:
  assumes "replayed catalog_apply (rs @ rs') 0 newCatalogProjection = Inr q" and "length (rs @ rs') < 2 ^ 64"
  shows "\<exists>p. replayed catalog_apply rs 0 newCatalogProjection = Inr p
    \<and> catalog_inv p \<and> cgRevision p = of_nat (length rs) \<and> catalog_inv q \<and> catalog_extends p q"
  by (rule cat.history [OF assms])

lemma catalog_replay_log:
  assumes img: "partition_image w p css rest" and start: "log_start p = 0" and "pLogEnd p \<noteq> 0"
    and opened: "\<not> pClosed p" "\<not> pClosing p" "\<not> pUnavailable p"
    and run: "catalog_replay p newCatalogProjection files w = (r, files', w')"
  shows "\<exists>res. r = Some res \<and> reads_as (replayed catalog_apply (log_of css) 0 newCatalogProjection) [] w res [] w'"
proof -
  obtain r1 files1 w1 where l: "replayLoop (unat (pLogEnd p)) catalog_apply p (pLogEnd p) 0 newCatalogProjection files w = (r1, files1, w1)"
    using prod_cases3 by blast
  obtain res where r1: "r1 = Some res" and R: "reads_as (replayed catalog_apply (log_of css) 0 newCatalogProjection) [] w res [] w1"
    using replayLoop_log [OF img opened _ _ _ l] start by auto
  have e: "EndOffset p = Inr (pLogEnd p)" using opened by (simp add: EndOffset_def)
  show ?thesis
  proof (cases res)
    case (Inl x)
    then show ?thesis using run l r1 R e by (auto simp: catalog_replay_def)
  next
    case (Inr q)
    then have "replayed catalog_apply (log_of css) 0 newCatalogProjection = Inr q" using R by (simp add: reads_as_def)
    then obtain off where "replayRecords catalog_apply (log_of css) 0 newCatalogProjection = Inr (off, q)"
      by (auto simp: andThen_Inr_iff)
    then have "cgRevision q = off" "off = of_nat (length (log_of css))"
      using cat.replay_keeps [OF _ newCatalogProjection_inv] image_numbered(2) [OF img] start replayRecords_offset by fastforce+
    moreover have "unat (pLogEnd p) = length (log_of css)" using image_numbered(3) [OF img] start by simp
    moreover have "pLogEnd p = of_nat (unat (pLogEnd p))" by simp
    ultimately have "cgRevision q \<noteq> 0" using assms(3) by metis
    then show ?thesis using run l r1 R e Inr by (auto simp: catalog_replay_def)
  qed
qed

text \<open>C8. Replaying the catalog partition of a store applies exactly the records of its durable log, in
  order and each once, for any number of segments and reads; the loop ends, and only a file-system failure can make the
  outcome differ from that of the log. Files are not changed.\<close>

theorem catalog_replay_exact:
  assumes img: "partition_image w p css rest" and start: "log_start p = 0" and "pLogEnd p \<noteq> 0"
    and opened: "\<not> pClosed p" "\<not> pClosing p" "\<not> pUnavailable p"
    and run: "catalog_replay p newCatalogProjection files w = (r, files', w')"
  shows "\<exists>res. r = Some res \<and> reads_as (replayed catalog_apply (log_of css) 0 newCatalogProjection) [] w res [] w'"
  by (rule catalog_replay_log [OF assms])

section \<open>An initialised catalog\<close>

text \<open>A log with one segment and one batch, as written by a store's first append.\<close>

definition first_batch :: "TopicID \<Rightarrow> Record list \<Rightarrow> RecordBatch" where
  "first_batch t rs = \<lparr>bTopic = t, bPartition = 0, bBaseOffset = 0, bRecords = rs\<rparr>"

definition first_chunks :: "TopicID \<Rightarrow> Record list \<Rightarrow> chunk list" where
  "first_chunks t rs = [(batch_bytes (zero_pads rs) (first_batch t rs), first_batch t rs)]"

definition first_header :: "TopicID \<Rightarrow> SegmentHeader" where
  "first_header t = \<lparr>sTopic = t, sPartition = 0, sBaseOffset = 0, sID = 9\<rparr>"

definition first_path :: "path \<Rightarrow> path" where
  "first_path dir = path_join dir (segment_name 0)"

definition first_file :: "path \<Rightarrow> TopicID \<Rightarrow> Record list \<Rightarrow> path \<times> bytes" where
  "first_file dir t rs = (first_path dir, segment_image (first_header t) (first_chunks t rs))"

definition first_partition :: "path \<Rightarrow> TopicID \<Rightarrow> Record list \<Rightarrow> Partition" where
  "first_partition dir t rs = example_partition\<lparr>pDir := dir, pTopic := t, pPartition := 0,
     pSegments := [recovered_segment (first_path dir) (first_header t) (first_chunks t rs)], pLogEnd := of_nat (length rs)\<rparr>"

lemma first_chunks_ok:
  assumes "encodable_batch (first_batch t rs)"
  shows "chunks_ok t 0 0 (first_chunks t rs)" and "length (chunk_bytes (first_chunks t rs)) \<le> 1073741824"
proof -
  have "EncodeBatch (first_batch t rs) = Inr (batch_bytes (zero_pads rs) (first_batch t rs))"
    using assms by (simp add: EncodeBatch_Inr_iff first_batch_def)
  note d = decode_encoded [OF this]
  then show "chunks_ok t 0 0 (first_chunks t rs)" by (simp add: first_chunks_def) (simp add: first_batch_def)
  show "length (chunk_bytes (first_chunks t rs)) \<le> 1073741824"
    using DecodeBatch_facts(3) [OF d] by (simp add: first_chunks_def chunk_bytes_def)
qed

lemma first_image:
  assumes "encodable_batch (first_batch t rs)" and "content w (first_path dir) = Some (segment_image (first_header t) (first_chunks t rs))"
    and "log_paths w dir = {first_path dir}"
  shows "partition_inv w (first_partition dir t rs) [first_chunks t rs]"
proof -
  let ?s = "recovered_segment (first_path dir) (first_header t) (first_chunks t rs)"
  note ok = first_chunks_ok [OF assms(1)]
  have t: "t \<noteq> 0" using assms(1) by (simp add: encodable_batch_def first_batch_def)
  have f: "sgPath ?s = first_path dir" "sgHeader ?s = first_header t" "sgOffsetIndex ?s = None" "sgTimeIndex ?s = None"
    "segment_core ?s = ?s" by (simp_all add: recovered_segment_def Let_def segment_core_def)
  have inv: "segment_inv t 0 dir ?s (first_chunks t rs)"
    unfolding segment_inv_def f using ok(1) t by (simp add: first_header_def first_path_def valid_header_def)
  have "sgSize ?s < 2 ^ 63" "sgEnd ?s = of_nat (length rs)"
    using ok(2) by (simp_all add: recovered_fields first_header_def) (simp add: first_chunks_def chunk_records_def first_batch_def)
  then show ?thesis
    using inv assms(2,3) by (simp add: partition_image_def stored_def first_partition_def example_partition_def f)
qed

lemma first_partition_facts [simp]:
  "log_start (first_partition dir t rs) = 0" "pLogEnd (first_partition dir t rs) = of_nat (length rs)"
  "\<not> pClosed (first_partition dir t rs)" "\<not> pClosing (first_partition dir t rs)" "\<not> pUnavailable (first_partition dir t rs)"
  by (simp_all add: first_partition_def log_start_def recovered_segment_def first_header_def example_partition_def Let_def)

lemma first_log: "log_of [first_chunks t rs] = rs"
  by (simp add: log_of_def first_chunks_def chunk_records_def first_batch_def)

definition init_event :: storeInitializedEvent where
  "init_event = \<lparr>siStoreID = 3, siCatalogInitial = example_anchor, siOffsetsInitial = example_anchor,
     siCatalogConfig = systemPartitionConfig, siOffsetsConfig = systemPartitionConfig\<rparr>"

definition init_record :: Record where
  "init_record = \<lparr>rTopic = ClusterMetadataTopicID, rPartition = 0, rOffset = 0, rTimestamp = 0, rKey = None,
     rValue = Some (envelope (event_code EventStoreInitialized) (init_fields init_event)), rHeaders = []\<rparr>"

definition topic_record :: Record where
  "topic_record = init_record\<lparr>rOffset := 1,
     rValue := Some (envelope (event_code EventTopicCreated) (topic_fields example_topic_event))\<rparr>"

lemma init_applied: "\<exists>p. catalog_apply init_record newCatalogProjection = Inr p \<and> cgRevision p = 1 \<and> cgStoreID p = 3
  \<and> cgTopicsByID p = Map.empty \<and> cgTopicsByName p = Map.empty"
proof -
  have "decodeSystemEvent init_record ClusterMetadataTopicID = Inr (event_code EventStoreInitialized, init_fields init_event)"
    by (simp add: decodeSystemEvent_Inr_iff init_record_def eventBelongsToTopic_def)
  moreover have "decodeStoreInitializedPayload (init_fields init_event) = Inr init_event"
    by (simp add: decodeStoreInitializedPayload_Inr_iff init_event_def config_ok_systemPartitionConfig example_anchor_def anchor_ok_def)
  ultimately show ?thesis
    by (simp add: catalog_apply_def applyStoreInitialized_def init_record_def newCatalogProjection_def init_event_def)
qed

lemma init_encodable: "encodable_batch (first_batch ClusterMetadataTopicID [init_record])"
  by (simp add: encodable_batch_def first_batch_def record_in_batch_def encodable_record_def init_record_def
      records_length_def record_length_def record_tail_def nullable_bytes_def envelope_def)

lemma topic_applied:
  assumes "cgRevision p = 1" "cgStoreID p = 3" "cgTopicsByID p = Map.empty" "cgTopicsByName p = Map.empty"
  shows "\<exists>q t. catalog_apply topic_record p = Inr q \<and> cgRevision q = 2 \<and> cgTopicsByID q 77 = Some t
    \<and> length (tdPartitions (ctDescriptor t)) = 1 \<and> ctCreationOffset t = 1"
proof -
  have "decodeSystemEvent topic_record ClusterMetadataTopicID = Inr (event_code EventTopicCreated, topic_fields example_topic_event)"
    by (simp add: decodeSystemEvent_Inr_iff init_record_def topic_record_def eventBelongsToTopic_def topic_fields_def
      example_topic_event_def topic_partition_bytes_def string_bytes_def anchor_bytes_def)
  moreover have "decodeTopicCreatedPayload (topic_fields example_topic_event) = Inr example_topic_event"
    unfolding decodeTopicCreatedPayload_Inr_iff using topic_event_ok_example
    by (simp add: example_topic_event_def validTopicName_def)
  ultimately show ?thesis using assms
    by (simp add: catalog_apply_def applyTopicCreated_def topic_record_def example_topic_event_def)
qed


lemma newTopicID_reserved:
  "newTopicID (Inr 0) = Inr ClusterMetadataTopicID" "newTopicID (Inr ClusterMetadataTopicID) = Inr 0"
  by code_simp+

theorem catalog_history_witness:
  "\<exists>p q. replayed catalog_apply [init_record, topic_record] 0 newCatalogProjection = Inr q
    \<and> replayed catalog_apply [init_record] 0 newCatalogProjection = Inr p
    \<and> catalog_inv p \<and> cgRevision p = 1 \<and> catalog_inv q \<and> catalog_extends p q"
proof -
  obtain p where p: "catalog_apply init_record newCatalogProjection = Inr p" "cgRevision p = 1" "cgStoreID p = 3"
    "cgTopicsByID p = Map.empty" "cgTopicsByName p = Map.empty" using init_applied by blast
  obtain q where q: "catalog_apply topic_record p = Inr q" using topic_applied [OF p(2-5)] by blast
  have r: "replayed catalog_apply ([init_record] @ [topic_record]) 0 newCatalogProjection = Inr q"
    by (simp add: p q init_record_def [THEN arg_cong [where f = rOffset]] topic_record_def [THEN arg_cong [where f = rOffset]])
  then show ?thesis using catalog_history [OF r] by simp
qed

definition catalog_world :: world where
  "catalog_world = \<lparr>wFiles = [first_file [0x64] ClusterMetadataTopicID [init_record]], wFaults = []\<rparr>"

lemma catalog_world_image:
  "partition_inv catalog_world (first_partition [0x64] ClusterMetadataTopicID [init_record]) [first_chunks ClusterMetadataTopicID [init_record]]"
  by (rule first_image [OF init_encodable])
    (auto simp: catalog_world_def first_file_def content_def log_paths_def first_path_def)

theorem catalog_replay_exact_witness:
  "\<exists>files w q. catalog_replay (first_partition [0x64] ClusterMetadataTopicID [init_record]) newCatalogProjection None
      catalog_world = (Some (Inr q), files, w) \<and> cgStoreID q = 3"
proof -
  let ?p = "first_partition [0x64] ClusterMetadataTopicID [init_record]"
  obtain q where q: "catalog_apply init_record newCatalogProjection = Inr q" "cgStoreID q = 3" using init_applied by blast
  then have spec: "replayed catalog_apply [init_record] 0 newCatalogProjection = Inr q"
    by (simp add: init_record_def [THEN arg_cong [where f = rOffset]])
  obtain r files w where run: "catalog_replay ?p newCatalogProjection None catalog_world = (r, files, w)" using prod_cases3 by blast
  have "log_start ?p = 0" "pLogEnd ?p \<noteq> 0" "\<not> pClosed ?p" "\<not> pClosing ?p" "\<not> pUnavailable ?p" by simp_all
  from catalog_replay_exact [OF catalog_world_image this run]
  show ?thesis using run q spec by (auto simp: first_log reads_as_def catalog_world_def)
qed

end
