(* ===== verification/Offsets.thy ===== *)
theory Offsets
  imports Catalog_Log
begin

text \<open>
  The consumer-offsets projection of \<open>src/storage/offsets_projection.go\<close>: groups, assignments and commits applied
  from the events of the offsets log, and their replay, with the event bodies that \<open>src/storage/consumer.go\<close> writes.
  A projection is never nil here: the callers always pass one.
\<close>

section \<open>State\<close>

record offsetProgress =
  opInitialNext :: uint64
  opHasCommit :: bool
  opCommittedNext :: uint64

record offsetGroup =
  ogCreationOffset :: uint64
  ogCreationBody :: bytes
  ogGeneration :: uint64
  ogAssignmentOffset :: uint64
  ogAssignmentBody :: bytes
  ogAssignmentOwner :: "topicKey \<rightharpoonup> id16"
  ogAssignmentMember :: "id16 set"
  ogAssignmentInstance :: id16
  ogCreationStartMode :: byte
  ogExplicitStarts :: "topicKey \<rightharpoonup> uint64"
  ogProgress :: "topicKey \<rightharpoonup> offsetProgress"

record offsetsProjection =
  ofStoreID :: StoreID
  ofRevision :: uint64
  ofGroups :: "bytes \<rightharpoonup> offsetGroup"

definition newOffsetsProjection :: "StoreID \<Rightarrow> offsetsProjection" where
  "newOffsetsProjection storeID = \<lparr>ofStoreID = storeID, ofRevision = 0, ofGroups = Map.empty\<rparr>"

definition maxGroupIDBytes :: nat where [simp]: "maxGroupIDBytes = 255"

definition latestNext :: "offsetProgress \<Rightarrow> uint64" where
  "latestNext progress = (if opHasCommit progress then opCommittedNext progress else opInitialNext progress)"

definition catalogPartition :: "catalogProjection \<Rightarrow> topicKey \<Rightarrow> uint64 \<Rightarrow> TopicPartition result" where
  "catalogPartition catalog key catalogNext =
     (case cgTopicsByID catalog (tkTopic key) of
        None \<Rightarrow> Inl (corrupt ErrInvalidRecord)
      | Some topic \<Rightarrow>
          if tkPartition key \<ge> of_nat (length (tdPartitions (ctDescriptor topic))) then Inl (corrupt ErrInvalidRecord)
          else if ctCreationOffset topic + 1 > catalogNext then Inl (corrupt ErrInvalidRecord)
          else Inr (tdPartitions (ctDescriptor topic) ! unat (tkPartition key)))"

text \<open>A key of a canonical list comes after the previous one; \<open>None\<close> before the first.\<close>

definition not_after :: "topicKey option \<Rightarrow> topicKey \<Rightarrow> bool" where
  "not_after previous key = (case previous of None \<Rightarrow> False | Some p \<Rightarrow> compareTopicKey p key \<ge> 0)"

definition session_not_after :: "id16 option \<Rightarrow> id16 \<Rightarrow> bool" where
  "session_not_after previous session =
     (case previous of None \<Rightarrow> False | Some p \<Rightarrow> bytes_Compare (id_bytes p) (id_bytes session) \<ge> 0)"

section \<open>Group creation\<close>

fun groupStarts ::
  "catalogProjection \<Rightarrow> uint64 \<Rightarrow> nat \<Rightarrow> topicKey option \<Rightarrow> (topicKey \<rightharpoonup> uint64) \<Rightarrow> eventCursor
     \<Rightarrow> ((topicKey \<rightharpoonup> uint64) \<times> eventCursor) result" where
  "groupStarts catalog catalogNext 0 previous explicit c = Inr (explicit, c)"
| "groupStarts catalog catalogNext (Suc n) previous explicit c =
     andThen (decodeTopicKey c) (\<lambda>(key, c).
       if not_after previous key then Inl (corrupt ErrInvalidRecord)
       else
         andThen (catalogPartition catalog key catalogNext) (\<lambda>_.
         andThen (event_u64 c) (\<lambda>(next, c).
           groupStarts catalog catalogNext n (Some key) (explicit(key \<mapsto> next)) c)))"

definition applyGroupCreated ::
  "uint64 \<Rightarrow> bytes \<Rightarrow> eventCursor \<Rightarrow> catalogProjection \<Rightarrow> uint64 \<Rightarrow> offsetsProjection \<Rightarrow> offsetsProjection result" where
  "applyGroupCreated offset payload c catalog catalogNext projection =
     andThen (event_stringValue maxGroupIDBytes c) (\<lambda>(groupID, c).
       if ofGroups projection groupID \<noteq> None then Inl (corrupt ErrInvalidRecord)
       else
         andThen (event_u8 c) (\<lambda>(startMode, c).
           if startMode < 1 \<or> startMode > 3 then Inl unsupported
           else
             andThen (expectReserved c) (\<lambda>(_, c).
             andThen (event_u32 c) (\<lambda>(count, c).
               if (startMode = 1 \<or> startMode = 2) \<and> count \<noteq> 0 \<or> startMode = 3 \<and> count = 0
               then Inl (corrupt ErrInvalidRecord)
               else
                 andThen (groupStarts catalog catalogNext (unat count) None Map.empty c) (\<lambda>(explicit, c).
                 andThen (finishEvent c) (\<lambda>_.
                   let grp = \<lparr>ogCreationOffset = offset, ogCreationBody = payload, ogGeneration = 0,
                         ogAssignmentOffset = 0, ogAssignmentBody = [], ogAssignmentOwner = Map.empty,
                         ogAssignmentMember = {}, ogAssignmentInstance = 0, ogCreationStartMode = startMode,
                         ogExplicitStarts = explicit, ogProgress = Map.empty\<rparr>
                   in Inr (projection\<lparr>ofGroups := (ofGroups projection)(groupID \<mapsto> grp),
                             ofRevision := offset + 1\<rparr>)))))))"

section \<open>Assignments\<close>

fun memberSubscriptions ::
  "catalogProjection \<Rightarrow> uint64 \<Rightarrow> id16 \<Rightarrow> nat \<Rightarrow> topicKey option \<Rightarrow> (topicKey \<rightharpoonup> id16) \<Rightarrow> eventCursor
     \<Rightarrow> ((topicKey \<rightharpoonup> id16) \<times> eventCursor) result" where
  "memberSubscriptions catalog catalogNext session 0 previous subscribed c = Inr (subscribed, c)"
| "memberSubscriptions catalog catalogNext session (Suc n) previous subscribed c =
     andThen (decodeTopicKey c) (\<lambda>(key, c).
       if not_after previous key then Inl (corrupt ErrInvalidRecord)
       else
         andThen (catalogPartition catalog key catalogNext) (\<lambda>_.
           if subscribed key \<noteq> None then Inl (corrupt ErrInvalidRecord)
           else memberSubscriptions catalog catalogNext session n (Some key) (subscribed(key \<mapsto> session)) c))"

fun assignmentMembers ::
  "catalogProjection \<Rightarrow> uint64 \<Rightarrow> nat \<Rightarrow> id16 option \<Rightarrow> id16 set \<Rightarrow> (topicKey \<rightharpoonup> id16) \<Rightarrow> eventCursor
     \<Rightarrow> (id16 set \<times> (topicKey \<rightharpoonup> id16) \<times> eventCursor) result" where
  "assignmentMembers catalog catalogNext 0 previous members subscribed c = Inr (members, subscribed, c)"
| "assignmentMembers catalog catalogNext (Suc n) previous members subscribed c =
     andThen (requireID c) (\<lambda>(session, c).
       if session_not_after previous session then Inl (corrupt ErrInvalidRecord)
       else
         andThen (event_u32 c) (\<lambda>(subscriptions, c).
         andThen (memberSubscriptions catalog catalogNext session (unat subscriptions) None subscribed c)
           (\<lambda>(subscribed, c).
             assignmentMembers catalog catalogNext n (Some session) (insert session members) subscribed c)))"

text \<open>A key that is missing from a map of session identifiers reads as the zero identifier.\<close>

definition owner_of :: "(topicKey \<rightharpoonup> id16) \<Rightarrow> topicKey \<Rightarrow> id16" where
  "owner_of m key = (case m key of None \<Rightarrow> 0 | Some s \<Rightarrow> s)"

fun assignmentOwners ::
  "(topicKey \<rightharpoonup> id16) \<Rightarrow> nat \<Rightarrow> topicKey option \<Rightarrow> (topicKey \<rightharpoonup> id16) \<Rightarrow> (topicKey \<rightharpoonup> offsetProgress) \<Rightarrow> eventCursor
     \<Rightarrow> ((topicKey \<rightharpoonup> id16) \<times> (topicKey \<rightharpoonup> offsetProgress) \<times> eventCursor) result" where
  "assignmentOwners subscribed 0 previous owners progress c = Inr (owners, progress, c)"
| "assignmentOwners subscribed (Suc n) previous owners progress c =
     andThen (decodeTopicKey c) (\<lambda>(key, c).
       if not_after previous key then Inl (corrupt ErrInvalidRecord)
       else
         andThen (requireID c) (\<lambda>(owner, c).
           if owner_of subscribed key \<noteq> owner then Inl (corrupt ErrInvalidRecord)
           else
             andThen (event_u64 c) (\<lambda>(resume, c).
             andThen (event_u8 c) (\<lambda>(action, c).
               if action > 1 then Inl unsupported
               else
                 andThen (expectReserved c) (\<lambda>(_, c).
                 andThen (event_u64 c) (\<lambda>(initial, c).
                   if action = 1 then
                     (if progress key \<noteq> None \<or> initial \<noteq> resume then Inl (corrupt ErrInvalidRecord)
                      else assignmentOwners subscribed n (Some key) (owners(key \<mapsto> owner))
                             (progress(key \<mapsto> \<lparr>opInitialNext = initial, opHasCommit = False, opCommittedNext = 0\<rparr>)) c)
                   else
                     (case progress key of
                        None \<Rightarrow> Inl (corrupt ErrInvalidRecord)
                      | Some pr \<Rightarrow>
                          if initial \<noteq> 0 \<or> resume \<noteq> latestNext pr then Inl (corrupt ErrInvalidRecord)
                          else assignmentOwners subscribed n (Some key) (owners(key \<mapsto> owner)) progress c)))))))"

definition applyAssignment ::
  "uint64 \<Rightarrow> bytes \<Rightarrow> eventCursor \<Rightarrow> catalogProjection \<Rightarrow> uint64 \<Rightarrow> offsetsProjection \<Rightarrow> offsetsProjection result" where
  "applyAssignment offset payload c catalog catalogNext projection =
     andThen (event_stringValue maxGroupIDBytes c) (\<lambda>(groupID, c).
       case ofGroups projection groupID of
         None \<Rightarrow> Inl (corrupt ErrInvalidRecord)
       | Some grp \<Rightarrow>
           andThen (requireID c) (\<lambda>(instance_id, c).
           andThen (event_u64 c) (\<lambda>(expected, c).
           andThen (event_u64 c) (\<lambda>(newGeneration, c).
             if expected \<noteq> ogGeneration grp \<or> newGeneration \<noteq> expected + 1 then Inl (corrupt ErrInvalidRecord)
             else
               andThen (event_u8 c) (\<lambda>(_, c).
               andThen (expectReserved c) (\<lambda>(_, c).
               andThen (event_u32 c) (\<lambda>(members, c).
               andThen (assignmentMembers catalog catalogNext (unat members) None {} Map.empty c)
                 (\<lambda>(memberIDs, subscribed, c).
               andThen (event_u32 c) (\<lambda>(assignments, c).
               andThen (assignmentOwners subscribed (unat assignments) None Map.empty (ogProgress grp) c)
                 (\<lambda>(owners, progressState, c).
                   if card (dom owners) \<noteq> card (dom subscribed) then Inl (corrupt ErrInvalidRecord)
                   else
                     andThen (finishEvent c) (\<lambda>_.
                       let grp = grp\<lparr>ogProgress := progressState, ogGeneration := newGeneration,
                             ogAssignmentOffset := offset, ogAssignmentBody := payload, ogAssignmentOwner := owners,
                             ogAssignmentMember := memberIDs, ogAssignmentInstance := instance_id\<rparr>
                       in Inr (projection\<lparr>ofGroups := (ofGroups projection)(groupID \<mapsto> grp),
                                 ofRevision := offset + 1\<rparr>)))))))))))) "

section \<open>Commits\<close>

definition applyCommit ::
  "uint64 \<Rightarrow> eventCursor \<Rightarrow> catalogProjection \<Rightarrow> uint64 \<Rightarrow> offsetsProjection \<Rightarrow> offsetsProjection result" where
  "applyCommit offset c catalog catalogNext projection =
     andThen (event_stringValue maxGroupIDBytes c) (\<lambda>(groupID, c).
       case ofGroups projection groupID of
         None \<Rightarrow> Inl (corrupt ErrInvalidRecord)
       | Some grp \<Rightarrow>
           andThen (requireID c) (\<lambda>(instance_id, c).
           andThen (requireID c) (\<lambda>(session, c).
           andThen (event_u64 c) (\<lambda>(generation, c).
           andThen (decodeTopicKey c) (\<lambda>(key, c).
           andThen (event_u8 c) (\<lambda>(previousKind, c).
             if previousKind > 1 then Inl unsupported
             else
               andThen (expectReserved c) (\<lambda>(_, c).
               andThen (event_u64 c) (\<lambda>(expectedPrevious, c).
               andThen (event_u64 c) (\<lambda>(next, c).
               andThen (finishEvent c) (\<lambda>_.
               andThen (catalogPartition catalog key catalogNext) (\<lambda>_.
                 case ogProgress grp key of
                   None \<Rightarrow> Inl (corrupt ErrInvalidRecord)
                 | Some progress \<Rightarrow>
                     if generation \<noteq> ogGeneration grp \<or> ogAssignmentOwner grp key \<noteq> Some session
                        \<or> instance_id \<noteq> ogAssignmentInstance grp
                     then Inl (corrupt ErrInvalidRecord)
                     else if (if previousKind = 0 then opHasCommit progress \<or> expectedPrevious \<noteq> opInitialNext progress
                              else \<not> opHasCommit progress \<or> expectedPrevious \<noteq> opCommittedNext progress)
                     then Inl (corrupt ErrInvalidRecord)
                     else if next < expectedPrevious then Inl (corrupt ErrInvalidRecord)
                     else
                       let grp = grp\<lparr>ogProgress := (ogProgress grp)
                             (key \<mapsto> progress\<lparr>opHasCommit := True, opCommittedNext := next\<rparr>)\<rparr>
                       in Inr (projection\<lparr>ofGroups := (ofGroups projection)(groupID \<mapsto> grp),
                                 ofRevision := offset + 1\<rparr>))))))))))))"

section \<open>Replay\<close>

definition offsets_apply :: "catalogProjection \<Rightarrow> Record \<Rightarrow> offsetsProjection \<Rightarrow> offsetsProjection result" where
  "offsets_apply catalog record projection =
     andThen (decodeSystemEvent record ConsumerOffsetsTopicID) (\<lambda>(eventType, payload).
     andThen (event_id (event_cursor payload)) (\<lambda>(encodedStore, c).
       if encodedStore \<noteq> ofStoreID projection then Inl (corrupt ErrInvalidRecord)
       else
         andThen (event_u64 c) (\<lambda>(catalogNext, c).
           if catalogNext = 0 \<or> catalogNext > cgRevision catalog then Inl (corrupt ErrInvalidRecord)
           else if eventType = event_code EventGroupCreated
           then applyGroupCreated (rOffset record) payload c catalog catalogNext projection
           else if eventType = event_code EventLocalAssignmentChanged
           then applyAssignment (rOffset record) payload c catalog catalogNext projection
           else if eventType = event_code EventOffsetCommitted
           then applyCommit (rOffset record) c catalog catalogNext projection
           else Inl (corrupt ErrInvalidRecord))))"

definition replayOffsetsHistory ::
  "Partition \<Rightarrow> StoreID \<Rightarrow> catalogProjection \<Rightarrow> segmentFileCache option \<Rightarrow> world
     \<Rightarrow> offsetsProjection result option \<times> segmentFileCache option \<times> world" where
  "replayOffsetsHistory p storeID catalog files w =
     (case EndOffset p of
        Inl e \<Rightarrow> (Some (Inl e), files, w)
      | Inr end \<Rightarrow> replayLoop (unat end) (offsets_apply catalog) p end 0 (newOffsetsProjection storeID) files w)"

section \<open>Event bodies\<close>

definition GroupStartEarliest :: byte where [simp]: "GroupStartEarliest = 1"
definition GroupStartLatest :: byte where [simp]: "GroupStartLatest = 2"
definition GroupStartExplicit :: byte where [simp]: "GroupStartExplicit = 3"

definition encodeGroupCreatedBody ::
  "StoreID \<Rightarrow> uint64 \<Rightarrow> bytes \<Rightarrow> byte \<Rightarrow> topicKey \<Rightarrow> uint64 \<Rightarrow> bytes result" where
  "encodeGroupCreatedBody storeID catalogNext groupID start key initial =
     (let body = id_bytes storeID;
          body = appendU64 body catalogNext
      in andThen (appendString body groupID maxGroupIDBytes) (\<lambda>body.
           let body = body @ [start, 0, 0, 0]
           in if start = GroupStartExplicit then
                let body = appendEventU32 body 1;
                    body = appendID body (tkTopic key);
                    body = appendEventU32 body (tkPartition key);
                    body = appendU64 body initial
                in Inr body
              else Inr (appendEventU32 body 0)))"

definition encodeAssignmentBody ::
  "StoreID \<Rightarrow> uint64 \<Rightarrow> bytes \<Rightarrow> id16 \<Rightarrow> uint64 \<Rightarrow> byte \<Rightarrow> topicKey \<Rightarrow> uint64 \<Rightarrow> bool \<Rightarrow> bytes result" where
  "encodeAssignmentBody storeID catalogNext groupID session generation reason key resume createBaseline =
     (let body = id_bytes storeID;
          body = appendU64 body catalogNext
      in andThen (appendString body groupID maxGroupIDBytes) (\<lambda>body.
           let body = appendID body storeID;
               body = appendU64 body generation;
               body = appendU64 body (generation + 1);
               body = body @ [reason, 0, 0, 0];
               body = appendEventU32 body 1;
               body = appendID body session;
               body = appendEventU32 body 1;
               body = appendID body (tkTopic key);
               body = appendEventU32 body (tkPartition key);
               body = appendEventU32 body 1;
               body = appendID body (tkTopic key);
               body = appendEventU32 body (tkPartition key);
               body = appendID body session;
               body = appendU64 body resume
           in if createBaseline then Inr (appendU64 (body @ [1, 0, 0, 0]) resume)
              else Inr (appendU64 (body @ [0, 0, 0, 0]) 0)))"

definition encodeEmptyAssignmentBody :: "StoreID \<Rightarrow> uint64 \<Rightarrow> bytes \<Rightarrow> uint64 \<Rightarrow> bytes result" where
  "encodeEmptyAssignmentBody storeID catalogNext groupID generation =
     (let body = id_bytes storeID;
          body = appendU64 body catalogNext
      in andThen (appendString body groupID maxGroupIDBytes) (\<lambda>body.
           let body = appendID body storeID;
               body = appendU64 body generation;
               body = appendU64 body (generation + 1);
               body = body @ [2, 0, 0, 0];
               body = appendEventU32 body 0
           in Inr (appendEventU32 body 0)))"

definition encodeCommitBody ::
  "StoreID \<Rightarrow> uint64 \<Rightarrow> bytes \<Rightarrow> id16 \<Rightarrow> uint64 \<Rightarrow> topicKey \<Rightarrow> offsetProgress \<Rightarrow> uint64 \<Rightarrow> bytes result" where
  "encodeCommitBody storeID catalogNext groupID session generation key progress nextOffset =
     (let body = id_bytes storeID;
          body = appendU64 body catalogNext
      in andThen (appendString body groupID maxGroupIDBytes) (\<lambda>body.
           let body = appendID body storeID;
               body = appendID body session;
               body = appendU64 body generation;
               body = appendID body (tkTopic key);
               body = appendEventU32 body (tkPartition key);
               body = (if opHasCommit progress then appendU64 (body @ [1, 0, 0, 0]) (opCommittedNext progress)
                       else appendU64 (body @ [0, 0, 0, 0]) (opInitialNext progress))
           in Inr (appendU64 body nextOffset)))"

section \<open>Later catalogs\<close>

text \<open>What an event needs of the catalog is still there in every later catalog, so that it is applied with
  the same effect.\<close>

definition catalog_later :: "catalogProjection \<Rightarrow> catalogProjection \<Rightarrow> bool" where
  "catalog_later c d \<longleftrightarrow> catalog_extends c d \<and> cgRevision c \<le> cgRevision d"

lemma catalogPartition_later:
  assumes "catalogPartition c key n = Inr x" and "catalog_later c d"
  shows "\<exists>y. catalogPartition d key n = Inr y"
proof -
  obtain s where s: "cgTopicsByID c (tkTopic key) = Some s" "\<not> tkPartition key \<ge> of_nat (length (tdPartitions (ctDescriptor s)))"
    "\<not> ctCreationOffset s + 1 > n"
    using assms(1) by (auto simp: catalogPartition_def split: option.splits if_splits)
  have "\<forall>i s. cgTopicsByID c i = Some s \<longrightarrow> (\<exists>t. cgTopicsByID d i = Some t \<and> topic_extends s t)"
    using assms(2) by (simp add: catalog_later_def catalog_extends_def)
  then obtain t where t: "cgTopicsByID d (tkTopic key) = Some t" and e: "topic_extends s t" using s(1) by blast
  have "length (tdPartitions (ctDescriptor t)) = length (tdPartitions (ctDescriptor s))" "ctCreationOffset t = ctCreationOffset s"
    using e by (auto simp: topic_extends_def dest: list_all2_lengthD)
  then show ?thesis using s t by (simp add: catalogPartition_def)
qed

lemma groupStarts_later:
  "groupStarts c n k previous m cur = Inr r \<Longrightarrow> catalog_later c d \<Longrightarrow> groupStarts d n k previous m cur = Inr r"
  by (induction c n k previous m cur rule: groupStarts.induct)
    (fastforce simp: andThen_Inr_iff split: if_splits dest: catalogPartition_later)+

lemma memberSubscriptions_later:
  "memberSubscriptions c n s k previous m cur = Inr r \<Longrightarrow> catalog_later c d \<Longrightarrow> memberSubscriptions d n s k previous m cur = Inr r"
  by (induction c n s k previous m cur rule: memberSubscriptions.induct)
    (fastforce simp: andThen_Inr_iff split: if_splits dest: catalogPartition_later)+

lemma assignmentMembers_later:
  "assignmentMembers c n k previous ms m cur = Inr r \<Longrightarrow> catalog_later c d \<Longrightarrow> assignmentMembers d n k previous ms m cur = Inr r"
  by (induction c n k previous ms m cur rule: assignmentMembers.induct)
    (fastforce simp: andThen_Inr_iff split: if_splits dest: memberSubscriptions_later)+


lemma catalog_check_later:
  assumes "catalog_later c d" and "andThen (catalogPartition c key n) (\<lambda>_. x) = Inr q"
  shows "andThen (catalogPartition d key n) (\<lambda>_. x) = Inr q"
  using assms catalogPartition_later by (fastforce simp: andThen_Inr_iff)

lemma applyGroupCreated_later:
  assumes "applyGroupCreated off pay cur c n p = Inr q" and "catalog_later c d"
  shows "applyGroupCreated off pay cur d n p = Inr q"
  using assms(1) unfolding applyGroupCreated_def
  by (elim andThen_later branch_later) (rule check_later [OF groupStarts_later [OF _ assms(2)]])

lemma applyAssignment_later:
  assumes "applyAssignment off pay cur c n p = Inr q" and "catalog_later c d"
  shows "applyAssignment off pay cur d n p = Inr q"
  using assms(1) unfolding applyAssignment_def
  by (elim andThen_later branch_later) (rule check_later [OF assignmentMembers_later [OF _ assms(2)]])

lemma applyCommit_later:
  assumes "applyCommit off cur c n p = Inr q" and "catalog_later c d"
  shows "applyCommit off cur d n p = Inr q"
  using assms(1) unfolding applyCommit_def
  by (elim andThen_later branch_later) (rule catalog_check_later [OF assms(2)])

lemma offsets_apply_later:
  assumes "offsets_apply c r p = Inr q" and "catalog_later c d"
  shows "offsets_apply d r p = Inr q"
proof -
  have "cgRevision c \<le> cgRevision d" using assms(2) by (simp add: catalog_later_def)
  then have rev: "n > cgRevision d \<Longrightarrow> n > cgRevision c" for n by simp
  note later = applyGroupCreated_later [OF _ assms(2)] applyAssignment_later [OF _ assms(2)] applyCommit_later [OF _ assms(2)]
  show ?thesis using assms(1) rev
    by (fastforce simp: offsets_apply_def andThen_Inr_iff split: if_splits dest: later)
qed

section \<open>The shape of a projection\<close>

lemma applyCommit_Inr:
  assumes "applyCommit offset c catalog n p = Inr q"
  obtains i g key pr m session where
    "q = p\<lparr>ofGroups := (ofGroups p)(i \<mapsto> g\<lparr>ogProgress := (ogProgress g)
        (key \<mapsto> pr\<lparr>opHasCommit := True, opCommittedNext := m\<rparr>)\<rparr>), ofRevision := offset + 1\<rparr>"
    "ofGroups p i = Some g" "ogProgress g key = Some pr" "ogAssignmentOwner g key = Some session" "latestNext pr \<le> m"
  using assms unfolding applyCommit_def Let_def
  by (elim andThen_InrE branch_InrE)
    (rule that, erule Inr_sym, assumption, assumption, simp, simp add: latestNext_def not_less split: if_splits)

lemma applyGroupCreated_Inr:
  assumes "applyGroupCreated offset payload c catalog n p = Inr q"
  obtains i g where "q = p\<lparr>ofGroups := (ofGroups p)(i \<mapsto> g), ofRevision := offset + 1\<rparr>" "ofGroups p i = None"
    "ogGeneration g = 0" "ogAssignmentOwner g = Map.empty" "ogProgress g = Map.empty"
  using assms unfolding applyGroupCreated_def Let_def
  by (elim andThen_InrE branch_InrE) (rule that, erule Inr_sym, simp_all)

lemma applyAssignment_Inr:
  assumes "applyAssignment offset payload c catalog n p = Inr q"
  obtains i g ms sub owners progress inst k k' c1 c2 c3 c4 where
    "q = p\<lparr>ofGroups := (ofGroups p)(i \<mapsto> g\<lparr>ogProgress := progress, ogGeneration := ogGeneration g + 1,
          ogAssignmentOffset := offset, ogAssignmentBody := payload, ogAssignmentOwner := owners,
          ogAssignmentMember := ms, ogAssignmentInstance := inst\<rparr>), ofRevision := offset + 1\<rparr>"
    "ofGroups p i = Some g" "assignmentMembers catalog n k None {} Map.empty c1 = Inr (ms, sub, c2)"
    "assignmentOwners sub k' None Map.empty (ogProgress g) c3 = Inr (owners, progress, c4)"
    "card (dom owners) = card (dom sub)"
proof -
  obtain i g ms sub owners progress inst k k' c1 c2 c3 c4 gen expected where *:
    "q = p\<lparr>ofGroups := (ofGroups p)(i \<mapsto> g\<lparr>ogProgress := progress, ogGeneration := gen,
          ogAssignmentOffset := offset, ogAssignmentBody := payload, ogAssignmentOwner := owners,
          ogAssignmentMember := ms, ogAssignmentInstance := inst\<rparr>), ofRevision := offset + 1\<rparr>"
    "ofGroups p i = Some g" "assignmentMembers catalog n k None {} Map.empty c1 = Inr (ms, sub, c2)"
    "assignmentOwners sub k' None Map.empty (ogProgress g) c3 = Inr (owners, progress, c4)"
    "card (dom owners) = card (dom sub)" "\<not> (expected \<noteq> ogGeneration g \<or> gen \<noteq> expected + 1)"
    using assms unfolding applyAssignment_def Let_def
    by (elim andThen_InrE branch_InrE) (rule that, erule Inr_sym, assumption, simp only:, simp only:, simp only: not_not, assumption)
  have gen: "gen = ogGeneration g + 1" using *(6) by simp
  show ?thesis by (rule that [OF *(1) [unfolded gen] *(2-5)])
qed


text \<open>What the loops of an assignment leave: owners are subscribed members, each with a position.\<close>

lemma memberSubscriptions_ran:
  assumes "memberSubscriptions c n s k previous m cur = Inr (m', cur')" and "finite (dom m)" and "ran m \<subseteq> ms" and "s \<in> ms"
  shows "finite (dom m') \<and> ran m' \<subseteq> ms"
  using assms
proof (induction k arbitrary: previous m cur)
  case (Suc k)
  obtain key c1 where step: "memberSubscriptions c n s k (Some key) (m(key \<mapsto> s)) c1 = Inr (m', cur')"
    using Suc.prems(1) by (auto simp: andThen_Inr_iff split: if_splits)
  have "ran (m(key \<mapsto> s)) \<subseteq> ms" using Suc.prems(3,4) by (auto simp: ran_def)
  moreover have "finite (dom (m(key \<mapsto> s)))" using Suc.prems(2) by simp
  ultimately show ?case using Suc.IH [OF step] Suc.prems(4) by metis
qed simp

lemma assignmentMembers_ran:
  assumes "assignmentMembers c n k previous ms m cur = Inr (ms', m', cur')" and "finite (dom m)" and "ran m \<subseteq> ms"
  shows "finite (dom m') \<and> ran m' \<subseteq> ms'"
  using assms
proof (induction k arbitrary: previous ms m cur)
  case (Suc k)
  obtain s j m1 c1 c2 where sub: "memberSubscriptions c n s j None m c1 = Inr (m1, c2)"
    and step: "assignmentMembers c n k (Some s) (insert s ms) m1 c2 = Inr (ms', m', cur')"
    using Suc.prems(1) by (auto simp: andThen_Inr_iff split: if_splits)
  have "finite (dom m1) \<and> ran m1 \<subseteq> insert s ms"
    using Suc.prems(2,3) by (intro memberSubscriptions_ran [OF sub]) auto
  then show ?case by (intro Suc.IH [OF step]) simp_all
qed simp

definition progress_extends :: "offsetProgress \<Rightarrow> offsetProgress \<Rightarrow> bool" where
  "progress_extends a b \<longleftrightarrow> opInitialNext b = opInitialNext a \<and> (opHasCommit a \<longrightarrow> opHasCommit b) \<and> latestNext a \<le> latestNext b"

lemma assignmentOwners_facts:
  assumes "assignmentOwners sub k previous owners pr cur = Inr (owners', pr', cur')"
    and "\<forall>key s. owners key = Some s \<longrightarrow> sub key = Some s \<and> pr key \<noteq> None"
    and "\<forall>key a. pr key = Some a \<longrightarrow> opHasCommit a \<longrightarrow> opInitialNext a \<le> opCommittedNext a"
  shows "(\<forall>key s. owners' key = Some s \<longrightarrow> sub key = Some s \<and> pr' key \<noteq> None)
    \<and> (\<forall>key a. pr' key = Some a \<longrightarrow> opHasCommit a \<longrightarrow> opInitialNext a \<le> opCommittedNext a)
    \<and> (\<forall>key a. pr key = Some a \<longrightarrow> pr' key = Some a)"
  using assms
proof (induction k arbitrary: previous owners pr cur)
  case (Suc k)
  obtain key owner c1 pr1 where step: "assignmentOwners sub k (Some key) (owners(key \<mapsto> owner)) pr1 c1 = Inr (owners', pr', cur')"
    and o: "owner \<noteq> 0" "owner_of sub key = owner"
    and pr1: "pr1 = pr \<and> pr key \<noteq> None
      \<or> pr key = None \<and> (\<exists>initial. pr1 = pr(key \<mapsto> \<lparr>opInitialNext = initial, opHasCommit = False, opCommittedNext = 0\<rparr>))"
    using Suc.prems(1) ev.decodesD [OF requireID_decodes] by (auto simp: andThen_Inr_iff split: if_splits option.splits) blast
  have "sub key = Some owner" using o by (auto simp: owner_of_def split: option.splits)
  then have "(\<forall>key s. owners' key = Some s \<longrightarrow> sub key = Some s \<and> pr' key \<noteq> None)
    \<and> (\<forall>key a. pr' key = Some a \<longrightarrow> opHasCommit a \<longrightarrow> opInitialNext a \<le> opCommittedNext a)
    \<and> (\<forall>key a. pr1 key = Some a \<longrightarrow> pr' key = Some a)"
    using Suc.prems(2,3) pr1 by (intro Suc.IH [OF step]) (auto split: if_splits)
  moreover have "pr1 key' = Some a" if "pr key' = Some a" for key' a using pr1 that by auto
  ultimately show ?case by blast
qed simp

text \<open>A group: every key has an owner among the members of the assignment and a position, positions never lie
  before the start, and there were no more assignments than events.\<close>

definition group_ok :: "uint64 \<Rightarrow> offsetGroup \<Rightarrow> bool" where
  "group_ok revision g \<longleftrightarrow>
     ogGeneration g \<le> revision
     \<and> (\<forall>key s. ogAssignmentOwner g key = Some s \<longrightarrow> s \<in> ogAssignmentMember g \<and> ogProgress g key \<noteq> None)
     \<and> (\<forall>key a. ogProgress g key = Some a \<longrightarrow> opHasCommit a \<longrightarrow> opInitialNext a \<le> opCommittedNext a)"

definition offsets_inv :: "offsetsProjection \<Rightarrow> bool" where
  "offsets_inv p \<longleftrightarrow> (\<forall>i g. ofGroups p i = Some g \<longrightarrow> group_ok (ofRevision p) g)"

text \<open>A later state of a group keeps its policy and every position, which only moves forward; the owners of a
  generation never change.\<close>

definition group_extends :: "offsetGroup \<Rightarrow> offsetGroup \<Rightarrow> bool" where
  "group_extends g h \<longleftrightarrow>
     ogCreationOffset h = ogCreationOffset g \<and> ogCreationBody h = ogCreationBody g
     \<and> ogCreationStartMode h = ogCreationStartMode g \<and> ogExplicitStarts h = ogExplicitStarts g
     \<and> ogGeneration g \<le> ogGeneration h
     \<and> (ogGeneration h = ogGeneration g \<longrightarrow> ogAssignmentOwner h = ogAssignmentOwner g
          \<and> ogAssignmentMember h = ogAssignmentMember g \<and> ogAssignmentInstance h = ogAssignmentInstance g)
     \<and> (\<forall>key a. ogProgress g key = Some a \<longrightarrow> (\<exists>b. ogProgress h key = Some b \<and> progress_extends a b))"

definition offsets_extends :: "offsetsProjection \<Rightarrow> offsetsProjection \<Rightarrow> bool" where
  "offsets_extends p q \<longleftrightarrow>
     ofStoreID q = ofStoreID p
     \<and> (\<forall>i g. ofGroups p i = Some g \<longrightarrow> (\<exists>h. ofGroups q i = Some h \<and> group_extends g h))"

lemma group_extends_refl [simp]: "group_extends g g"
  by (simp add: group_extends_def progress_extends_def)

lemma group_extends_progress:
  "group_extends g h \<Longrightarrow> ogProgress g key = Some a \<Longrightarrow> \<exists>b. ogProgress h key = Some b \<and> progress_extends a b"
  by (simp add: group_extends_def)

lemma offsets_extends_group:
  "offsets_extends p q \<Longrightarrow> ofGroups p i = Some g \<Longrightarrow> \<exists>h. ofGroups q i = Some h \<and> group_extends g h"
  by (simp add: offsets_extends_def)

lemma group_extends_trans:
  assumes "group_extends g h" and "group_extends h k"
  shows "group_extends g k"
proof -
  have "\<exists>c. ogProgress k key = Some c \<and> progress_extends a c" if a: "ogProgress g key = Some a" for key a
  proof -
    obtain b where b: "ogProgress h key = Some b" "progress_extends a b" using group_extends_progress [OF assms(1) a] by blast
    then obtain c where "ogProgress k key = Some c" "progress_extends b c" using group_extends_progress [OF assms(2)] by blast
    then show ?thesis using b(2) by (auto simp: progress_extends_def)
  qed
  moreover have "ogGeneration h = ogGeneration g" if "ogGeneration k = ogGeneration g"
    using assms that by (auto simp: group_extends_def)
  ultimately show ?thesis using assms by (auto simp: group_extends_def)
qed

lemma offsets_extends_refl: "offsets_extends p p"
  by (simp add: offsets_extends_def)

lemma offsets_extends_trans:
  assumes "offsets_extends p q" and "offsets_extends q r"
  shows "offsets_extends p r"
proof -
  have "\<exists>k. ofGroups r i = Some k \<and> group_extends g k" if g: "ofGroups p i = Some g" for i g
  proof -
    obtain h where h: "ofGroups q i = Some h" "group_extends g h" using offsets_extends_group [OF assms(1) g] by blast
    then obtain k where "ofGroups r i = Some k" "group_extends h k" using offsets_extends_group [OF assms(2)] by blast
    then show ?thesis using h(2) group_extends_trans by blast
  qed
  then show ?thesis using assms by (simp add: offsets_extends_def)
qed

lemma group_ok_later: "group_ok a g \<Longrightarrow> a \<le> b \<Longrightarrow> group_ok b g"
  by (auto simp: group_ok_def)

lemma offsets_update:
  assumes "offsets_inv p" and "ofRevision p \<le> revision" and "group_ok revision h"
    and "\<And>g. ofGroups p i = Some g \<Longrightarrow> group_extends g h"
  shows "offsets_inv (p\<lparr>ofGroups := (ofGroups p)(i \<mapsto> h), ofRevision := revision\<rparr>)
    \<and> offsets_extends p (p\<lparr>ofGroups := (ofGroups p)(i \<mapsto> h), ofRevision := revision\<rparr>)"
proof -
  have "group_ok revision g" if "ofGroups p j = Some g" for j g
    using assms(1) that by (intro group_ok_later [OF _ assms(2)]) (simp add: offsets_inv_def)
  then show ?thesis using assms(3,4) by (auto simp: offsets_inv_def offsets_extends_def)
qed

definition offsets_due :: "uint64 \<Rightarrow> offsetsProjection \<Rightarrow> bool" where
  "offsets_due offset p \<longleftrightarrow> ofRevision p = offset \<and> unat offset + 1 < 2 ^ 64"

lemma offsets_due_next: "offsets_due offset p \<Longrightarrow> ofRevision p \<le> offset + 1 \<and> ofRevision p < offset + 1"
  by (auto simp: offsets_due_def word_le_nat_alt word_less_nat_alt unat_word_ariths)

lemma applyGroupCreated_inv:
  assumes "applyGroupCreated offset payload c catalog n p = Inr q" and "offsets_inv p" and "offsets_due offset p"
  shows "offsets_inv q \<and> offsets_extends p q"
proof -
  obtain i g where q: "q = p\<lparr>ofGroups := (ofGroups p)(i \<mapsto> g), ofRevision := offset + 1\<rparr>" and "ofGroups p i = None"
    "ogGeneration g = 0" "ogAssignmentOwner g = Map.empty" "ogProgress g = Map.empty"
    by (rule applyGroupCreated_Inr [OF assms(1)]) (rule that)
  then show ?thesis
    using offsets_due_next [OF assms(3)] unfolding q by (intro offsets_update [OF assms(2)]) (simp_all add: group_ok_def)
qed

lemma applyAssignment_inv:
  assumes "applyAssignment offset payload c catalog n p = Inr q" and "offsets_inv p" and "offsets_due offset p"
  shows "offsets_inv q \<and> offsets_extends p q"
proof -
  obtain i g ms sub owners progress inst k k' c1 c2 c3 c4 where
    q: "q = p\<lparr>ofGroups := (ofGroups p)(i \<mapsto> g\<lparr>ogProgress := progress, ogGeneration := ogGeneration g + 1,
          ogAssignmentOffset := offset, ogAssignmentBody := payload, ogAssignmentOwner := owners,
          ogAssignmentMember := ms, ogAssignmentInstance := inst\<rparr>), ofRevision := offset + 1\<rparr>"
    and g: "ofGroups p i = Some g" and mem: "assignmentMembers catalog n k None {} Map.empty c1 = Inr (ms, sub, c2)"
    and own: "assignmentOwners sub k' None Map.empty (ogProgress g) c3 = Inr (owners, progress, c4)"
    by (rule applyAssignment_Inr [OF assms(1)]) (rule that)
  have ok: "group_ok offset g" using assms(2,3) g by (simp add: offsets_inv_def offsets_due_def)
  have sub: "ran sub \<subseteq> ms" using assignmentMembers_ran [OF mem] by simp
  have F: "\<forall>key s. owners key = Some s \<longrightarrow> sub key = Some s \<and> progress key \<noteq> None"
    "\<forall>key a. progress key = Some a \<longrightarrow> opHasCommit a \<longrightarrow> opInitialNext a \<le> opCommittedNext a"
    "\<forall>key a. ogProgress g key = Some a \<longrightarrow> progress key = Some a"
    using assignmentOwners_facts [OF own] ok by (auto simp: group_ok_def)
  have F1: "\<forall>key s. owners key = Some s \<longrightarrow> s \<in> ms \<and> progress key \<noteq> None" using F(1) sub by (blast intro: ranI)
  have "ogGeneration g \<le> offset" "unat offset + 1 < 2 ^ 64" using ok assms(3) by (simp_all add: group_ok_def offsets_due_def)
  then have gen: "ogGeneration g + 1 \<le> offset + 1" "ogGeneration g \<le> ogGeneration g + 1" "ogGeneration g + 1 \<noteq> ogGeneration g"
    by (simp_all add: word_le_nat_alt unat_word_ariths)
  have "group_ok (offset + 1) (g\<lparr>ogProgress := progress, ogGeneration := ogGeneration g + 1, ogAssignmentOffset := offset,
      ogAssignmentBody := payload, ogAssignmentOwner := owners, ogAssignmentMember := ms, ogAssignmentInstance := inst\<rparr>)"
    using gen(1) F1 F(2) by (simp add: group_ok_def)
  moreover have "group_extends g (g\<lparr>ogProgress := progress, ogGeneration := ogGeneration g + 1, ogAssignmentOffset := offset,
      ogAssignmentBody := payload, ogAssignmentOwner := owners, ogAssignmentMember := ms, ogAssignmentInstance := inst\<rparr>)"
    using gen(2,3) F(3) by (simp add: group_extends_def progress_extends_def)
  ultimately show ?thesis
    using offsets_due_next [OF assms(3)] g unfolding q by (intro offsets_update [OF assms(2)]) simp_all
qed

lemma applyCommit_inv:
  assumes "applyCommit offset c catalog n p = Inr q" and "offsets_inv p" and "offsets_due offset p"
  shows "offsets_inv q \<and> offsets_extends p q"
proof -
  obtain i g key pr m session where
    q: "q = p\<lparr>ofGroups := (ofGroups p)(i \<mapsto> g\<lparr>ogProgress := (ogProgress g)
        (key \<mapsto> pr\<lparr>opHasCommit := True, opCommittedNext := m\<rparr>)\<rparr>), ofRevision := offset + 1\<rparr>"
    and g: "ofGroups p i = Some g" "ogProgress g key = Some pr" "ogAssignmentOwner g key = Some session" "latestNext pr \<le> m"
    by (rule applyCommit_Inr [OF assms(1)]) (rule that)
  let ?h = "g\<lparr>ogProgress := (ogProgress g)(key \<mapsto> pr\<lparr>opHasCommit := True, opCommittedNext := m\<rparr>)\<rparr>"
  have ok: "group_ok (ofRevision p) g" using assms(2) g(1) by (simp add: offsets_inv_def)
  then have "opHasCommit pr \<longrightarrow> opInitialNext pr \<le> opCommittedNext pr" using g(2) by (simp add: group_ok_def)
  then have m: "opInitialNext pr \<le> m" using g(4) by (auto simp: latestNext_def split: if_splits)
  have "group_ok (offset + 1) g" using ok offsets_due_next [OF assms(3)] by (blast intro: group_ok_later)
  then have "group_ok (offset + 1) ?h" using m by (simp add: group_ok_def) blast
  moreover have "group_extends g ?h" using g(2,4) by (simp add: group_extends_def progress_extends_def latestNext_def)
  ultimately show ?thesis
    using offsets_due_next [OF assms(3)] g(1) unfolding q by (intro offsets_update [OF assms(2)]) simp_all
qed

lemma applied_revision:
  "applyGroupCreated offset payload c catalog n p = Inr q \<Longrightarrow> ofRevision q = offset + 1"
  "applyAssignment offset payload c catalog n p = Inr q \<Longrightarrow> ofRevision q = offset + 1"
  "applyCommit offset c catalog n p = Inr q \<Longrightarrow> ofRevision q = offset + 1"
  by (auto elim!: applyGroupCreated_Inr applyAssignment_Inr applyCommit_Inr)

lemma offsets_apply_inv:
  assumes "offsets_apply catalog r p = Inr q" and "offsets_inv p" and "offsets_due (rOffset r) p"
  shows "offsets_inv q \<and> ofRevision q = rOffset r + 1 \<and> offsets_extends p q"
proof -
  obtain pay c n where "applyGroupCreated (rOffset r) pay c catalog n p = Inr q
      \<or> applyAssignment (rOffset r) pay c catalog n p = Inr q \<or> applyCommit (rOffset r) c catalog n p = Inr q"
    using assms(1) by (auto simp: offsets_apply_def andThen_Inr_iff split: if_splits)
  then show ?thesis
    using applied_revision applyGroupCreated_inv [OF _ assms(2,3)] applyAssignment_inv [OF _ assms(2,3)] applyCommit_inv [OF _ assms(2,3)]
    by metis
qed

end
