(* ===== verification/Metadata.thy ===== *)
theory Metadata
  imports Offsets
begin

text \<open>
  The two metadata logs of a store together: the offsets projection over a history, the equality of the projections
  in memory with those that a restart replays from the logs, and the events that the code writes against the
  projections that apply them.
\<close>

section \<open>Histories of offsets events\<close>

lemma catalog_later_trans:
  assumes "catalog_later c d" and "catalog_later d e"
  shows "catalog_later c e"
proof -
  have "cgRevision c \<le> cgRevision d" "cgRevision d \<le> cgRevision e" "catalog_extends c d" "catalog_extends d e"
    using assms by (simp_all add: catalog_later_def)
  moreover from this have "cgRevision c \<noteq> 0 \<Longrightarrow> cgRevision d \<noteq> 0" by auto
  ultimately show ?thesis using catalog_extends_trans [of c d e] by (simp add: catalog_later_def)
qed

lemma newOffsetsProjection_inv: "offsets_inv (newOffsetsProjection sid)" "ofRevision (newOffsetsProjection sid) = 0"
  by (simp_all add: offsets_inv_def newOffsetsProjection_def)

interpretation offs: event_projection "offsets_apply catalog" ofRevision offsets_inv offsets_extends "newOffsetsProjection sid"
  for catalog sid
  by unfold_locales
    (simp_all add: offsets_apply_inv offsets_due_def newOffsetsProjection_inv offsets_extends_refl, rule offsets_extends_trans)

text \<open>C10. Positions of consumers only move forward: when an offsets log replays, so does every prefix of it, and
  from the earlier to the later projection no group disappears, its start policy stays, its generation does not
  decrease and the owners of one generation never change, and every position keeps its start, stays committed once it
  was, and does not move backwards. In both, every key has an owner among the members of its assignment, and a
  position that does not lie before its start.\<close>

theorem offsets_history:
  assumes "replayed (offsets_apply catalog) (rs @ rs') 0 (newOffsetsProjection sid) = Inr q" and "length (rs @ rs') < 2 ^ 64"
  shows "\<exists>p. replayed (offsets_apply catalog) rs 0 (newOffsetsProjection sid) = Inr p
    \<and> offsets_inv p \<and> offsets_inv q \<and> offsets_extends p q"
  using offs.history [OF assms] by blast

section \<open>A store's two logs\<close>

text \<open>
  The durable events of a store in the order in which they were written, catalog events (left) and offsets events
  (right), each applied at once to the projection in memory, as \<open>createTopic\<close> and \<open>appendOffsetsEventLocked\<close> do:
  an offsets event is checked against the catalog of that moment.
\<close>

type_synonym metadataEvent = "Record + Record"

fun live :: "metadataEvent list \<Rightarrow> catalogProjection \<Rightarrow> offsetsProjection \<Rightarrow> (catalogProjection \<times> offsetsProjection) result" where
  "live [] catalog offsets = Inr (catalog, offsets)"
| "live (Inl r # es) catalog offsets =
     (if rOffset r \<noteq> cgRevision catalog then Inl [ErrMetadataUnavailable]
      else andThen (catalog_apply r catalog) (\<lambda>catalog. live es catalog offsets))"
| "live (Inr r # es) catalog offsets =
     (if rOffset r \<noteq> ofRevision offsets then Inl [ErrGroupUnavailable]
      else andThen (offsets_apply catalog r offsets) (\<lambda>offsets. live es catalog offsets))"

fun catalog_events :: "metadataEvent list \<Rightarrow> Record list" where
  "catalog_events [] = []"
| "catalog_events (Inl r # es) = r # catalog_events es"
| "catalog_events (Inr r # es) = catalog_events es"

fun offsets_events :: "metadataEvent list \<Rightarrow> Record list" where
  "offsets_events [] = []"
| "offsets_events (Inl r # es) = offsets_events es"
| "offsets_events (Inr r # es) = r # offsets_events es"

lemma live_replay:
  assumes "live es c p = Inr (d, q)" and "catalog_inv c" and "unat (cgRevision c) + length es < 2 ^ 64"
  shows "replayRecords catalog_apply (catalog_events es) (cgRevision c) c = Inr (cgRevision d, d) \<and> catalog_later c d
    \<and> (\<forall>e. catalog_later d e \<longrightarrow> replayRecords (offsets_apply e) (offsets_events es) (ofRevision p) p = Inr (ofRevision q, q))"
  using assms
proof (induction es c p rule: live.induct)
  case (2 r es c p)
  obtain c1 where ap: "catalog_apply r c = Inr c1" and r: "rOffset r = cgRevision c" and rest: "live es c1 p = Inr (d, q)"
    using "2.prems"(1) by (auto simp: andThen_Inr_iff split: if_splits)
  have "due r c" using "2.prems"(3) r by (simp add: due_def)
  from catalog_apply_inv [OF ap "2.prems"(2) this]
  have c1: "catalog_inv c1" "cgRevision c1 = cgRevision c + 1" "catalog_extends c c1" using r by simp_all
  have u: "unat (cgRevision c + 1) = unat (cgRevision c) + 1" using "2.prems"(3) by (simp add: unat_word_ariths)
  then have later: "catalog_later c c1" using c1 by (simp add: catalog_later_def word_le_nat_alt)
  have IH: "replayRecords catalog_apply (catalog_events es) (cgRevision c1) c1 = Inr (cgRevision d, d) \<and> catalog_later c1 d
    \<and> (\<forall>e. catalog_later d e \<longrightarrow> replayRecords (offsets_apply e) (offsets_events es) (ofRevision p) p = Inr (ofRevision q, q))"
    using "2.prems"(3) u c1(2) r by (intro "2.IH" [OF _ ap rest c1(1)]) simp_all
  then have "catalog_later c d" using catalog_later_trans [OF later] by blast
  then show ?case using IH ap r c1(2) by simp
next
  case (3 r es c p)
  obtain p1 where ap: "offsets_apply c r p = Inr p1" and r: "rOffset r = ofRevision p" and rest: "live es c p1 = Inr (d, q)"
    using "3.prems"(1) by (auto simp: andThen_Inr_iff split: if_splits)
  have p1: "ofRevision p1 = ofRevision p + 1"
    using ap r applied_revision by (fastforce simp: offsets_apply_def andThen_Inr_iff split: if_splits)
  have IH: "replayRecords catalog_apply (catalog_events es) (cgRevision c) c = Inr (cgRevision d, d) \<and> catalog_later c d
    \<and> (\<forall>e. catalog_later d e \<longrightarrow> replayRecords (offsets_apply e) (offsets_events es) (ofRevision p1) p1 = Inr (ofRevision q, q))"
    using "3.prems"(3) r by (intro "3.IH" [OF _ ap rest "3.prems"(2)]) simp_all
  have "offsets_apply e r p = Inr p1" if "catalog_later d e" for e
    using offsets_apply_later [OF ap] catalog_later_trans [OF _ that] IH by blast
  then show ?case using IH r p1 by simp
qed (simp add: catalog_later_def)


lemma offsets_replay_log:
  assumes img: "partition_image w p css rest" and start: "log_start p = 0"
    and opened: "\<not> pClosed p" "\<not> pClosing p" "\<not> pUnavailable p"
    and run: "replayOffsetsHistory p sid catalog files w = (r, files', w')"
  shows "\<exists>res. r = Some res
    \<and> reads_as (replayed (offsets_apply catalog) (log_of css) 0 (newOffsetsProjection sid)) [] w res [] w'"
proof -
  have "replayLoop (unat (pLogEnd p)) (offsets_apply catalog) p (pLogEnd p) 0 (newOffsetsProjection sid) files w = (r, files', w')"
    using run opened by (simp add: replayOffsetsHistory_def EndOffset_def)
  from replayLoop_log [OF img opened _ _ _ this] show ?thesis using start by simp
qed

text \<open>C9. A restart finds the metadata that was in memory. Whatever catalog and offsets events a store has written,
  in any interleaving and each checked against the catalog of its moment, replaying the two logs one after the other,
  the offsets events all against the final catalog, gives exactly the catalog and the offsets projection that the
  store had; a file-system failure can only make the replay report an error.\<close>

theorem metadata_restart:
  assumes "live es newCatalogProjection (newOffsetsProjection sid) = Inr (catalog, offsets)" and "length es < 2 ^ 64"
    and "partition_image w p css rest" and "log_of css = catalog_events es" and "catalog_events es \<noteq> []"
    and "partition_image w q dss tail" and "log_of dss = offsets_events es"
    and "log_start p = 0" and "log_start q = 0"
    and "\<not> (pClosed p \<or> pClosing p \<or> pUnavailable p)" and "\<not> (pClosed q \<or> pClosing q \<or> pUnavailable q)"
    and "catalog_replay p newCatalogProjection files w = (rc, files1, w1)"
    and "replayOffsetsHistory q sid catalog files1 w1 = (ro, files2, w2)"
  shows "(\<exists>r. rc = Some r \<and> reads_as (Inr catalog) [] w r [] w1) \<and> (\<exists>r. ro = Some r \<and> reads_as (Inr offsets) [] w1 r [] w2)"
proof -
  have R: "replayed catalog_apply (log_of css) 0 newCatalogProjection = Inr catalog"
    "replayed (offsets_apply catalog) (log_of dss) 0 (newOffsetsProjection sid) = Inr offsets"
    using live_replay [OF assms(1) newCatalogProjection_inv(1)] assms(2,4,7) newCatalogProjection_inv newOffsetsProjection_inv
    by (simp_all add: catalog_later_def)
  have "pLogEnd p \<noteq> 0" using image_numbered(3) [OF assms(3)] assms(4,5,8) by auto
  from catalog_replay_log [OF assms(3,8) this _ _ _ assms(12)] assms(10)
  obtain r where r: "rc = Some r" "reads_as (Inr catalog) [] w r [] w1" using R(1) by auto
  have "partition_image w1 q dss tail" using r(2) by (intro image_content [OF assms(6)]) (simp add: reads_as_def)
  from offsets_replay_log [OF this assms(9) _ _ _ assms(13)] assms(11)
  show ?thesis using r R(2) by simp
qed

section \<open>Reading the events that are written\<close>

text \<open>Reading a body that is known field by field: every read is a \<open>take\<close> of what is left.\<close>

lemmas event_compute = event_u8_def event_u32_def event_u64_def event_id_def event_take_rest ev.rest_advance
  expectReserved_rest requireID_def decodeTopicKey_def

lemma stringValue_compute:
  assumes "event_rest c = string_bytes s @ r" and "string_ok maxGroupIDBytes s"
  shows "event_stringValue 255 c = Inr (s, event_advance (4 + length s) c)"
  using ev.decodes_forward(1) [OF event_stringValue_decodes [of 255] _ assms(1)] assms(2) by simp

lemma stringValue_rest:
  assumes "event_rest c = string_bytes s @ r"
  shows "event_rest (event_advance (4 + length s) c) = r"
  using assms by (simp add: ev.rest_advance)

text \<open>The part that all events share.\<close>

definition event_prefix :: "StoreID \<Rightarrow> uint64 \<Rightarrow> bytes \<Rightarrow> bytes" where
  "event_prefix sid n gid = id_bytes sid @ PutUint64 n @ string_bytes gid"

definition offsets_record :: "uint64 \<Rightarrow> bytes \<Rightarrow> Record" where
  "offsets_record offset v = \<lparr>rTopic = ConsumerOffsetsTopicID, rPartition = 0, rOffset = offset, rTimestamp = 0,
     rKey = None, rValue = Some v, rHeaders = []\<rparr>"

lemma offsets_apply_prefix:
  assumes "encodeSystemEvent (event_code ty) (id_bytes sid @ PutUint64 n @ r) = Inr v" and "ofStoreID p = sid"
    and "n \<noteq> 0" and "n \<le> cgRevision catalog"
    and ty: "ty \<in> {EventGroupCreated, EventLocalAssignmentChanged, EventOffsetCommitted}"
  obtains c where "event_rest c = r"
    "offsets_apply catalog (offsets_record offset v) p =
       (if ty = EventGroupCreated then applyGroupCreated offset (id_bytes sid @ PutUint64 n @ r) c catalog n p
        else if ty = EventLocalAssignmentChanged then applyAssignment offset (id_bytes sid @ PutUint64 n @ r) c catalog n p
        else applyCommit offset c catalog n p)"
proof -
  let ?body = "id_bytes sid @ PutUint64 n @ r"
  have v: "v = envelope (event_code ty) ?body" "length ?body \<le> 0xFFFFFFFF" using assms(1) by (simp_all add: encodeSystemEvent_Inr_iff)
  then have d: "decodeSystemEvent (offsets_record offset v) ConsumerOffsetsTopicID = Inr (event_code ty, ?body)"
    using ty by (auto simp: decodeSystemEvent_Inr_iff offsets_record_def eventBelongsToTopic_def)
  have id: "event_id (event_cursor ?body) = Inr (sid, event_advance 16 (event_cursor ?body))"
    by (simp add: event_compute)
  have n: "event_u64 (event_advance 16 (event_cursor ?body)) = Inr (n, event_advance 8 (event_advance 16 (event_cursor ?body)))"
    by (simp add: event_compute)
  show ?thesis
  proof (rule that)
    show "event_rest (event_advance 8 (event_advance 16 (event_cursor ?body))) = r" by (simp add: ev.rest_advance)
    show "offsets_apply catalog (offsets_record offset v) p =
       (if ty = EventGroupCreated then applyGroupCreated offset ?body (event_advance 8 (event_advance 16 (event_cursor ?body))) catalog n p
        else if ty = EventLocalAssignmentChanged
        then applyAssignment offset ?body (event_advance 8 (event_advance 16 (event_cursor ?body))) catalog n p
        else applyCommit offset (event_advance 8 (event_advance 16 (event_cursor ?body))) catalog n p)"
      using assms(2-4) ty unfolding offsets_apply_def d
      by (auto simp: id n offsets_record_def)
  qed
qed

lemma groupCreated_accepted:
  assumes body: "encodeGroupCreatedBody sid n gid start key initial = Inr body"
    and v: "encodeSystemEvent (event_code EventGroupCreated) body = Inr v"
    and p: "ofStoreID p = sid" "n \<noteq> 0" "n \<le> cgRevision catalog" "ofGroups p gid = None"
    and start: "start = 1 \<or> start = 2 \<or> start = 3 \<and> key_ok key \<and> catalogPartition catalog key n = Inr tp"
  shows "offsets_apply catalog (offsets_record offset v) p =
    Inr (p\<lparr>ofGroups := (ofGroups p)(gid \<mapsto> \<lparr>ogCreationOffset = offset, ogCreationBody = body, ogGeneration = 0,
      ogAssignmentOffset = 0, ogAssignmentBody = [], ogAssignmentOwner = Map.empty, ogAssignmentMember = {},
      ogAssignmentInstance = 0, ogCreationStartMode = start,
      ogExplicitStarts = (if start = 3 then [key \<mapsto> initial] else Map.empty), ogProgress = Map.empty\<rparr>), ofRevision := offset + 1\<rparr>)"
proof -
  have gid: "string_ok maxGroupIDBytes gid"
    using body by (auto simp: encodeGroupCreatedBody_def andThen_Inr_iff Let_def)
  let ?r = "string_bytes gid @ [start, 0, 0, 0] @ (if start = 3 then PutUint32 1 @ id_bytes (tkTopic key)
      @ PutUint32 (tkPartition key) @ PutUint64 initial else PutUint32 0)"
  have b: "body = id_bytes sid @ PutUint64 n @ ?r"
    using body by (auto simp: encodeGroupCreatedBody_def andThen_Inr_iff Let_def append_defs split: if_splits)
  obtain c where c: "event_rest c = ?r"
    and ap: "offsets_apply catalog (offsets_record offset v) p = applyGroupCreated offset body c catalog n p"
    by (rule offsets_apply_prefix [OF v [unfolded b] p(1-3), of offset]) (simp_all add: b)
  define c1 where "c1 = event_advance (4 + length gid) c"
  note s = stringValue_compute [OF c gid, folded c1_def] and r1 = stringValue_rest [OF c, folded c1_def]
  show ?thesis unfolding ap applyGroupCreated_def
    using start p(4) s r1
    by (auto simp: event_compute key_ok_def not_after_def finishEvent_def event_remaining_rest split: if_splits)
qed


lemma assignment_accepted:
  assumes body: "encodeAssignmentBody sid n gid session generation reason key resume create = Inr body"
    and v: "encodeSystemEvent (event_code EventLocalAssignmentChanged) body = Inr v"
    and p: "ofStoreID p = sid" "n \<noteq> 0" "n \<le> cgRevision catalog" "ofGroups p gid = Some g" "ogGeneration g = generation"
    and ids: "sid \<noteq> 0" "session \<noteq> 0" "key_ok key" "catalogPartition catalog key n = Inr tp"
    and pr: "create \<longleftrightarrow> ogProgress g key = None" "\<And>a. ogProgress g key = Some a \<Longrightarrow> resume = latestNext a"
  shows "offsets_apply catalog (offsets_record offset v) p =
    Inr (p\<lparr>ofGroups := (ofGroups p)(gid \<mapsto> g\<lparr>ogProgress := (if create then (ogProgress g)(key \<mapsto>
        \<lparr>opInitialNext = resume, opHasCommit = False, opCommittedNext = 0\<rparr>) else ogProgress g),
      ogGeneration := generation + 1, ogAssignmentOffset := offset, ogAssignmentBody := body,
      ogAssignmentOwner := [key \<mapsto> session], ogAssignmentMember := {session}, ogAssignmentInstance := sid\<rparr>), ofRevision := offset + 1\<rparr>)"
proof -
  have gid: "string_ok maxGroupIDBytes gid"
    using body by (auto simp: encodeAssignmentBody_def andThen_Inr_iff Let_def)
  let ?r = "string_bytes gid @ id_bytes sid @ PutUint64 generation @ PutUint64 (generation + 1) @ [reason, 0, 0, 0]
      @ PutUint32 1 @ id_bytes session @ PutUint32 1 @ id_bytes (tkTopic key) @ PutUint32 (tkPartition key)
      @ PutUint32 1 @ id_bytes (tkTopic key) @ PutUint32 (tkPartition key) @ id_bytes session @ PutUint64 resume
      @ (if create then [1, 0, 0, 0] @ PutUint64 resume else [0, 0, 0, 0] @ PutUint64 0)"
  have b: "body = id_bytes sid @ PutUint64 n @ ?r"
    using body by (auto simp: encodeAssignmentBody_def andThen_Inr_iff Let_def append_defs split: if_splits)
  obtain c where c: "event_rest c = ?r"
    and ap: "offsets_apply catalog (offsets_record offset v) p = applyAssignment offset body c catalog n p"
    by (rule offsets_apply_prefix [OF v [unfolded b] p(1-3), of offset]) (simp_all add: b)
  define c1 where "c1 = event_advance (4 + length gid) c"
  note s = stringValue_compute [OF c gid, folded c1_def] and r1 = stringValue_rest [OF c, folded c1_def]
  show ?thesis unfolding ap applyAssignment_def
    using p ids pr s r1
    by (cases "ogProgress g key")
      (auto simp: event_compute key_ok_def not_after_def session_not_after_def owner_of_def finishEvent_def event_remaining_rest)
qed

lemma empty_assignment_accepted:
  assumes body: "encodeEmptyAssignmentBody sid n gid generation = Inr body"
    and v: "encodeSystemEvent (event_code EventLocalAssignmentChanged) body = Inr v"
    and p: "ofStoreID p = sid" "n \<noteq> 0" "n \<le> cgRevision catalog" "ofGroups p gid = Some g" "ogGeneration g = generation"
    and ids: "sid \<noteq> 0"
  shows "offsets_apply catalog (offsets_record offset v) p =
    Inr (p\<lparr>ofGroups := (ofGroups p)(gid \<mapsto> g\<lparr>ogGeneration := generation + 1, ogAssignmentOffset := offset,
      ogAssignmentBody := body, ogAssignmentOwner := Map.empty, ogAssignmentMember := {}, ogAssignmentInstance := sid\<rparr>),
      ofRevision := offset + 1\<rparr>)"
proof -
  have gid: "string_ok maxGroupIDBytes gid"
    using body by (auto simp: encodeEmptyAssignmentBody_def andThen_Inr_iff Let_def)
  let ?r = "string_bytes gid @ id_bytes sid @ PutUint64 generation @ PutUint64 (generation + 1) @ [2, 0, 0, 0]
      @ PutUint32 0 @ PutUint32 0"
  have b: "body = id_bytes sid @ PutUint64 n @ ?r"
    using body by (auto simp: encodeEmptyAssignmentBody_def andThen_Inr_iff Let_def append_defs)
  obtain c where c: "event_rest c = ?r"
    and ap: "offsets_apply catalog (offsets_record offset v) p = applyAssignment offset body c catalog n p"
    by (rule offsets_apply_prefix [OF v [unfolded b] p(1-3), of offset]) (simp_all add: b)
  define c1 where "c1 = event_advance (4 + length gid) c"
  note s = stringValue_compute [OF c gid, folded c1_def] and r1 = stringValue_rest [OF c, folded c1_def]
  show ?thesis unfolding ap applyAssignment_def
    using p ids s r1 by (auto simp: event_compute finishEvent_def event_remaining_rest)
qed

lemma commit_accepted:
  assumes body: "encodeCommitBody sid n gid session generation key pr m = Inr body"
    and v: "encodeSystemEvent (event_code EventOffsetCommitted) body = Inr v"
    and p: "ofStoreID p = sid" "n \<noteq> 0" "n \<le> cgRevision catalog" "ofGroups p gid = Some g" "ogGeneration g = generation"
    and ids: "sid \<noteq> 0" "session \<noteq> 0" "key_ok key" "catalogPartition catalog key n = Inr tp"
    and g: "ogProgress g key = Some pr" "ogAssignmentOwner g key = Some session" "ogAssignmentInstance g = sid"
    and m: "latestNext pr \<le> m"
  shows "offsets_apply catalog (offsets_record offset v) p =
    Inr (p\<lparr>ofGroups := (ofGroups p)(gid \<mapsto> g\<lparr>ogProgress := (ogProgress g)(key \<mapsto> pr\<lparr>opHasCommit := True, opCommittedNext := m\<rparr>)\<rparr>),
      ofRevision := offset + 1\<rparr>)"
proof -
  have gid: "string_ok maxGroupIDBytes gid"
    using body by (auto simp: encodeCommitBody_def andThen_Inr_iff Let_def)
  let ?r = "string_bytes gid @ id_bytes sid @ id_bytes session @ PutUint64 generation @ id_bytes (tkTopic key)
      @ PutUint32 (tkPartition key) @ (if opHasCommit pr then 1 else 0) # [0, 0, 0] @ PutUint64 (latestNext pr) @ PutUint64 m"
  have b: "body = id_bytes sid @ PutUint64 n @ ?r"
    using body by (auto simp: encodeCommitBody_def andThen_Inr_iff Let_def append_defs latestNext_def split: if_splits)
  obtain c where c: "event_rest c = ?r"
    and ap: "offsets_apply catalog (offsets_record offset v) p = applyCommit offset c catalog n p"
    by (rule offsets_apply_prefix [OF v [unfolded b] p(1-3), of offset]) (simp_all add: b)
  define c1 where "c1 = event_advance (4 + length gid) c"
  note s = stringValue_compute [OF c gid, folded c1_def] and r1 = stringValue_rest [OF c, folded c1_def]
  show ?thesis unfolding ap applyCommit_def
    using p ids g m s r1
    by (cases "opHasCommit pr") (auto simp: event_compute key_ok_def latestNext_def finishEvent_def event_remaining_rest)
qed

section \<open>A store with one group\<close>

definition example_key :: topicKey where
  "example_key = TopicKey 77 0"

definition group_body :: bytes where
  "group_body = id_bytes 3 @ PutUint64 1 @ string_bytes [0x67] @ [1, 0, 0, 0] @ PutUint32 0"

definition assignment_body :: bytes where
  "assignment_body = id_bytes 3 @ PutUint64 2 @ string_bytes [0x67] @ id_bytes 3 @ PutUint64 0 @ PutUint64 1 @ [1, 0, 0, 0]
     @ PutUint32 1 @ id_bytes 9 @ PutUint32 1 @ key_bytes example_key @ PutUint32 1 @ key_bytes example_key
     @ id_bytes 9 @ PutUint64 0 @ [1, 0, 0, 0] @ PutUint64 0"

definition group_record :: Record where
  "group_record = offsets_record 0 (envelope (event_code EventGroupCreated) group_body)"

definition assignment_record :: Record where
  "assignment_record = offsets_record 1 (envelope (event_code EventLocalAssignmentChanged) assignment_body)"

definition example_events :: "metadataEvent list" where
  "example_events = [Inl init_record, Inr group_record, Inl topic_record, Inr assignment_record]"

lemma group_applied:
  assumes "ofStoreID p = 3" "1 \<le> cgRevision c" "ofGroups p [0x67] = None"
  shows "\<exists>q g. offsets_apply c group_record p = Inr q \<and> ofStoreID q = 3 \<and> ofRevision q = 1 \<and> ofGroups q [0x67] = Some g
    \<and> ogGeneration g = 0 \<and> ogProgress g = Map.empty"
proof -
  have "string_ok 255 [0x67]" by (simp add: string_ok_def bytesContainZero_def)
  then have b: "encodeGroupCreatedBody 3 1 [0x67] 1 example_key 0 = Inr group_body"
    by (simp add: encodeGroupCreatedBody_def andThen_Inr_iff Let_def append_defs group_body_def)
  have "encodeSystemEvent (event_code EventGroupCreated) group_body = Inr (envelope (event_code EventGroupCreated) group_body)"
    by (simp add: encodeSystemEvent_Inr_iff group_body_def)
  from groupCreated_accepted [OF b this assms(1) _ assms(2,3), where offset = 0]
  show ?thesis using assms(1) by (simp add: group_record_def)
qed


lemma assignment_applied:
  assumes "ofStoreID p = 3" "2 \<le> cgRevision c" "ofGroups p [0x67] = Some g" "ogGeneration g = 0" "ogProgress g = Map.empty"
    and "catalogPartition c example_key 2 = Inr tp"
  shows "\<exists>q. offsets_apply c assignment_record p = Inr q"
proof -
  have "string_ok 255 [0x67]" by (simp add: string_ok_def bytesContainZero_def)
  then have b: "encodeAssignmentBody 3 2 [0x67] 9 0 1 example_key 0 True = Inr assignment_body"
    by (simp add: encodeAssignmentBody_def andThen_Inr_iff Let_def append_defs assignment_body_def key_bytes_def)
  have "encodeSystemEvent (event_code EventLocalAssignmentChanged) assignment_body
      = Inr (envelope (event_code EventLocalAssignmentChanged) assignment_body)"
    by (simp add: encodeSystemEvent_Inr_iff assignment_body_def)
  from assignment_accepted [OF b this assms(1) _ assms(2-4) _ _ _ assms(6), where offset = 1]
  show ?thesis using assms(5) by (simp add: assignment_record_def key_ok_def example_key_def)
qed

lemma record_offsets [simp]:
  "rOffset init_record = 0" "rOffset topic_record = 1" "rOffset group_record = 0" "rOffset assignment_record = 1"
  by (simp_all add: init_record_def topic_record_def group_record_def assignment_record_def offsets_record_def)

lemma example_live: "\<exists>c p. live example_events newCatalogProjection (newOffsetsProjection 3) = Inr (c, p)"
proof -
  obtain c where c: "catalog_apply init_record newCatalogProjection = Inr c" "cgRevision c = 1" "cgStoreID c = 3"
    "cgTopicsByID c = Map.empty" "cgTopicsByName c = Map.empty" using init_applied by blast
  obtain p g where p: "offsets_apply c group_record (newOffsetsProjection 3) = Inr p" "ofStoreID p = 3" "ofRevision p = 1"
    "ofGroups p [0x67] = Some g" "ogGeneration g = 0" "ogProgress g = Map.empty"
    using group_applied [of "newOffsetsProjection 3" c] c(2) by (auto simp: newOffsetsProjection_def)
  obtain d t where d: "catalog_apply topic_record c = Inr d" "cgRevision d = 2" "cgTopicsByID d 77 = Some t"
    "length (tdPartitions (ctDescriptor t)) = 1" "ctCreationOffset t = 1" using topic_applied [OF c(2-5)] by blast
  have "\<exists>tp. catalogPartition d example_key 2 = Inr tp" using d(3-5) by (simp add: catalogPartition_def example_key_def)
  then obtain q where "offsets_apply d assignment_record p = Inr q"
    using assignment_applied [OF p(2) _ p(4-6), of d] d(2) by auto
  then show ?thesis using c p d newCatalogProjection_inv newOffsetsProjection_inv by (simp add: example_events_def)
qed

lemma example_encodable:
  "encodable_batch (first_batch ClusterMetadataTopicID (catalog_events example_events))"
  "encodable_batch (first_batch ConsumerOffsetsTopicID (offsets_events example_events))"
  by (simp_all add: encodable_batch_def first_batch_def record_in_batch_def encodable_record_def example_events_def
      init_record_def topic_record_def group_record_def assignment_record_def offsets_record_def group_body_def assignment_body_def
      topic_fields_def example_topic_event_def topic_partition_bytes_def
      records_length_def record_length_def record_tail_def nullable_bytes_def envelope_def)

definition metadata_world :: world where
  "metadata_world = \<lparr>wFiles = [first_file [0x63] ClusterMetadataTopicID (catalog_events example_events),
     first_file [0x6F] ConsumerOffsetsTopicID (offsets_events example_events)], wFaults = []\<rparr>"

lemma metadata_images:
  "partition_inv metadata_world (first_partition [0x63] ClusterMetadataTopicID (catalog_events example_events))
     [first_chunks ClusterMetadataTopicID (catalog_events example_events)]"
  "partition_inv metadata_world (first_partition [0x6F] ConsumerOffsetsTopicID (offsets_events example_events))
     [first_chunks ConsumerOffsetsTopicID (offsets_events example_events)]"
proof -
  have other: "\<not> log_path [0x63] (path_join [0x6F] name)" "\<not> log_path [0x6F] (path_join [0x63] name)"
    "path_join [0x63] name \<noteq> path_join [0x6F] name" "path_join [0x6F] name \<noteq> path_join [0x63] name" for name
    by (auto simp: log_path_def path_join_def)
  note defs = metadata_world_def first_file_def content_def log_paths_def first_path_def
  show "partition_inv metadata_world (first_partition [0x63] ClusterMetadataTopicID (catalog_events example_events))
      [first_chunks ClusterMetadataTopicID (catalog_events example_events)]"
    by (rule first_image [OF example_encodable(1)]) (use other in \<open>auto simp: defs split: if_splits\<close>)
  show "partition_inv metadata_world (first_partition [0x6F] ConsumerOffsetsTopicID (offsets_events example_events))
      [first_chunks ConsumerOffsetsTopicID (offsets_events example_events)]"
    by (rule first_image [OF example_encodable(2)]) (use other in \<open>auto simp: defs split: if_splits\<close>)
qed

theorem offsets_history_witness:
  "\<exists>c p q. replayed (offsets_apply c) [group_record, assignment_record] 0 (newOffsetsProjection 3) = Inr q
    \<and> replayed (offsets_apply c) [group_record] 0 (newOffsetsProjection 3) = Inr p
    \<and> offsets_inv p \<and> offsets_inv q \<and> offsets_extends p q"
proof -
  obtain c q where l: "live example_events newCatalogProjection (newOffsetsProjection 3) = Inr (c, q)" using example_live by blast
  have "catalog_later c c" by (simp add: catalog_later_def)
  then have r: "replayed (offsets_apply c) ([group_record] @ [assignment_record]) 0 (newOffsetsProjection 3) = Inr q"
    using live_replay [OF l newCatalogProjection_inv(1)] newCatalogProjection_inv newOffsetsProjection_inv
    by (auto simp: example_events_def)
  then show ?thesis using offsets_history [OF r] by auto
qed

theorem metadata_restart_witness:
  "\<exists>c o' files w files' w'. live example_events newCatalogProjection (newOffsetsProjection 3) = Inr (c, o')
    \<and> catalog_replay (first_partition [0x63] ClusterMetadataTopicID (catalog_events example_events)) newCatalogProjection None metadata_world
      = (Some (Inr c), files, w)
    \<and> replayOffsetsHistory (first_partition [0x6F] ConsumerOffsetsTopicID (offsets_events example_events)) 3 c files w
      = (Some (Inr o'), files', w')"
proof -
  let ?p = "first_partition [0x63] ClusterMetadataTopicID (catalog_events example_events)"
    and ?q = "first_partition [0x6F] ConsumerOffsetsTopicID (offsets_events example_events)"
  obtain c q where l: "live example_events newCatalogProjection (newOffsetsProjection 3) = Inr (c, q)" using example_live by blast
  obtain rc files w where rc: "catalog_replay ?p newCatalogProjection None metadata_world = (rc, files, w)" using prod_cases3 by blast
  obtain ro files' w' where ro: "replayOffsetsHistory ?q 3 c files w = (ro, files', w')" using prod_cases3 by blast
  have "catalog_events example_events \<noteq> []" "length example_events < 2 ^ 64" by (simp_all add: example_events_def)
  from metadata_restart [OF l this(2) metadata_images(1) first_log this(1) metadata_images(2) first_log _ _ _ _ rc ro]
  show ?thesis using l rc ro by (auto simp: reads_as_def metadata_world_def)
qed

end
