(* ===== verification/Consumers.thy ===== *)
theory Consumers
  imports Metadata Writer_System
begin

text \<open>
  \<open>src/storage/consumer.go\<close>: consumers of one partition, with \<open>AppendBatch\<close> of \<open>src/storage/partition.go\<close>, through
  which the offsets events are written, and the limits on groups of \<open>src/storage/store.go\<close>.

  The partitions and the consumers of a store are objects that several maps and handles share, so they have addresses
  here. The address of a new object, the time, random identifiers, the outcomes of \<open>TryLock\<close> and what happens on a
  channel are arguments. Times are nanoseconds since the start of the process, and the zero \<open>time.Time\<close> is \<open>None\<close>.
  The hook \<open>offsetsAppend\<close>, which only tests set, is left out, and the admission channel of the offsets log is the
  mutual exclusion that the steps of the theory Delivery already have.
\<close>

section \<open>Direct appends\<close>

text \<open>The part under the partition's lock, and the deferred release of the reservation.\<close>

definition appendReserved :: "writeChoice \<Rightarrow> RecordBatch \<Rightarrow> bytes \<Rightarrow> writerState \<Rightarrow> uint64 result \<times> writerState" where
  "appendReserved choice batch encoded s =
     (let p = wsPartition s
      in if pClosed p then (Inl [ErrClosed], s)
         else if pClosing p then (Inl [ErrClosing], s)
         else
           case appendEncodedLocked (wcRandom choice) (wcTemporaries choice) batch encoded p (wsWorld s) of
             (Inl e, p, w) \<Rightarrow> (Inl e, s\<lparr>wsPartition := p, wsWorld := w\<rparr>)
           | (Inr (offset, publication), p, w) \<Rightarrow>
               (case publishTail (wcTailLocked choice) (wcBudgetLocked choice) publication p (wsBudget s) of
                  (p, budget) \<Rightarrow> (Inr offset, s\<lparr>wsPartition := p, wsWorld := w, wsBudget := budget\<rparr>)))"

definition releaseDisk :: "diskReservation option \<Rightarrow> writerState \<Rightarrow> writerState" where
  "releaseDisk disk s =
     s\<lparr>wsLedger := (case wsLedger s of None \<Rightarrow> None | Some l \<Rightarrow> Some (snd (releaseReservation disk l)))\<rparr>"

definition AppendBatch ::
  "bool \<Rightarrow> diskObservation result \<Rightarrow> writeChoice \<Rightarrow> RecordBatch \<Rightarrow> writerState \<Rightarrow> uint64 result \<times> writerState" where
  "AppendBatch storeClosing outcome choice batch s =
     (let p = wsPartition s; q = wsQueue s
      in if storeClosing \<and> \<not> isSystemPartition (Some p) then (Inl [ErrClosing], s)
         else if wqQueueClosed q then (Inl [ErrClosed], s)
         else if wqQueueClosing q then (Inl [ErrClosing], s)
         else
           case batchEncodedBytes (bRecords batch) of
             Inl e \<Rightarrow> (Inl e, s)
           | Inr estimated \<Rightarrow>
               if estimated > ucast (oBatchBytes (pOptions p)) then (Inl [ErrRecordTooLarge, ErrNew], s)
               else
                 case EncodeBatch batch of
                   Inl e \<Rightarrow> (Inl e, s)
                 | Inr encoded \<Rightarrow>
                     (case estimateDiskBatchGrowth (of_nat (length encoded)) of
                        Inl e \<Rightarrow> (Inl e, s)
                      | Inr (diskBytes, diskInodes) \<Rightarrow>
                          (case reserveDisk p diskBytes diskInodes outcome (wsLedger s) of
                             (Inl e, ledger) \<Rightarrow> (Inl e, s\<lparr>wsLedger := ledger\<rparr>)
                           | (Inr disk, ledger) \<Rightarrow>
                               (case appendReserved choice batch encoded (s\<lparr>wsLedger := ledger\<rparr>) of
                                  (r, s) \<Rightarrow> (r, releaseDisk disk s)))))"

section \<open>Limits on groups\<close>

definition groupHasProjectionKey :: "offsetGroup option \<Rightarrow> topicKey \<Rightarrow> bool" where
  "groupHasProjectionKey grp key =
     (case grp of None \<Rightarrow> False | Some g \<Rightarrow> ogProgress g key \<noteq> None \<or> ogExplicitStarts g key \<noteq> None)"

definition offsetsProjectionUsage :: "offsetsProjection \<Rightarrow> uint64 \<times> uint64" where
  "offsetsProjectionUsage projection =
     (of_nat (card (dom (ofGroups projection))),
      \<Sum>i \<in> dom (ofGroups projection). case ofGroups projection i of
         None \<Rightarrow> 0
       | Some g \<Rightarrow> of_nat (card (dom (ogProgress g))) + of_nat (card (dom (ogExplicitStarts g) - dom (ogProgress g))))"

definition validateOffsetsOperatingLimits :: "offsetsProjection \<Rightarrow> StoreOptions \<Rightarrow> unit result" where
  "validateOffsetsOperatingLimits projection options =
     (case offsetsProjectionUsage projection of (groups, progressKeys) \<Rightarrow>
        if groups > ucast (soMaxConsumerGroups options) then Inl [ErrResourceLimit, ErrNew]
        else if progressKeys > ucast (soMaxConsumerProgressKeys options) then Inl [ErrResourceLimit, ErrNew]
        else Inr ())"

definition admitOffsetsProjectionGrowth ::
  "offsetsProjection \<Rightarrow> StoreOptions \<Rightarrow> uint64 \<Rightarrow> uint64 \<Rightarrow> unit result" where
  "admitOffsetsProjectionGrowth projection options addGroups addProgressKeys =
     (case offsetsProjectionUsage projection of (groups, progressKeys) \<Rightarrow>
        if addGroups > ucast (soMaxConsumerGroups options) \<or> groups > ucast (soMaxConsumerGroups options) - addGroups
        then Inl [ErrResourceLimit, ErrNew]
        else if addProgressKeys > ucast (soMaxConsumerProgressKeys options)
             \<or> progressKeys > ucast (soMaxConsumerProgressKeys options) - addProgressKeys
        then Inl [ErrResourceLimit, ErrNew]
        else Inr ())"

section \<open>Leases\<close>

type_synonym instant = int

definition defaultConsumerProgressTimeout :: Duration where [simp]: "defaultConsumerProgressTimeout = 30000000000"
definition minConsumerProgressTimeout :: Duration where [simp]: "minConsumerProgressTimeout = 1000000"
definition maxConsumerProgressTimeout :: Duration where [simp]: "maxConsumerProgressTimeout = 86400000000000"

record consumerAdmission =
  caPending :: "instant list"
  caEarliest :: instant

definition begin_admission :: "instant \<Rightarrow> consumerAdmission \<Rightarrow> consumerAdmission" where
  "begin_admission since admission =
     admission\<lparr>caPending := caPending admission @ [since],
       caEarliest := (if caEarliest admission = 0 \<or> since < caEarliest admission then since
                      else caEarliest admission)\<rparr>"

fun earliest_of :: "instant list \<Rightarrow> instant \<Rightarrow> instant" where
  "earliest_of [] earliest = earliest"
| "earliest_of (t # rest) earliest =
     earliest_of rest (if earliest = 0 \<or> t < earliest then t else earliest)"

definition end_admission :: "instant \<Rightarrow> consumerAdmission \<Rightarrow> consumerAdmission" where
  "end_admission since admission =
     (let starts = remove1 since (caPending admission)
      in \<lparr>caPending = starts, caEarliest = earliest_of starts 0\<rparr>)"

definition startedBefore :: "instant \<Rightarrow> consumerAdmission \<Rightarrow> bool" where
  "startedBefore deadline admission = (caEarliest admission \<noteq> 0 \<and> caEarliest admission < deadline)"

section \<open>The store\<close>

record livePartition =
  lpPartition :: Partition
  lpQueue :: writerQueue
  lpRequests :: "request_id \<Rightarrow> appendRequest"

record Consumer =
  cnGroupID :: bytes
  cnKey :: topicKey
  cnSession :: id16
  cnGeneration :: uint64
  cnFetch :: FetchOptions
  cnProgressTimeout :: Duration
  cnAdmission :: consumerAdmission
  cnNext :: uint64
  cnDelivered :: uint64
  cnDeadline :: "instant option"
  cnOperationActive :: bool
  cnExpired :: bool
  cnClosed :: bool

record Store =
  stStoreID :: StoreID
  stOptions :: StoreOptions
  stRootPath :: path
  stClosed :: bool
  stClosing :: bool
  stOffsetsUnavailable :: bool
  stCatalogState :: catalogProjection
  stOffsetsState :: offsetsProjection
  stOffsets :: livePartition
  stPartitions :: "topicKey \<rightharpoonup> nat"
  stRetentionPartitions :: "topicKey \<rightharpoonup> nat \<times> bool"
  stHeap :: "nat \<Rightarrow> livePartition"
  stConsumers :: "bytes \<rightharpoonup> nat"
  stGroupConsumers :: "bytes \<rightharpoonup> nat"
  stExpiredGroups :: "bytes set"
  stHandles :: "nat \<Rightarrow> Consumer"
  stLedger :: "diskPressureLedger option"
  stBudget :: "tailBudget option"
  stFiles :: "segmentFileCache option"
  stWorld :: world

text \<open>A partition with what it shares with the rest of the store, and the store after an operation on it.\<close>

definition enter :: "livePartition \<Rightarrow> Store \<Rightarrow> writerState" where
  "enter u s = \<lparr>wsPartition = lpPartition u, wsQueue = lpQueue u, wsLedger = stLedger s, wsBudget = stBudget s,
     wsFiles = stFiles s, wsWorld = stWorld s, wsRequests = lpRequests u\<rparr>"

definition live_part :: "writerState \<Rightarrow> livePartition" where
  "live_part ws = \<lparr>lpPartition = wsPartition ws, lpQueue = wsQueue ws, lpRequests = wsRequests ws\<rparr>"

definition shared_part :: "writerState \<Rightarrow> Store \<Rightarrow> Store" where
  "shared_part ws s = s\<lparr>stLedger := wsLedger ws, stBudget := wsBudget ws, stFiles := wsFiles ws, stWorld := wsWorld ws\<rparr>"

definition leave_offsets :: "writerState \<Rightarrow> Store \<Rightarrow> Store" where
  "leave_offsets ws s = (shared_part ws s)\<lparr>stOffsets := live_part ws\<rparr>"

definition leave_user :: "nat \<Rightarrow> writerState \<Rightarrow> Store \<Rightarrow> Store" where
  "leave_user a ws s = (shared_part ws s)\<lparr>stHeap := (stHeap s)(a := live_part ws)\<rparr>"

section \<open>Offsets events\<close>

record appendChoice =
  apProbe :: "diskObservation result"
  apWrite :: writeChoice

definition appendOffsetsEventLocked :: "appendChoice \<Rightarrow> uint16 \<Rightarrow> bytes \<Rightarrow> Store \<Rightarrow> unit result \<times> Store" where
  "appendOffsetsEventLocked choice eventType body s =
     (case encodeSystemEvent eventType body of
        Inl e \<Rightarrow> (Inl e, s)
      | Inr v \<Rightarrow>
          (case EndOffset (lpPartition (stOffsets s)) of
             Inl e \<Rightarrow> (Inl e, s)
           | Inr base \<Rightarrow>
               (case systemEventAdmission (Some (lpPartition (stOffsets s))) ConsumerOffsetsTopicID base v
                       (soMaxOffsetsHistoryBytes (stOptions s)) of
                  Inl e \<Rightarrow> (Inl e, s)
                | Inr _ \<Rightarrow>
                    let batch = \<lparr>bTopic = ConsumerOffsetsTopicID, bPartition = 0, bBaseOffset = base,
                                 bRecords = [offsets_record base v]\<rparr>
                    in (case AppendBatch (stClosing s) (apProbe choice) (apWrite choice) batch (enter (stOffsets s) s) of
                          (Inl e, ws) \<Rightarrow> (Inl e, leave_offsets ws s)
                        | (Inr _, ws) \<Rightarrow>
                            let s = leave_offsets ws s
                            in (case offsets_apply (stCatalogState s) (offsets_record base v) (stOffsetsState s) of
                                  Inl e \<Rightarrow> (Inl (ErrGroupUnavailable # e), s\<lparr>stOffsetsUnavailable := True\<rparr>)
                                | Inr projection \<Rightarrow> (Inr (), s\<lparr>stOffsetsState := projection\<rparr>))))))"

definition groupAppendError :: "error \<Rightarrow> Store \<Rightarrow> error \<times> Store" where
  "groupAppendError err s =
     (if errors_Is err ErrAppendOutcomeUnknown then (ErrGroupUnavailable # err, s\<lparr>stOffsetsUnavailable := True\<rparr>)
      else if errors_Is err ErrPartitionUnavailable \<or> errors_Is err ErrGroupUnavailable
      then (ErrGroupUnavailable # err, s\<lparr>stOffsetsUnavailable := True\<rparr>)
      else (err, s))"

definition commitAppendError :: "error \<Rightarrow> Store \<Rightarrow> error \<times> Store" where
  "commitAppendError err s =
     (if errors_Is err ErrAppendOutcomeUnknown then (ErrCommitOutcomeUnknown # err, s\<lparr>stOffsetsUnavailable := True\<rparr>)
      else groupAppendError err s)"

section \<open>Opening\<close>

record ConsumerOptions =
  coStart :: byte
  coExplicitStart :: uint64
  coProgressTimeout :: Duration
  coFetch :: FetchOptions

text \<open>\<open>fmt.Sprintf\<close> of a number in decimal.\<close>

fun print_nat :: "nat \<Rightarrow> bytes" where
  "print_nat n = (if n < 10 then [of_nat (48 + n)] else print_nat (n div 10) @ [of_nat (48 + n mod 10)])"

declare print_nat.simps [simp del]

definition consumerMapKey :: "bytes \<Rightarrow> topicKey \<Rightarrow> bytes" where
  "consumerMapKey groupID key = groupID @ [0] @ String_id (tkTopic key) @ [0x2F] @ print_nat (unat (tkPartition key))"

definition newConsumerSession :: "id16 result \<Rightarrow> id16 result" where
  "newConsumerSession random =
     (case random of Inl e \<Rightarrow> Inl (errorf e) | Inr session \<Rightarrow> Inr (if session = 0 then 1 else session))"

definition resolveConsumerStart :: "Partition \<Rightarrow> ConsumerOptions \<Rightarrow> uint64 result" where
  "resolveConsumerStart p options =
     (if pClosed p then Inl [ErrClosed]
      else if pClosing p then Inl [ErrClosing]
      else if pUnavailable p then Inl [ErrPartitionUnavailable]
      else if pSegments p = [] then Inl [ErrOffsetOutOfRange]
      else if coStart options = GroupStartEarliest then Inr (sBaseOffset (sgHeader (hd (pSegments p))))
      else if coStart options = GroupStartLatest then Inr (pLogEnd p)
      else if coStart options = GroupStartExplicit then
        (if coExplicitStart options < sBaseOffset (sgHeader (hd (pSegments p))) \<or> coExplicitStart options > pLogEnd p
         then Inl [ErrOffsetOutOfRange] else Inr (coExplicitStart options))
      else Inl [ErrInvalidArgument, ErrNew])"

definition claimPartitionLocked :: "topicKey \<Rightarrow> Store \<Rightarrow> nat option result \<times> Store" where
  "claimPartitionLocked key s =
     (case stPartitions s key of
        None \<Rightarrow> (Inr None, s)
      | Some a \<Rightarrow>
          (case stRetentionPartitions s key of
             None \<Rightarrow> (Inr (Some a), s)
           | Some (b, retiring) \<Rightarrow>
               if b \<noteq> a then (Inr (Some a), s)
               else if retiring then (Inl [ErrConcurrentOperation, ErrNew], s)
               else (Inr (Some a), s\<lparr>stRetentionPartitions := (stRetentionPartitions s)(key := None)\<rparr>)))"

definition validateRetainedAnchor :: "Partition \<Rightarrow> TopicPartition \<Rightarrow> unit result" where
  "validateRetainedAnchor p descriptor =
     (if pSegments p = [] \<or> sBaseOffset (sgHeader (hd (pSegments p))) \<noteq> cpRetainedL descriptor
         \<or> sID (sgHeader (hd (pSegments p))) \<noteq> cpCurrentRetainedSegment descriptor
         \<or> sgHeaderHash (hd (pSegments p)) \<noteq> cpCurrentRetainedHeaderHash descriptor
      then Inl (corrupt ErrInvalidSegment) else Inr ())"

definition fsMkdirAll :: "path \<Rightarrow> unit io" where "fsMkdirAll path = fileEffect"

definition osMkdirAndSyncPartition :: "path \<Rightarrow> path \<Rightarrow> unit io" where
  "osMkdirAndSyncPartition parent partitionDir w =
     (case fsMkdirAll partitionDir w of
        (Inl e, w) \<Rightarrow> (Inl (errorf e), w)
      | (Inr _, w) \<Rightarrow>
          (case syncDir parent w of
             (Inl e, w) \<Rightarrow> (Inl (errorf e), w)
           | (Inr _, w) \<Rightarrow> syncDir partitionDir w))"

text \<open>What the environment decides for one call of \<open>OpenConsumer\<close>. A group that is still missing after
  \<open>createGroup\<close> would be a nil pointer in Go; it is an error here and cannot occur, since applying the event makes
  the group.\<close>

record openChoice =
  ocContext :: error
  ocAdmission :: "unit result"
  ocNow :: instant
  ocPartition :: nat
  ocHandle :: nat
  ocRing :: "uint32 \<Rightarrow> unit result"
  ocSegment :: id16
  ocTemporaries :: "nat \<Rightarrow> path \<times> path"
  ocSession :: "id16 result"
  ocCreate :: appendChoice
  ocAssign :: appendChoice

definition acquireOffsetsAdmission :: "unit result \<Rightarrow> Store \<Rightarrow> unit result" where
  "acquireOffsetsAdmission outcome s = (if stClosing s then Inl [ErrClosing] else outcome)"

text \<open>\<open>opened.Close()\<close> of a partition that is not attached to the store yet.\<close>

definition closeOpened :: "openChoice \<Rightarrow> livePartition \<Rightarrow> Store \<Rightarrow> Store" where
  "closeOpened choice u s =
     (case closeFinish (ocTemporaries choice) (closeFence
             ((enter (u\<lparr>lpQueue := closeBegin (lpQueue u)\<rparr>) s)\<lparr>wsLedger := None, wsBudget := None, wsFiles := None\<rparr>)) of
        (_, ws) \<Rightarrow> s\<lparr>stWorld := wsWorld ws\<rparr>)"

definition topics_name :: bytes where
  "topics_name = [0x74, 0x6F, 0x70, 0x69, 0x63, 0x73]"

definition openConsumerPartitionLocked :: "openChoice \<Rightarrow> topicKey \<Rightarrow> Store \<Rightarrow> nat result \<times> Store" where
  "openConsumerPartitionLocked choice key s =
     (case cgTopicsByID (stCatalogState s) (tkTopic key) of
        None \<Rightarrow> (Inl [ErrUnknownTopic], s)
      | Some topic \<Rightarrow>
          if tkPartition key \<ge> of_nat (length (tdPartitions (ctDescriptor topic))) then (Inl [ErrInvalidArgument, ErrNew], s)
          else
            case claimPartitionLocked key s of
              (Inl e, s) \<Rightarrow> (Inl e, s)
            | (Inr (Some a), s) \<Rightarrow> (Inr a, s)
            | (Inr None, s) \<Rightarrow>
                (case admitOpenPartitions (card (dom (stPartitions s))) 1 (soMaxOpenPartitions (stOptions s)) of
                   Inl e \<Rightarrow> (Inl e, s)
                 | Inr _ \<Rightarrow>
                     let topicDir = path_join (path_join (stRootPath s) topics_name) (String_id (tkTopic key));
                         partitionDir = path_join topicDir (print_nat (unat (tkPartition key)))
                     in (case osMkdirAndSyncPartition topicDir partitionDir (stWorld s) of
                           (Inl e, w) \<Rightarrow> (Inl e, s\<lparr>stWorld := w\<rparr>)
                         | (Inr _, w) \<Rightarrow>
                             let descriptor = tdPartitions (ctDescriptor topic) ! unat (tkPartition key);
                                 options = (config_options (cpConfig descriptor))\<lparr>oInitialOffset := cpRetainedL descriptor\<rparr>
                             in (case openPartition (ocRing choice) (ocSegment choice) partitionDir (tkTopic key)
                                        (tkPartition key) options (stStoreID s) w of
                                   (Inl e, w) \<Rightarrow> (Inl e, s\<lparr>stWorld := w\<rparr>)
                                 | (Inr p, w) \<Rightarrow>
                                     let s = s\<lparr>stWorld := w\<rparr>;
                                         capacity = (case startWriter (ocRing choice) options of Inl _ \<Rightarrow> 0 | Inr c \<Rightarrow> c);
                                         opened = \<lparr>lpPartition = p, lpQueue = fresh_queue capacity,
                                                   lpRequests = lpRequests (stHeap s (ocPartition choice))\<rparr>
                                     in (case validateRetainedAnchor p descriptor of
                                           Inl e \<Rightarrow> (Inl e, closeOpened choice opened s)
                                         | Inr _ \<Rightarrow>
                                             (Inr (ocPartition choice),
                                              s\<lparr>stHeap := (stHeap s)(ocPartition choice := opened),
                                                stPartitions := (stPartitions s)(key \<mapsto> ocPartition choice)\<rparr>))))))"

text \<open>The checks and defaults of the options.\<close>

definition consumerOptions :: "ConsumerOptions \<Rightarrow> ConsumerOptions result" where
  "consumerOptions options =
     (let options = (if coStart options = 0 then options\<lparr>coStart := GroupStartEarliest\<rparr> else options);
          options = (if coProgressTimeout options = 0
                     then options\<lparr>coProgressTimeout := defaultConsumerProgressTimeout\<rparr> else options)
      in if sint (coProgressTimeout options) < sint minConsumerProgressTimeout
            \<or> sint (coProgressTimeout options) > sint maxConsumerProgressTimeout
         then Inl [ErrInvalidArgument, ErrNew]
         else if coStart options \<noteq> GroupStartEarliest \<and> coStart options \<noteq> GroupStartLatest
                 \<and> coStart options \<noteq> GroupStartExplicit
         then Inl [ErrInvalidArgument, ErrNew]
         else if coStart options \<noteq> GroupStartExplicit \<and> coExplicitStart options \<noteq> 0
         then Inl [ErrInvalidArgument, ErrNew]
         else andThen (normalizeFetchOptions (coFetch options)) (\<lambda>_. Inr options))"

definition createGroup ::
  "openChoice \<Rightarrow> bytes \<Rightarrow> topicKey \<Rightarrow> Partition \<Rightarrow> ConsumerOptions \<Rightarrow> Store \<Rightarrow> unit result \<times> Store" where
  "createGroup choice groupID key user options s =
     (if ofGroups (stOffsetsState s) groupID \<noteq> None then (Inr (), s)
      else
        case resolveConsumerStart user options of
          Inl e \<Rightarrow> (Inl e, s)
        | Inr initial \<Rightarrow>
            (case encodeGroupCreatedBody (stStoreID s) (cgRevision (stCatalogState s)) groupID (coStart options) key initial of
               Inl e \<Rightarrow> (Inl e, s)
             | Inr body \<Rightarrow>
                 (case appendOffsetsEventLocked (ocCreate choice) (event_code EventGroupCreated) body s of
                    (Inl e, s) \<Rightarrow> (case groupAppendError e s of (e, s) \<Rightarrow> (Inl e, s))
                  | (Inr _, s) \<Rightarrow> (Inr (), s))))"

definition resumeOffset :: "offsetGroup \<Rightarrow> topicKey \<Rightarrow> Partition \<Rightarrow> ConsumerOptions \<Rightarrow> uint64 result" where
  "resumeOffset grp key user options =
     (case ogProgress grp key of
        Some progress \<Rightarrow>
          andThen (validateReadOffset (latestNext progress) user) (\<lambda>_. Inr (latestNext progress))
      | None \<Rightarrow>
          if coStart options = GroupStartExplicit then
            (if ogExplicitStarts grp key \<noteq> Some (coExplicitStart options) then Inl [ErrInvalidArgument, ErrNew]
             else Inr (coExplicitStart options))
          else resolveConsumerStart user options)"

definition assignmentReason :: "bytes \<Rightarrow> topicKey \<Rightarrow> offsetGroup \<Rightarrow> Store \<Rightarrow> byte \<times> Store" where
  "assignmentReason groupID key grp s =
     (if groupID \<in> stExpiredGroups s then (4, s\<lparr>stExpiredGroups := stExpiredGroups s - {groupID}\<rparr>)
      else if stConsumers s (consumerMapKey groupID key) \<noteq> None \<or> stGroupConsumers s groupID \<noteq> None then (3, s)
      else if ogGeneration grp \<noteq> 0 then (5, s)
      else (1, s))"

definition OpenConsumer ::
  "openChoice \<Rightarrow> bytes \<Rightarrow> TopicID \<Rightarrow> uint32 \<Rightarrow> ConsumerOptions \<Rightarrow> Store \<Rightarrow> nat result \<times> Store" where
  "OpenConsumer choice groupID topic part options s =
     (if ocContext choice \<noteq> [] then (Inl (ocContext choice), s)
      else
        case andThen (appendString [] groupID maxGroupIDBytes) (\<lambda>_.
               if IsZero topic \<or> topic = ClusterMetadataTopicID \<or> topic = ConsumerOffsetsTopicID \<or> part > MaxInt32
               then Inl [ErrInvalidArgument, ErrNew]
               else
                 andThen (consumerOptions options) (\<lambda>options.
                 andThen (acquireOffsetsAdmission (ocAdmission choice) s) (\<lambda>_.
                   if stClosed s then Inl [ErrClosed]
                   else if stClosing s then Inl [ErrClosing]
                   else if stOffsetsUnavailable s then Inl [ErrGroupUnavailable]
                   else Inr options))) of
          Inl e \<Rightarrow> (Inl e, s)
        | Inr options \<Rightarrow>
            let key = TopicKey topic part
            in (case openConsumerPartitionLocked choice key s of
                  (Inl e, s) \<Rightarrow> (Inl e, s)
                | (Inr a, s) \<Rightarrow>
                    let user = lpPartition (stHeap s a);
                        grp = ofGroups (stOffsetsState s) groupID;
                        addGroups = (if grp = None then 1 else 0);
                        addProgressKeys = (if groupHasProjectionKey grp key then 0 else 1)
                    in (case admitOffsetsProjectionGrowth (stOffsetsState s) (stOptions s) addGroups addProgressKeys of
                          Inl e \<Rightarrow> (Inl e, s)
                        | Inr _ \<Rightarrow>
                            (case createGroup choice groupID key user options s of
                               (Inl e, s) \<Rightarrow> (Inl e, s)
                             | (Inr _, s) \<Rightarrow>
                                 (case ofGroups (stOffsetsState s) groupID of
                                    None \<Rightarrow> (Inl [ErrNew], s)
                                  | Some grp \<Rightarrow>
                                      if ogCreationStartMode grp \<noteq> coStart options then (Inl [ErrInvalidArgument, ErrNew], s)
                                      else
                                        case resumeOffset grp key user options of
                                          Inl e \<Rightarrow> (Inl e, s)
                                        | Inr resume \<Rightarrow>
                                            if ogGeneration grp = 0xFFFFFFFFFFFFFFFF then (Inl [ErrResourceLimit, ErrNew], s)
                                            else
                                              case newConsumerSession (ocSession choice) of
                                                Inl e \<Rightarrow> (Inl e, s)
                                              | Inr session \<Rightarrow>
                                                  (case assignmentReason groupID key grp s of (reason, s) \<Rightarrow>
                                                   (case encodeAssignmentBody (stStoreID s) (cgRevision (stCatalogState s)) groupID
                                                           session (ogGeneration grp) reason key resume (ogProgress grp key = None) of
                                                      Inl e \<Rightarrow> (Inl e, s)
                                                    | Inr body \<Rightarrow>
                                                        (case appendOffsetsEventLocked (ocAssign choice)
                                                                (event_code EventLocalAssignmentChanged) body s of
                                                           (Inl e, s) \<Rightarrow> (case groupAppendError e s of (e, s) \<Rightarrow> (Inl e, s))
                                                         | (Inr _, s) \<Rightarrow>
                                                             let consumer = \<lparr>cnGroupID = groupID, cnKey = key, cnSession = session,
                                                                   cnGeneration = (case ofGroups (stOffsetsState s) groupID of
                                                                     None \<Rightarrow> 0 | Some grp \<Rightarrow> ogGeneration grp),
                                                                   cnFetch = coFetch options, cnProgressTimeout = coProgressTimeout options,
                                                                   cnAdmission = \<lparr>caPending = [], caEarliest = 0\<rparr>, cnNext = resume,
                                                                   cnDelivered = resume,
                                                                   cnDeadline = Some (ocNow choice + sint (coProgressTimeout options)),
                                                                   cnOperationActive = False, cnExpired = False, cnClosed = False\<rparr>
                                                             in (Inr (ocHandle choice),
                                                                 s\<lparr>stHandles := (stHandles s)(ocHandle choice := consumer),
                                                                   stConsumers := (stConsumers s)
                                                                     (consumerMapKey groupID key \<mapsto> ocHandle choice)\<rparr>)))))))))"

section \<open>Handles\<close>

definition update_handle :: "nat \<Rightarrow> (Consumer \<Rightarrow> Consumer) \<Rightarrow> Store \<Rightarrow> Store" where
  "update_handle a f s = s\<lparr>stHandles := (stHandles s)(a := f (stHandles s a))\<rparr>"

definition handle_key :: "Consumer \<Rightarrow> bytes" where
  "handle_key h = consumerMapKey (cnGroupID h) (cnKey h)"

definition lease_over :: "instant \<Rightarrow> Consumer \<Rightarrow> bool" where
  "lease_over now h \<longleftrightarrow>
     cnExpired h \<or> \<not> cnOperationActive h \<and> (case cnDeadline h of None \<Rightarrow> False
       | Some deadline \<Rightarrow> \<not> now < deadline \<and> \<not> startedBefore deadline (cnAdmission h))"

text \<open>The result is the address of the partition. A handle whose lease is over is taken out of the map of consumers
  before the map is compared with the handle.\<close>

definition activePartitionLocked :: "instant \<Rightarrow> nat \<Rightarrow> Store \<Rightarrow> nat result \<times> Store" where
  "activePartitionLocked now a s =
     (let h = stHandles s a
      in if cnClosed h \<or> stClosed s then (Inl [ErrClosed], s)
         else if stClosing s then (Inl [ErrClosing], s)
         else if lease_over now h then
           (Inl [ErrAssignmentLost],
            (update_handle a (\<lambda>h. h\<lparr>cnExpired := True\<rparr>) s)\<lparr>stExpiredGroups := insert (cnGroupID h) (stExpiredGroups s),
              stConsumers := (stConsumers s)(handle_key h := None)\<rparr>)
         else if stOffsetsUnavailable s then (Inl [ErrGroupUnavailable], s)
         else if stConsumers s (handle_key h) \<noteq> Some a then (Inl [ErrAssignmentLost], s)
         else
           case ofGroups (stOffsetsState s) (cnGroupID h) of
             None \<Rightarrow> (Inl [ErrAssignmentLost], s)
           | Some grp \<Rightarrow>
               if ogGeneration grp \<noteq> cnGeneration h \<or> ogAssignmentInstance grp \<noteq> stStoreID s
                  \<or> owner_of (ogAssignmentOwner grp) (cnKey h) \<noteq> cnSession h
               then (Inl [ErrAssignmentLost], s)
               else
                 case stPartitions s (cnKey h) of
                   None \<Rightarrow> (Inl [ErrAssignmentLost], s)
                 | Some b \<Rightarrow> (Inr b, s))"

definition beginOperationLocked :: "instant \<Rightarrow> nat \<Rightarrow> Store \<Rightarrow> nat result \<times> Store" where
  "beginOperationLocked now a s =
     (case activePartitionLocked now a s of
        (Inl e, s) \<Rightarrow> (Inl e, s)
      | (Inr b, s) \<Rightarrow>
          (Inr b, update_handle a (\<lambda>h. h\<lparr>cnOperationActive := True,
             cnDeadline := Some (now + sint (cnProgressTimeout h))\<rparr>) s))"

definition endOperationLocked :: "instant \<Rightarrow> nat \<Rightarrow> Store \<Rightarrow> Store" where
  "endOperationLocked now a s =
     (let s = update_handle a (\<lambda>h. h\<lparr>cnOperationActive := False\<rparr>) s; h = stHandles s a
      in if \<not> cnClosed h \<and> \<not> stClosed s \<and> stConsumers s (handle_key h) = Some a
         then update_handle a (\<lambda>h. h\<lparr>cnDeadline := Some (now + sint (cnProgressTimeout h))\<rparr>) s
         else s)"

section \<open>Polling\<close>

definition pollOptions :: "FetchOptions \<Rightarrow> FetchOptions \<Rightarrow> FetchOptions" where
  "pollOptions options defaults =
     (if foMaxRecords options = 0 \<and> foMaxBytes options = 0 then
        (if foMaxWait options \<noteq> 0 then defaults\<lparr>foMaxWait := foMaxWait options\<rparr> else defaults)
      else options)"

record pollChoice =
  plLocked :: bool
  plContext :: error
  plStarted :: instant
  plBegin :: instant
  plTail :: bool
  plTail2 :: bool
  plFetch :: fetchContext
  plWait :: waitEnd
  plActive :: instant
  plEnd :: instant

text \<open>The fetches, outside the lock of the store.\<close>

definition pollFetch ::
  "pollChoice \<Rightarrow> nat \<Rightarrow> uint64 \<Rightarrow> FetchOptions \<Rightarrow> Store \<Rightarrow> (FetchResult \<times> error) \<times> Store" where
  "pollFetch choice b offset options s =
     (case Fetch (plTail choice) (plFetch choice) offset options (enter (stHeap s b) s) of
        ((result, err), ctx, ws) \<Rightarrow>
          let s = leave_user b ws s
          in if err \<noteq> [] then ((result, err), s)
             else if frRecords result = [] \<and> foMaxWait options \<noteq> 0 then
               (case waitForData offset (foMaxWait options) (plWait choice) (lpPartition (stHeap s b)) of
                  (r, p) \<Rightarrow>
                    let s = s\<lparr>stHeap := (stHeap s)(b := (stHeap s b)\<lparr>lpPartition := p\<rparr>)\<rparr>
                    in (case r of
                          Inl e \<Rightarrow> ((\<lparr>frRecords = [], frNextOffset = offset\<rparr>, e), s)
                        | Inr _ \<Rightarrow>
                            (case Fetch (plTail2 choice) ctx offset options (enter (stHeap s b) s) of
                               ((result, err), _, ws) \<Rightarrow> ((result, err), leave_user b ws s))))
             else ((result, []), s))"

definition pollFinish :: "instant \<Rightarrow> nat \<Rightarrow> FetchResult \<Rightarrow> Store \<Rightarrow> (FetchResult \<times> error) \<times> Store" where
  "pollFinish now a result s =
     (case activePartitionLocked now a s of
        (Inl e, s) \<Rightarrow> ((\<lparr>frRecords = [], frNextOffset = cnNext (stHandles s a)\<rparr>, e), s)
      | (Inr _, s) \<Rightarrow>
          ((result, []), update_handle a (\<lambda>h. h\<lparr>cnNext := frNextOffset result, cnDelivered := frNextOffset result\<rparr>) s))"

definition Poll :: "pollChoice \<Rightarrow> FetchOptions \<Rightarrow> nat \<Rightarrow> Store \<Rightarrow> (FetchResult \<times> error) \<times> Store" where
  "Poll choice options a s =
     (let offset = cnNext (stHandles s a); none = \<lparr>frRecords = [], frNextOffset = offset\<rparr>;
          leave = update_handle a (\<lambda>h. h\<lparr>cnAdmission := end_admission (plStarted choice) (cnAdmission h)\<rparr>)
      in if \<not> plLocked choice then ((no_result, [ErrConcurrentOperation]), s)
         else if plContext choice \<noteq> [] then ((none, plContext choice), s)
         else
           let s = update_handle a (\<lambda>h. h\<lparr>cnAdmission := begin_admission (plStarted choice) (cnAdmission h)\<rparr>) s
           in case normalizeFetchOptions (pollOptions options (cnFetch (stHandles s a))) of
                Inl e \<Rightarrow> ((none, e), leave s)
              | Inr options \<Rightarrow>
                  if foMaxWait options \<noteq> 0 \<and> sint (foMaxWait options) \<ge> sint (cnProgressTimeout (stHandles s a))
                  then ((none, [ErrInvalidArgument, ErrNew]), leave s)
                  else
                    case beginOperationLocked (plBegin choice) a s of
                      (Inl e, s) \<Rightarrow> ((none, e), leave s)
                    | (Inr b, s) \<Rightarrow>
                        (case pollFetch choice b offset options s of
                           ((result, err), s) \<Rightarrow>
                             if err \<noteq> [] then ((result, err), leave (endOperationLocked (plEnd choice) a s))
                             else
                               case pollFinish (plActive choice) a result s of
                                 (r, s) \<Rightarrow> (r, leave (endOperationLocked (plEnd choice) a s))))"

section \<open>Commits and closing\<close>

record commitChoice =
  cmLocked :: bool
  cmContext :: error
  cmAdmission :: "unit result"
  cmStarted :: instant
  cmBegin :: instant
  cmEnd :: instant
  cmAppend :: appendChoice

text \<open>The body of \<open>Commit\<close> between \<open>beginOperationLocked\<close> and \<open>endOperationLocked\<close>; \<open>p\<close> is the partition of the
  handle. A position that is missing reads as zero.\<close>

definition commitLocked :: "appendChoice \<Rightarrow> uint64 \<Rightarrow> nat \<Rightarrow> Partition \<Rightarrow> Store \<Rightarrow> unit result \<times> Store" where
  "commitLocked choice nextOffset a p s =
     (let h = stHandles s a
      in case ofGroups (stOffsetsState s) (cnGroupID h) of
           None \<Rightarrow> (Inl [ErrAssignmentLost], s)
         | Some grp \<Rightarrow>
             let progress = (case ogProgress grp (cnKey h) of
                               None \<Rightarrow> \<lparr>opInitialNext = 0, opHasCommit = False, opCommittedNext = 0\<rparr> | Some pr \<Rightarrow> pr);
                 current = latestNext progress
             in if nextOffset < current then (Inl [ErrCommitRegression], s)
                else if nextOffset > cnDelivered h then (Inl [ErrInvalidCommit], s)
                else
                  case EndOffset p of
                    Inl e \<Rightarrow> (Inl e, s)
                  | Inr end \<Rightarrow>
                      if nextOffset > end then (Inl [ErrInvalidCommit], s)
                      else if opHasCommit progress \<and> nextOffset = current then (Inr (), s)
                      else
                        case encodeCommitBody (stStoreID s) (cgRevision (stCatalogState s)) (cnGroupID h) (cnSession h)
                               (cnGeneration h) (cnKey h) progress nextOffset of
                          Inl e \<Rightarrow> (Inl e, s)
                        | Inr body \<Rightarrow>
                            (case appendOffsetsEventLocked choice (event_code EventOffsetCommitted) body s of
                               (Inl e, s) \<Rightarrow> (case commitAppendError e s of (e, s) \<Rightarrow> (Inl e, s))
                             | (Inr _, s) \<Rightarrow> (Inr (), s)))"

definition Commit :: "commitChoice \<Rightarrow> uint64 \<Rightarrow> nat \<Rightarrow> Store \<Rightarrow> unit result \<times> Store" where
  "Commit choice nextOffset a s =
     (let leave = update_handle a (\<lambda>h. h\<lparr>cnAdmission := end_admission (cmStarted choice) (cnAdmission h)\<rparr>)
      in if cmContext choice \<noteq> [] then (Inl (cmContext choice), s)
         else if \<not> cmLocked choice then (Inl [ErrConcurrentOperation], s)
         else
           let s = update_handle a (\<lambda>h. h\<lparr>cnAdmission := begin_admission (cmStarted choice) (cnAdmission h)\<rparr>) s
           in case acquireOffsetsAdmission (cmAdmission choice) s of
                Inl e \<Rightarrow> (Inl e, leave s)
              | Inr _ \<Rightarrow>
                  (case beginOperationLocked (cmBegin choice) a s of
                     (Inl e, s) \<Rightarrow> (Inl e, leave s)
                   | (Inr b, s) \<Rightarrow>
                       (case commitLocked (cmAppend choice) nextOffset a (lpPartition (stHeap s b)) s of
                          (r, s) \<Rightarrow> (r, leave (endOperationLocked (cmEnd choice) a s)))))"

definition consumer_NextOffset :: "nat \<Rightarrow> Store \<Rightarrow> uint64 result" where
  "consumer_NextOffset a s = (if cnClosed (stHandles s a) then Inl [ErrClosed] else Inr (cnNext (stHandles s a)))"

definition consumer_Close :: "appendChoice \<Rightarrow> nat \<Rightarrow> Store \<Rightarrow> unit result \<times> Store" where
  "consumer_Close choice a s =
     (let h = stHandles s a; key = handle_key h;
          close = update_handle a (\<lambda>h. h\<lparr>cnClosed := True\<rparr>);
          forget_key = (\<lambda>s. s\<lparr>stConsumers := (stConsumers s)(key := None)\<rparr>)
      in if cnClosed h then (Inr (), s)
         else case acquireOffsetsAdmission (Inr ()) s of Inl e \<Rightarrow> (Inl e, s) | Inr _ \<Rightarrow>
         if stClosed s \<or> stConsumers s key \<noteq> Some a then (Inr (), close s)
         else if stOffsetsUnavailable s then (Inl [ErrGroupUnavailable], forget_key (close s))
         else
           case ofGroups (stOffsetsState s) (cnGroupID h) of
             None \<Rightarrow> (Inr (), forget_key (close s))
           | Some grp \<Rightarrow>
               if ogGeneration grp \<noteq> cnGeneration h \<or> owner_of (ogAssignmentOwner grp) (cnKey h) \<noteq> cnSession h
                  \<or> ogGeneration grp = 0xFFFFFFFFFFFFFFFF
               then (Inr (), forget_key (close s))
               else
                 case (case encodeEmptyAssignmentBody (stStoreID s) (cgRevision (stCatalogState s)) (cnGroupID h)
                              (ogGeneration grp) of
                         Inl e \<Rightarrow> (Inl e, s)
                       | Inr body \<Rightarrow> appendOffsetsEventLocked choice (event_code EventLocalAssignmentChanged) body s) of
                   (Inl e, s) \<Rightarrow> (case groupAppendError e (forget_key (close s)) of (e, s) \<Rightarrow> (Inl e, s))
                 | (Inr _, s) \<Rightarrow> (Inr (), forget_key (close s)))"

end
