(* ===== verification/Spec2Isabelle.thy ===== *)
theory Spec2Isabelle
  imports Readers Consumers
begin

text \<open>
  \<^bold>\<open>Immulog: an embedded, append-only, partitioned event log.\<close>

  The theories model the Go packages under \<open>src/api\<close> and \<open>src/storage\<close>.
\<close>

end
